(* ===== verification/Titan_Prelude.thy ===== *)
theory Titan_Prelude
  imports Main "HOL-Library.Word" "HOL-Library.While_Combinator" "HOL-Library.Tree"
    "HOL-Library.Code_Target_Nat" "HOL-Library.Code_Target_Int"
begin

text \<open>
  The prelude of the Titan development. It holds what the component theories share:

  \<^item> the collections \<open>frame\<close> (which part of a state an operation leaves alone) and
    \<open>chain_simps\<close> (linked chains);
  \<^item> the abstraction of an intrusive doubly linked list. The engine has three of them, all
    of one kind: the arrival chain of a \<^verbatim>\<open>PIN_Node\<close> (\<^verbatim>\<open>next_in_time\<close>/\<^verbatim>\<open>prev_in_time\<close>), the
    node chain of a price level (\<^verbatim>\<open>next\<close>/\<^verbatim>\<open>prev\<close>) and the neighbour list of the price index
    (\<^verbatim>\<open>succ\<close>/\<^verbatim>\<open>pred\<close>). They differ in the sentinel only, which is a parameter here;
  \<^item> bit facts about 64-bit masks.
\<close>

named_theorems frame "what an operation leaves unchanged"
named_theorems chain_simps "linked chains"

section \<open>Ends of a list, with a sentinel for the empty list\<close>

definition first :: "'a \<Rightarrow> 'a list \<Rightarrow> 'a" where
  "first e xs = (case xs of [] \<Rightarrow> e | x # _ \<Rightarrow> x)"

definition final :: "'a \<Rightarrow> 'a list \<Rightarrow> 'a" where
  "final e xs = (if xs = [] then e else last xs)"

lemma first_simps [simp]:
  "first e [] = e" "first e (x # xs) = x"
  by (simp_all add: first_def)

lemma final_simps [simp]:
  "final e [] = e" "final e (x # xs) = final x xs"
  by (simp_all add: final_def)

lemma first_append [simp]: "first e (xs @ ys) = first (first e ys) xs"
  by (simp add: first_def split: list.splits)

lemma final_append [simp]: "final e (xs @ ys) = final (final e xs) ys"
  by (simp add: final_def)

lemma first_in_set: "xs \<noteq> [] \<Longrightarrow> first e xs \<in> set xs"
  by (cases xs) simp_all

lemma final_in_set: "xs \<noteq> [] \<Longrightarrow> final e xs \<in> set xs"
  by (simp add: final_def)

lemma first_eq_sentinel: "e \<notin> set xs \<Longrightarrow> first e xs = e \<longleftrightarrow> xs = []"
  by (cases xs) auto

lemma final_eq_sentinel: "e \<notin> set xs \<Longrightarrow> final e xs = e \<longleftrightarrow> xs = []"
  using final_in_set [of xs e] by (cases "xs = []") auto

lemma final_decomp: "xs \<noteq> [] \<Longrightarrow> \<exists>ys. xs = ys @ [final e xs]"
  by (simp add: final_def) (metis append_butlast_last_id)

section \<open>Doubly linked chains\<close>

text \<open>
  \<open>chain nx pv p xs q\<close>: the cells \<open>xs\<close> are linked in this order by \<open>nx\<close> and \<open>pv\<close>; \<open>p\<close> is
  what the first cell's back link holds, \<open>q\<close> what the last cell's forward link holds.
\<close>

fun chain :: "('a \<Rightarrow> 'a) \<Rightarrow> ('a \<Rightarrow> 'a) \<Rightarrow> 'a \<Rightarrow> 'a list \<Rightarrow> 'a \<Rightarrow> bool" where
  "chain nx pv p [] q \<longleftrightarrow> True"
| "chain nx pv p (x # xs) q \<longleftrightarrow> pv x = p \<and> nx x = first q xs \<and> chain nx pv x xs q"

lemma chain_append [chain_simps]:
  "chain nx pv p (xs @ ys) q \<longleftrightarrow> chain nx pv p xs (first q ys) \<and> chain nx pv (final p xs) ys q"
  by (induction xs arbitrary: p) auto

lemma chain_cong:
  assumes "\<And>x. x \<in> set xs \<Longrightarrow> nx x = nx' x" "\<And>x. x \<in> set xs \<Longrightarrow> pv x = pv' x"
  shows "chain nx pv p xs q \<longleftrightarrow> chain nx' pv' p xs q"
  using assms by (induction xs arbitrary: p) auto

lemma chain_upd_notin [simp]:
  "y \<notin> set xs \<Longrightarrow> chain (nx(y := v)) pv p xs q \<longleftrightarrow> chain nx pv p xs q"
  "y \<notin> set xs \<Longrightarrow> chain nx (pv(y := v)) p xs q \<longleftrightarrow> chain nx pv p xs q"
  by (auto intro!: chain_cong)

text \<open>The forward link of the last cell and the back link of the first one may be redirected.\<close>

lemma chain_redirect:
  assumes "chain nx pv p xs q" "distinct xs"
    and "xs \<noteq> [] \<Longrightarrow> nx' (final p xs) = q'" "xs \<noteq> [] \<Longrightarrow> pv' (first q xs) = p'"
    and "\<And>x. x \<in> set xs \<Longrightarrow> x \<noteq> final p xs \<Longrightarrow> nx' x = nx x"
    and "\<And>x. x \<in> set xs \<Longrightarrow> x \<noteq> first q xs \<Longrightarrow> pv' x = pv x"
  shows "chain nx' pv' p' xs q'"
  using assms
proof (induction xs arbitrary: p p')
  case (Cons x xs)
  show ?case
  proof (cases "xs = []")
    case False
    have fin: "final x xs \<in> set xs" and fst: "first q xs \<in> set xs"
      using False by (simp_all add: final_in_set first_in_set)
    have eq: "first q xs = first q' xs" using False by (cases xs) auto
    have pv: "pv' y = pv y" if "y \<in> set xs" for y
      using Cons.prems(2) Cons.prems(6) [of y] that by auto
    from Cons.prems(1) False have "pv (first q xs) = x" by (cases xs) auto
    with Cons.prems fst pv have "chain nx' pv' x xs q'"
      by (intro Cons.IH) auto
    moreover have "nx' x = first q' xs"
      using Cons.prems(1,2) Cons.prems(5) [of x] fin eq by (metis chain.simps(2) distinct.simps(2) final_simps(2) list.set_intros(1))
    ultimately show ?thesis using Cons.prems(4) by simp
  qed (use Cons.prems in simp)
qed simp

lemma chain_next:
  "chain nx pv p (xs @ y # ys) q \<Longrightarrow> nx y = first q ys"
  "chain nx pv p (xs @ y # ys) q \<Longrightarrow> pv y = final p xs"
  by (auto simp: chain_simps)

lemma chain_first: "chain nx pv p xs q \<Longrightarrow> xs \<noteq> [] \<Longrightarrow> pv (first e xs) = p"
  by (cases xs) auto

lemma chain_final: "chain nx pv p xs q \<Longrightarrow> xs \<noteq> [] \<Longrightarrow> nx (final e xs) = q"
proof (induction xs arbitrary: p e)
  case (Cons x xs)
  then show ?case by (cases xs) auto
qed simp

text \<open>
  The ways the engine changes such a chain: insert a cell between two neighbours (at the end
  in particular), take one out. The hypotheses are the assignments the code makes.
\<close>

lemma chain_insert:
  assumes ch: "chain nx pv p (xs @ ys) q" and d: "distinct (xs @ ys)"
    and nz: "nx' z = first q ys" and pz: "pv' z = final p xs"
    and nl: "xs \<noteq> [] \<Longrightarrow> nx' (final p xs) = z"
    and pf: "ys \<noteq> [] \<Longrightarrow> pv' (first q ys) = z"
    and no: "\<And>x. x \<in> set (xs @ ys) \<Longrightarrow> x \<noteq> final p xs \<or> xs = [] \<Longrightarrow> nx' x = nx x"
    and po: "\<And>x. x \<in> set (xs @ ys) \<Longrightarrow> x \<noteq> first q ys \<or> ys = [] \<Longrightarrow> pv' x = pv x"
  shows "chain nx' pv' p (xs @ z # ys) q"
proof -
  have ny: "nx' x = nx x" if "x \<in> set ys" for x
    by (rule no) (use d that final_in_set [of xs p] in auto)
  have px: "pv' x = pv x" if "x \<in> set xs" for x
    by (rule po) (use d that first_in_set [of ys q] in auto)
  from ch have cx: "chain nx pv p xs (first q ys)" and cy: "chain nx pv (final p xs) ys q"
    by (simp_all add: chain_simps)
  have "chain nx' pv' p xs z"
    by (rule chain_redirect [OF cx])
      (use d in \<open>simp_all add: nl no px first_in_set chain_first [OF cx]\<close>)
  moreover have "chain nx' pv' z ys q"
    by (rule chain_redirect [OF cy])
      (use d in \<open>simp_all add: pf ny po final_in_set chain_final [OF cy]\<close>)
  ultimately show ?thesis using nz pz by (simp add: chain_simps)
qed

lemma chain_remove:
  assumes ch: "chain nx pv p (xs @ z # ys) q" and d: "distinct (xs @ z # ys)"
    and nl: "xs \<noteq> [] \<Longrightarrow> nx' (final p xs) = first q ys"
    and pf: "ys \<noteq> [] \<Longrightarrow> pv' (first q ys) = final p xs"
    and no: "\<And>x. x \<in> set (xs @ ys) \<Longrightarrow> x \<noteq> final p xs \<or> xs = [] \<Longrightarrow> nx' x = nx x"
    and po: "\<And>x. x \<in> set (xs @ ys) \<Longrightarrow> x \<noteq> first q ys \<or> ys = [] \<Longrightarrow> pv' x = pv x"
  shows "chain nx' pv' p (xs @ ys) q"
proof -
  have ny: "nx' x = nx x" if "x \<in> set ys" for x
    by (rule no) (use d that final_in_set [of xs p] in auto)
  have px: "pv' x = pv x" if "x \<in> set xs" for x
    by (rule po) (use d that first_in_set [of ys q] in auto)
  from ch have cx: "chain nx pv p xs z" and cy: "chain nx pv z ys q"
    by (simp_all add: chain_simps)
  have "chain nx' pv' p xs (first q ys)"
    by (rule chain_redirect [OF cx])
      (use d in \<open>simp_all add: nl no px first_in_set chain_first [OF cx]\<close>)
  moreover have "chain nx' pv' (final p xs) ys q"
    by (rule chain_redirect [OF cy])
      (use d in \<open>simp_all add: pf ny po final_in_set chain_final [OF cy]\<close>)
  ultimately show ?thesis by (simp add: chain_simps)
qed

text \<open>
  A whole list: head and tail cells, a sentinel that ends it in both directions and is no
  cell itself.
\<close>

definition dll :: "'a \<Rightarrow> ('a \<Rightarrow> 'a) \<Rightarrow> ('a \<Rightarrow> 'a) \<Rightarrow> 'a \<Rightarrow> 'a \<Rightarrow> 'a list \<Rightarrow> bool" where
  "dll nil nx pv h t xs \<longleftrightarrow>
     chain nx pv nil xs nil \<and> distinct xs \<and> nil \<notin> set xs \<and> h = first nil xs \<and> t = final nil xs"

lemma dll_Nil [simp]: "dll nil nx pv h t [] \<longleftrightarrow> h = nil \<and> t = nil"
  by (auto simp: dll_def)

lemma dll_head_nil: "dll nil nx pv h t xs \<Longrightarrow> h = nil \<longleftrightarrow> xs = []"
  by (auto simp: dll_def first_eq_sentinel)

lemma dll_tail_nil: "dll nil nx pv h t xs \<Longrightarrow> t = nil \<longleftrightarrow> xs = []"
  by (auto simp: dll_def final_eq_sentinel)

lemma dll_distinct: "dll nil nx pv h t xs \<Longrightarrow> distinct xs"
  by (simp add: dll_def)

lemma dll_cong:
  assumes "\<And>x. x \<in> set xs \<Longrightarrow> nx x = nx' x" "\<And>x. x \<in> set xs \<Longrightarrow> pv x = pv' x"
  shows "dll nil nx pv h t xs \<longleftrightarrow> dll nil nx' pv' h t xs"
  using chain_cong [OF assms, of xs] by (simp add: dll_def)

text \<open>Reading a list off its forward links: \<open>k\<close> cells from \<open>x\<close> on.\<close>

fun walk :: "nat \<Rightarrow> ('a \<Rightarrow> 'a) \<Rightarrow> 'a \<Rightarrow> 'a list" where
  "walk 0 nx x = []"
| "walk (Suc k) nx x = x # walk k nx (nx x)"

lemma chain_walk: "chain nx pv p xs q \<Longrightarrow> walk (length xs) nx (first q xs) = xs"
  by (induction xs arbitrary: p) auto

lemma dll_walk: "dll nil nx pv h t xs \<Longrightarrow> walk (length xs) nx h = xs"
  unfolding dll_def using chain_walk [of nx pv nil xs nil] by simp

lemma length_walk [simp]: "length (walk k nx x) = k"
  by (induction k arbitrary: x) auto

section \<open>Masks of 64 bits\<close>

unbundle bit_operations_syntax

lemma bit_set_mask:
  "n < 64 \<Longrightarrow> bit ((w :: 64 word) OR 2 ^ n) i \<longleftrightarrow> bit w i \<or> i = n"
  by (auto simp: bit_simps)

lemma bit_clear_mask:
  "n < 64 \<Longrightarrow> bit ((w :: 64 word) AND NOT (2 ^ n)) i \<longleftrightarrow> bit w i \<and> i \<noteq> n"
  by (auto simp: bit_simps dest: bit_imp_le_length)

lemma mask_test_bit: "(w :: 64 word) AND 2 ^ n = 0 \<longleftrightarrow> \<not> bit w n"
  by (simp add: and_exp_eq_0_iff_not_bit)

lemma mask_eq_0: "(w :: 64 word) = 0 \<longleftrightarrow> (\<forall>i < 64. \<not> bit w i)"
  by (auto simp: bit_eq_iff)

lemma mask_full: "NOT (w :: 64 word) = 0 \<longleftrightarrow> (\<forall>i < 64. bit w i)"
  by (auto simp: bit_eq_iff bit_simps)

section \<open>Lists\<close>

lemma remove1_split: "x \<notin> set xs \<Longrightarrow> remove1 x (xs @ x # ys) = xs @ ys"
  by (simp add: remove1_append)

lemma distinct_split_unique:
  assumes "distinct (xs @ x # ys)" "xs @ x # ys = us @ x # vs"
  shows "us = xs \<and> vs = ys"
proof -
  have "distinct (us @ x # vs)" using assms by simp
  then show ?thesis
    using assms append_Cons_eq_iff [of x us vs xs ys] by auto
qed

section \<open>Schedules\<close>

text \<open>If in every state of an invariant that is not final some step lowers a well-founded measure, a final state can be reached.\<close>

lemma schedule_ends:
  assumes "wf R" "\<And>s. I s \<Longrightarrow> \<not> D s \<Longrightarrow> \<exists>s'. step s s' \<and> I s' \<and> (s', s) \<in> R" "I s"
  shows "\<exists>s'. step\<^sup>*\<^sup>* s s' \<and> I s' \<and> D s'"
  using assms(3)
proof (induction s rule: wf_induct_rule [OF assms(1)])
  case (1 s)
  show ?case
  proof (cases "D s")
    case False
    from assms(2) [OF 1(2) False] obtain s1 where s1: "step s s1" "I s1" "(s1, s) \<in> R" by blast
    from 1(1) [OF s1(3,2)] s1(1) show ?thesis by (metis converse_rtranclp_into_rtranclp)
  qed (use 1 in blast)
qed

end
