(* ===== verification/Domain_Types.thy ===== *)
theory Domain_Types
  imports Titan_Prelude
begin

text \<open>
  The value types of the engine: \<^verbatim>\<open>include/titan/domain/types.hpp\<close>, \<^verbatim>\<open>book/order.hpp\<close>,
  \<^verbatim>\<open>book/trade_event.hpp\<close> and \<^verbatim>\<open>book/price_level.hpp\<close>.

  Quantities, ids, sequence numbers and level aggregates are words of the width the source
  gives them, so that every sum of the model wraps where the code's would. A \<^verbatim>\<open>PriceTick\<close> is an
  \<open>int\<close>: the engine only compares prices, and casts one to 64 bits in the snapshot checksum;
  the gateway's decoder yields values of the signed 64-bit range only. Pool indices
  and slot numbers, which are only copied, compared and used as indices, are \<open>nat\<close>.

  \<^verbatim>\<open>Side\<close> and \<^verbatim>\<open>OrderType\<close> are enumerations over a byte which arrive by \<^verbatim>\<open>memcpy\<close> from a socket:
  a byte outside the named values is a legal value of the type, hence the last constructor of
  each datatype.
\<close>

section \<open>Scalars and enumerations\<close>

type_synonym PriceTick = int
type_synonym Qty = "32 word"
type_synonym OrderId = "64 word"
type_synonym Seq = "64 word"

datatype Side = BUY | SELL | Side_raw "8 word"

datatype OrderType = LIMIT | MARKET | IOC | CANCEL | OrderType_raw "8 word"

definition INVALID_INDEX :: nat where
  "INVALID_INDEX = 0xFFFFFFFF"

definition MIN_VALID_PRICE :: PriceTick where
  "MIN_VALID_PRICE = 1"

definition MAX_VALID_PRICE :: PriceTick where
  "MAX_VALID_PRICE = 2 ^ 20"

definition is_valid_price :: "PriceTick \<Rightarrow> bool" where
  "is_valid_price p \<longleftrightarrow> p \<ge> MIN_VALID_PRICE \<and> p \<le> MAX_VALID_PRICE"

section \<open>Orders\<close>

record Order =
  o_id :: OrderId
  o_seq :: Seq
  o_price :: PriceTick
  o_quantity :: Qty
  o_remaining :: Qty
  o_side :: Side
  o_type :: OrderType

definition is_admissible :: "Order \<Rightarrow> bool" where
  "is_admissible o' \<longleftrightarrow> o_type o' = MARKET \<or> o_type o' = CANCEL \<or> is_valid_price (o_price o')"

section \<open>Trade events\<close>

definition TRADE_STATUS_FILL :: "8 word" where
  "TRADE_STATUS_FILL = 0"

definition TRADE_STATUS_REJECTED :: "8 word" where
  "TRADE_STATUS_REJECTED = 1"

record TradeEvent =
  te_taker_id :: OrderId
  te_maker_id :: OrderId
  te_price :: PriceTick
  te_feed_seq :: Seq
  te_quantity :: Qty
  te_taker_side :: Side
  te_status :: "8 word"

section \<open>Price levels\<close>

record PriceLevel =
  lvl_price :: PriceTick
  lvl_head :: nat
  lvl_tail :: nat
  total_qty :: "64 word"
  order_count :: "32 word"

definition PriceLevel_init :: PriceLevel where
  "PriceLevel_init = \<lparr>lvl_price = 0, lvl_head = INVALID_INDEX, lvl_tail = INVALID_INDEX,
     total_qty = 0, order_count = 0\<rparr>"

definition PriceLevel_empty :: "PriceLevel \<Rightarrow> bool" where
  "PriceLevel_empty l \<longleftrightarrow> order_count l = 0"

section \<open>Admissibility\<close>

text \<open>
  The gate of \<^verbatim>\<open>order.hpp\<close>: a priced order passes exactly within the bounds, while a market
  order or a cancel passes whatever its price field holds.
\<close>

lemma is_admissible_priced:
  "o_type o' \<noteq> MARKET \<Longrightarrow> o_type o' \<noteq> CANCEL \<Longrightarrow>
   is_admissible o' \<longleftrightarrow> 1 \<le> o_price o' \<and> o_price o' \<le> 1048576"
  by (simp add: is_admissible_def is_valid_price_def MIN_VALID_PRICE_def MAX_VALID_PRICE_def)

lemma is_admissible_unpriced:
  "o_type o' = MARKET \<or> o_type o' = CANCEL \<Longrightarrow> is_admissible o'"
  by (auto simp: is_admissible_def)

section \<open>Orders and their quantities as natural numbers\<close>

text \<open>The total of what is still open in a list of orders, without wrap-around.\<close>

definition open_qty :: "Order list \<Rightarrow> nat" where
  "open_qty os = sum_list (map (\<lambda>o'. unat (o_remaining o')) os)"

lemma open_qty_simps [simp]:
  "open_qty [] = 0"
  "open_qty (o' # os) = unat (o_remaining o') + open_qty os"
  "open_qty (os @ os') = open_qty os + open_qty os'"
  by (simp_all add: open_qty_def)

lemma open_qty_bound: "open_qty os \<le> length os * (2 ^ 32 - 1)"
proof (induction os)
  case (Cons o' os)
  have "unat (o_remaining o') \<le> 2 ^ 32 - 1"
    using unsigned_less [of "o_remaining o'", where ?'a = nat] by simp
  with Cons show ?case by simp
qed simp

end
