(* ===== verification/Journaler.thy ===== *)
theory Journaler
  imports Domain_Types
begin

text \<open>
  The write-ahead log, \<^verbatim>\<open>include/titan/io/journaler.hpp\<close>. The mapped file is the header and the
  array of order records behind it (\<open>jr_header\<close>, \<open>jr_data\<close>; the padding and the reserved bytes are left
  out). What the operating system answers to the calls of the two constructors is a value of
  \<open>wal_env\<close>; a constructor returns its error or the journal, with the releases (\<^verbatim>\<open>close\<close>, \<^verbatim>\<open>munmap\<close>) it
  has made. Sizes and offsets are 64-bit words.

  \<^verbatim>\<open>msync\<close> changes no memory: each call is noted in \<open>jr_msync\<close>, with the number of records that
  the log had at that moment, so that durability can be stated: a byte of a record is on the disk
  when a synchronous \<^verbatim>\<open>msync\<close> has covered it after the record was written.
\<close>

section \<open>The header and the journal\<close>

definition WAL_MAGIC :: "64 word" where
  "WAL_MAGIC = 0x544954414E"

definition WAL_VERSION :: "16 word" where
  "WAL_VERSION = 1"

text \<open>The two sizes that the source pins with \<^verbatim>\<open>static_assert\<close>.\<close>

definition sizeof_FileHeader :: "64 word" where
  "sizeof_FileHeader = 64"

definition sizeof_Order :: "64 word" where
  "sizeof_Order = 40"

record FileHeader =
  fh_magic :: "64 word"
  fh_version :: "16 word"
  fh_order_size :: "16 word"
  fh_pad :: "32 word"
  fh_count :: "64 word"

datatype ms_flag = MS_ASYNC | MS_SYNC

record msync_call =
  ms_count :: "64 word"
  ms_begin :: "64 word"
  ms_len :: "64 word"
  ms_flags :: ms_flag

record Journaler =
  jr_mapped :: bool
  jr_map_bytes :: "64 word"
  jr_header :: FileHeader
  jr_data :: "nat \<Rightarrow> Order"
  jr_capacity :: "64 word"
  jr_synced_count :: "64 word"
  jr_msync :: "msync_call list"

datatype journal_error =
    CREATE_FAILED | PREALLOCATE_FAILED | MMAP_FAILED | OPEN_FAILED | FILE_TOO_SMALL
  | BAD_MAGIC | BAD_VERSION | ORDER_SIZE_MISMATCH | WAL_FULL

section \<open>Constructors\<close>

text \<open>
  What the system calls return, and the bytes of the file that the mapping shows: a new file
  is all zero, one that is opened holds what was written to it.
\<close>

record wal_env =
  we_open :: bool
  we_fallocate :: bool
  we_ftruncate :: bool
  we_stat :: "64 word option"
  we_mmap :: bool
  we_header :: FileHeader
  we_data :: "nat \<Rightarrow> Order"

datatype release = CLOSE | MUNMAP

definition map_and_wire :: "wal_env \<Rightarrow> 64 word \<Rightarrow> release list \<times> (journal_error + Journaler)" where
  "map_and_wire env bytes =
     (if \<not> we_mmap env then ([CLOSE], Inl MMAP_FAILED)
      else ([], Inr \<lparr>jr_mapped = True, jr_map_bytes = bytes, jr_header = we_header env, jr_data = we_data env,
             jr_capacity = 0, jr_synced_count = 0, jr_msync = []\<rparr>))"

definition journal_create :: "wal_env \<Rightarrow> 64 word \<Rightarrow> release list \<times> (journal_error + Journaler)" where
  "journal_create env capacity_orders =
     (let map_bytes = sizeof_FileHeader + capacity_orders * sizeof_Order in
      if \<not> we_open env then ([], Inl CREATE_FAILED)
      else if \<not> we_fallocate env \<and> \<not> we_ftruncate env then ([CLOSE], Inl PREALLOCATE_FAILED)
      else case map_and_wire env map_bytes of
        (rel, Inl e) \<Rightarrow> (rel, Inl e)
      | (rel, Inr j) \<Rightarrow>
          (rel, Inr (j\<lparr>jr_header := \<lparr>fh_magic = WAL_MAGIC, fh_version = WAL_VERSION,
              fh_order_size = ucast sizeof_Order, fh_pad = 0, fh_count = 0\<rparr>,
            jr_capacity := capacity_orders\<rparr>)))"

definition validate_header :: "Journaler \<Rightarrow> journal_error option" where
  "validate_header j =
     (if fh_magic (jr_header j) \<noteq> WAL_MAGIC then Some BAD_MAGIC
      else if fh_version (jr_header j) \<noteq> WAL_VERSION then Some BAD_VERSION
      else if ucast (fh_order_size (jr_header j)) \<noteq> sizeof_Order then Some ORDER_SIZE_MISMATCH
      else None)"

definition journal_open :: "wal_env \<Rightarrow> release list \<times> (journal_error + Journaler)" where
  "journal_open env =
     (if \<not> we_open env then ([], Inl OPEN_FAILED)
      else case we_stat env of
        None \<Rightarrow> ([CLOSE], Inl FILE_TOO_SMALL)
      | Some st_size \<Rightarrow>
          if st_size < sizeof_FileHeader then ([CLOSE], Inl FILE_TOO_SMALL)
          else case map_and_wire env st_size of
            (rel, Inl e) \<Rightarrow> (rel, Inl e)
          | (rel, Inr j) \<Rightarrow>
              (case validate_header j of
                 Some e \<Rightarrow> (rel @ [MUNMAP, CLOSE], Inl e)
               | None \<Rightarrow> (rel, Inr (j\<lparr>jr_capacity := (jr_map_bytes j - sizeof_FileHeader) div sizeof_Order\<rparr>))))"

section \<open>Operations\<close>

definition journal_append :: "Order \<Rightarrow> Journaler \<Rightarrow> journal_error + Journaler" where
  "journal_append order j =
     (if fh_count (jr_header j) \<ge> jr_capacity j then Inl WAL_FULL
      else Inr (j\<lparr>jr_data := (jr_data j)(unat (fh_count (jr_header j)) := order),
                  jr_header := (jr_header j)\<lparr>fh_count := fh_count (jr_header j) + 1\<rparr>\<rparr>))"

definition journal_count :: "Journaler \<Rightarrow> 64 word" where
  "journal_count j = fh_count (jr_header j)"

definition journal_at :: "Journaler \<Rightarrow> 64 word \<Rightarrow> Order" where
  "journal_at j i = jr_data j (unat i)"

definition msync :: "64 word \<Rightarrow> 64 word \<Rightarrow> ms_flag \<Rightarrow> Journaler \<Rightarrow> Journaler" where
  "msync from len flags j =
     j\<lparr>jr_msync := jr_msync j @ [\<lparr>ms_count = journal_count j, ms_begin = from, ms_len = len, ms_flags = flags\<rparr>]\<rparr>"

definition journal_sync :: "Journaler \<Rightarrow> Journaler" where
  "journal_sync j = (if jr_mapped j then msync 0 (jr_map_bytes j) MS_SYNC j else j)"

text \<open>\<open>pg\<close> is the page size, which the source asks of \<^verbatim>\<open>sysconf\<close>.\<close>

definition sync_dirty :: "64 word \<Rightarrow> ms_flag \<Rightarrow> Journaler \<Rightarrow> Journaler" where
  "sync_dirty pg flags j =
     (if \<not> jr_mapped j then j
      else
        let cnt = fh_count (jr_header j) in
        if cnt = jr_synced_count j \<and> flags = MS_ASYNC then j
        else
          let from = sizeof_FileHeader + jr_synced_count j * sizeof_Order;
              upto = sizeof_FileHeader + cnt * sizeof_Order;
              from = from - from mod pg;
              upto = ((upto + pg - 1) div pg) * pg;
              upto = (if upto > jr_map_bytes j then jr_map_bytes j else upto);
              j = (if upto > from then msync from (upto - from) flags j else j);
              j = (if flags = MS_SYNC then msync 0 pg MS_SYNC j else j)
          in j\<lparr>jr_synced_count := cnt\<rparr>)"

definition flush_async :: "64 word \<Rightarrow> Journaler \<Rightarrow> Journaler" where
  "flush_async pg j = sync_dirty pg MS_ASYNC j"

definition flush_sync :: "64 word \<Rightarrow> Journaler \<Rightarrow> Journaler" where
  "flush_sync pg j = sync_dirty pg MS_SYNC j"

text \<open>The destructor: a last synchronous flush of the whole mapping, then the releases.\<close>

definition journal_destroy :: "Journaler \<Rightarrow> release list \<times> Journaler" where
  "journal_destroy j = (if jr_mapped j then ([MUNMAP, CLOSE], (journal_sync j)\<lparr>jr_mapped := False\<rparr>) else ([CLOSE], j))"

section \<open>Records\<close>

definition wal_records :: "Journaler \<Rightarrow> Order list" where
  "wal_records j = map (jr_data j) [0..<unat (journal_count j)]"

definition journal_ok :: "Journaler \<Rightarrow> bool" where
  "journal_ok j \<longleftrightarrow> jr_mapped j \<and> validate_header j = None \<and> journal_count j \<le> jr_capacity j \<and>
     jr_synced_count j \<le> journal_count j \<and> 64 + unat (jr_capacity j) * 40 \<le> unat (jr_map_bytes j)"

lemma validate_header_None:
  "validate_header j = None \<longleftrightarrow> fh_magic (jr_header j) = WAL_MAGIC \<and> fh_version (jr_header j) = WAL_VERSION \<and>
     ucast (fh_order_size (jr_header j)) = sizeof_Order"
  by (simp add: validate_header_def)

lemma wal_records_length [simp]: "length (wal_records j) = unat (journal_count j)"
  by (simp add: wal_records_def)

lemma count_simps [simp]:
  "journal_count (j\<lparr>jr_msync := ms\<rparr>) = journal_count j" "journal_count (j\<lparr>jr_synced_count := c\<rparr>) = journal_count j"
  "journal_count (msync f l fl j) = journal_count j"
  by (simp_all add: journal_count_def msync_def)

text \<open>A flush changes no record and no part of the header; it moves the flush cursor and makes calls.\<close>

lemma sync_dirty_frame [frame, simp]:
  "jr_header (sync_dirty pg fl j) = jr_header j" "jr_data (sync_dirty pg fl j) = jr_data j"
  "jr_capacity (sync_dirty pg fl j) = jr_capacity j" "jr_mapped (sync_dirty pg fl j) = jr_mapped j"
  "jr_map_bytes (sync_dirty pg fl j) = jr_map_bytes j"
  by (simp_all add: sync_dirty_def msync_def Let_def)

lemma sync_dirty_records [simp]:
  "journal_count (sync_dirty pg fl j) = journal_count j" "wal_records (sync_dirty pg fl j) = wal_records j"
  "validate_header (sync_dirty pg fl j) = validate_header j"
  by (simp_all add: journal_count_def wal_records_def validate_header_def)

lemma sync_dirty_cursor: "jr_mapped j \<Longrightarrow> jr_synced_count (sync_dirty pg fl j) = journal_count j"
  by (auto simp: sync_dirty_def msync_def journal_count_def Let_def)

lemma sync_dirty_ok: "journal_ok j \<Longrightarrow> journal_ok (sync_dirty pg fl j)"
  by (auto simp: journal_ok_def sync_dirty_cursor)

text \<open>\<open>append\<close> adds one record at the end, or refuses because the log is full.\<close>

lemma journal_append_cases:
  assumes "journal_ok j"
  shows "case journal_append o' j of
     Inl e \<Rightarrow> e = WAL_FULL \<and> journal_count j = jr_capacity j
   | Inr j' \<Rightarrow> journal_ok j' \<and> wal_records j' = wal_records j @ [o'] \<and> unat (journal_count j') = Suc (unat (journal_count j)) \<and>
       jr_capacity j' = jr_capacity j \<and> jr_map_bytes j' = jr_map_bytes j \<and> jr_synced_count j' = jr_synced_count j \<and>
       jr_msync j' = jr_msync j"
proof (cases "journal_count j \<ge> jr_capacity j")
  case True
  then show ?thesis using assms by (auto simp: journal_append_def journal_count_def journal_ok_def)
next
  case False
  then have lt: "journal_count j < jr_capacity j" by simp
  then have "unat (journal_count j) < unat (jr_capacity j)" by (simp add: word_less_nat_alt)
  then have c: "unat (journal_count j + 1) = Suc (unat (journal_count j))"
    using unsigned_less [of "jr_capacity j", where ?'a = nat] by (simp add: unat_word_ariths)
  have le: "journal_count j + 1 \<le> jr_capacity j" using lt c by (simp add: word_le_nat_alt word_less_nat_alt)
  have "jr_synced_count j \<le> journal_count j + 1"
    using assms c by (auto simp: journal_ok_def word_le_nat_alt)
  then show ?thesis using assms False c le
    by (auto simp: journal_append_def journal_count_def journal_ok_def validate_header_None wal_records_def)
qed

fun append_all :: "Order list \<Rightarrow> Journaler \<Rightarrow> journal_error + Journaler" where
  "append_all [] j = Inr j"
| "append_all (o' # os) j = (case journal_append o' j of Inl e \<Rightarrow> Inl e | Inr j' \<Rightarrow> append_all os j')"

lemma append_all_result:
  assumes "journal_ok j"
  shows "case append_all os j of
     Inl e \<Rightarrow> e = WAL_FULL \<and> unat (jr_capacity j) < unat (journal_count j) + length os
   | Inr j' \<Rightarrow> journal_ok j' \<and> wal_records j' = wal_records j @ os \<and> jr_capacity j' = jr_capacity j \<and>
       jr_map_bytes j' = jr_map_bytes j \<and> unat (journal_count j') = unat (journal_count j) + length os"
  using assms
proof (induction os arbitrary: j)
  case (Cons o' os)
  note c = journal_append_cases [OF Cons.prems, of o']
  show ?case
  proof (cases "journal_append o' j")
    case (Inr j')
    then show ?thesis using c Cons.IH [of j'] by (auto split: sum.splits)
  qed (use c in auto)
qed simp

section \<open>Opening and reopening\<close>

lemma size16: "(ucast (x :: 16 word) :: 64 word) = 40 \<longleftrightarrow> x = 40"
proof
  assume "(ucast x :: 64 word) = 40"
  then have "unat (ucast x :: 64 word) = 40" by simp
  moreover have "unat (ucast x :: 64 word) = unat x"
    using unsigned_less [of x, where ?'a = nat] by (simp add: unsigned_ucast_eq take_bit_nat_eq_self)
  ultimately show "x = 40" by (simp add: word_eq_iff_unsigned [where ?'a = nat] del: word_eq_iff_unsigned)
qed simp

text \<open>
  C33. Opening a log succeeds exactly for a file that can be opened, stat'ed and mapped and whose header
  is that of this format; the journal then shows the file's records. Every failure after the file was
  opened closes it exactly once, and unmaps it exactly if it had been mapped.
\<close>

theorem journal_open_outcome:
  "case journal_open env of
     (rel, Inr j) \<Rightarrow> rel = [] \<and> we_open env \<and> we_mmap env \<and>
       (\<exists>sz. we_stat env = Some sz \<and> 64 \<le> sz \<and> jr_map_bytes j = sz \<and> unat (jr_capacity j) = (unat sz - 64) div 40) \<and>
       fh_magic (we_header env) = WAL_MAGIC \<and> fh_version (we_header env) = WAL_VERSION \<and> fh_order_size (we_header env) = 40 \<and>
       jr_header j = we_header env \<and> jr_data j = we_data env
   | (rel, Inl e) \<Rightarrow>
       count_list rel CLOSE = (if we_open env then 1 else 0) \<and>
       count_list rel MUNMAP = (if e \<in> {BAD_MAGIC, BAD_VERSION, ORDER_SIZE_MISMATCH} then 1 else 0) \<and>
       (\<not> we_open env \<or> \<not> we_mmap env \<or> (\<forall>sz. we_stat env \<noteq> Some sz \<or> sz < 64) \<or>
        fh_magic (we_header env) \<noteq> WAL_MAGIC \<or> fh_version (we_header env) \<noteq> WAL_VERSION \<or> fh_order_size (we_header env) \<noteq> 40)"
proof (cases "we_open env \<and> we_mmap env")
  case True
  have cap: "unat ((sz - 64) div 40) = (unat sz - 64) div 40" if "64 \<le> sz" for sz :: "64 word"
    using that by (simp add: unat_div unat_sub)
  show ?thesis
  proof (cases "we_stat env")
    case (Some sz)
    then show ?thesis using True cap [of sz]
      by (auto simp: journal_open_def map_and_wire_def validate_header_def sizeof_FileHeader_def sizeof_Order_def size16)
  qed (use True in \<open>simp add: journal_open_def\<close>)
next
  case False
  then show ?thesis by (auto simp: journal_open_def map_and_wire_def split: option.splits)
qed

definition file_of :: "Journaler \<Rightarrow> wal_env" where
  "file_of j = \<lparr>we_open = True, we_fallocate = True, we_ftruncate = True, we_stat = Some (jr_map_bytes j), we_mmap = True,
     we_header = jr_header j, we_data = jr_data j\<rparr>"

lemma journal_create_ok:
  assumes "journal_create env cap = (rel, Inr j)" "64 + unat cap * 40 < 2 ^ 64"
  shows "journal_ok j" "wal_records j = []" "jr_capacity j = cap" "unat (jr_map_bytes j) = 64 + unat cap * 40"
    "jr_synced_count j = 0" "jr_msync j = []"
proof -
  have "unat (64 + cap * 40) = 64 + unat cap * 40" using assms(2) by (simp add: unat_word_ariths)
  then show "journal_ok j" "wal_records j = []" "jr_capacity j = cap" "unat (jr_map_bytes j) = 64 + unat cap * 40"
    "jr_synced_count j = 0" "jr_msync j = []"
    using assms(1)
    by (auto simp: journal_create_def map_and_wire_def Let_def journal_ok_def validate_header_None wal_records_def journal_count_def
      sizeof_FileHeader_def sizeof_Order_def split: if_splits)
qed

text \<open>
  C24. A log that was created, appended to and closed is found again when it is opened: the same records in the same
  order, and the same capacity. The capacity is one whose file size fits 64 bits.
\<close>

theorem journal_reopen:
  assumes "journal_create env cap = (rel, Inr j)" "64 + unat cap * 40 < 2 ^ 64" "append_all os j = Inr j'"
  shows "case journal_open (file_of (snd (journal_destroy j'))) of
     (rel', Inr j'') \<Rightarrow> wal_records j'' = os \<and> jr_capacity j'' = cap \<and> rel' = [] | (rel', Inl e) \<Rightarrow> False"
proof -
  note c = journal_create_ok [OF assms(1,2)]
  have a: "journal_ok j'" "wal_records j' = os" "jr_capacity j' = cap" "unat (jr_map_bytes j') = 64 + unat cap * 40"
    using append_all_result [OF c(1), of os] assms(3) c by auto
  let ?m = "jr_map_bytes j'"
  have ge: "64 \<le> ?m" using a(4) by (simp add: word_le_nat_alt)
  have "unat ((?m - 64) div 40) = unat cap" using a(4) ge by (simp add: unat_div unat_sub)
  then have "(?m - 64) div 40 = cap" by (rule word_unat_eq_iff [THEN iffD2])
  moreover have "fh_magic (jr_header j') = WAL_MAGIC" "fh_version (jr_header j') = WAL_VERSION"
    "ucast (fh_order_size (jr_header j')) = sizeof_Order" "jr_mapped j'"
    using a(1) by (auto simp: journal_ok_def validate_header_None)
  ultimately show ?thesis using a(2) ge
    by (auto simp: journal_open_def journal_destroy_def journal_sync_def msync_def file_of_def map_and_wire_def
      validate_header_def sizeof_FileHeader_def sizeof_Order_def wal_records_def journal_count_def)
qed

definition zero_order :: Order where
  "zero_order = \<lparr>o_id = 0, o_seq = 0, o_price = 0, o_quantity = 0, o_remaining = 0, o_side = BUY, o_type = LIMIT\<rparr>"

definition fresh_file :: wal_env where
  "fresh_file = \<lparr>we_open = True, we_fallocate = True, we_ftruncate = True, we_stat = Some 0, we_mmap = True,
     we_header = \<lparr>fh_magic = 0, fh_version = 0, fh_order_size = 0, fh_pad = 0, fh_count = 0\<rparr>, we_data = (\<lambda>_. zero_order)\<rparr>"

definition fresh_wal :: "64 word \<Rightarrow> Journaler" where
  "fresh_wal cap = \<lparr>jr_mapped = True, jr_map_bytes = 64 + cap * 40, jr_header = \<lparr>fh_magic = WAL_MAGIC, fh_version = WAL_VERSION,
     fh_order_size = 40, fh_pad = 0, fh_count = 0\<rparr>, jr_data = (\<lambda>_. zero_order), jr_capacity = cap, jr_synced_count = 0, jr_msync = []\<rparr>"

text \<open>A file of zeroes is refused, closed and unmapped.\<close>

theorem journal_open_outcome_witness:
  "case journal_open (fresh_file\<lparr>we_stat := Some 224\<rparr>) of
     (rel, Inr j) \<Rightarrow> False | (rel, Inl e) \<Rightarrow> count_list rel CLOSE = 1"
  using journal_open_outcome [of "fresh_file\<lparr>we_stat := Some 224\<rparr>"]
  by (auto simp: fresh_file_def WAL_MAGIC_def split: prod.splits sum.splits)

lemma journal_create_fresh: "journal_create fresh_file cap = ([], Inr (fresh_wal cap))"
  by (simp add: journal_create_def map_and_wire_def fresh_file_def fresh_wal_def sizeof_FileHeader_def sizeof_Order_def)

lemma append_all_fits: "journal_ok j \<Longrightarrow> unat (journal_count j) + length os \<le> unat (jr_capacity j) \<Longrightarrow> \<exists>j'. append_all os j = Inr j'"
  using append_all_result [of j os] by (cases "append_all os j") auto

lemma fresh_wal_ok: "64 + unat cap * 40 < 2 ^ 64 \<Longrightarrow> journal_ok (fresh_wal cap)"
  using journal_create_ok(1) [OF journal_create_fresh] .

lemma fresh_wal_simps [simp]:
  "journal_count (fresh_wal cap) = 0" "jr_capacity (fresh_wal cap) = cap" "jr_synced_count (fresh_wal cap) = 0"
  "jr_msync (fresh_wal cap) = []" "wal_records (fresh_wal cap) = []"
  by (simp_all add: fresh_wal_def journal_count_def wal_records_def)

theorem journal_reopen_witness:
  "\<exists>j'. append_all [zero_order, zero_order] (fresh_wal 4) = Inr j' \<and>
     (case journal_open (file_of (snd (journal_destroy j'))) of (rel, Inr j) \<Rightarrow> wal_records j = [zero_order, zero_order] | (rel, Inl e) \<Rightarrow> False)"
proof -
  obtain j' where j': "append_all [zero_order, zero_order] (fresh_wal 4) = Inr j'"
    using append_all_fits [OF fresh_wal_ok, of 4 "[zero_order, zero_order]"] by auto
  from journal_reopen [OF journal_create_fresh _ this] show ?thesis using j' by (auto split: sum.splits)
qed

section \<open>Durability\<close>

text \<open>
  A byte \<open>x\<close> of the file, of the record \<open>i\<close>, is on the disk once a synchronous \<^verbatim>\<open>msync\<close> has covered it
  when the record was in the log. A record never changes afterwards.
\<close>

definition byte_durable :: "Journaler \<Rightarrow> nat \<Rightarrow> nat \<Rightarrow> bool" where
  "byte_durable j i x \<longleftrightarrow> list_ex (\<lambda>c. ms_flags c = MS_SYNC \<and> i < unat (ms_count c) \<and>
     unat (ms_begin c) \<le> x \<and> x < unat (ms_begin c) + unat (ms_len c)) (jr_msync j)"

definition record_durable :: "Journaler \<Rightarrow> nat \<Rightarrow> bool" where
  "record_durable j i \<longleftrightarrow> list_all (byte_durable j i) [64 + 40 * i..<104 + 40 * i]"

text \<open>The range of a flush that finds \<open>s\<close> records flushed and \<open>c\<close> written, as natural numbers.\<close>

definition dirty_from :: "nat \<Rightarrow> nat \<Rightarrow> nat" where
  "dirty_from pg s = (64 + s * 40) div pg * pg"

definition dirty_upto :: "nat \<Rightarrow> nat \<Rightarrow> nat \<Rightarrow> nat" where
  "dirty_upto pg bytes c = min bytes ((64 + c * 40 + pg - 1) div pg * pg)"

lemma dirty_range:
  assumes "0 < pg" "64 + c * 40 \<le> bytes"
  shows "dirty_from pg s \<le> 64 + s * 40" "64 + c * 40 \<le> dirty_upto pg bytes c"
proof -
  show "dirty_from pg s \<le> 64 + s * 40" by (simp add: dirty_from_def)
  have "64 + c * 40 \<le> (64 + c * 40 + pg - 1) div pg * pg"
    using assms(1) div_mult_mod_eq [of "64 + c * 40 + pg - 1" pg] mod_less_divisor [of pg "64 + c * 40 + pg - 1"] by linarith
  then show "64 + c * 40 \<le> dirty_upto pg bytes c" using assms(2) by (simp add: dirty_upto_def)
qed

lemma dirty_nonempty:
  assumes "0 < pg" "64 + c * 40 \<le> bytes" "s \<le> c"
  shows "dirty_from pg s \<le> dirty_upto pg bytes c" "s < c \<Longrightarrow> dirty_from pg s < dirty_upto pg bytes c"
  using dirty_range(1) [OF assms(1,2), of s] dirty_range(2) [OF assms(1,2)] assms(3) by simp_all

lemma unat_offset: "64 + unat n * 40 < 2 ^ 64 \<Longrightarrow> unat (64 + n * 40 :: 64 word) = 64 + unat n * 40"
  by (simp add: unat_word_ariths)

lemma unat_dirty_from:
  assumes "64 + unat s * 40 < 2 ^ 64"
  shows "unat (64 + s * 40 - (64 + s * 40) mod pg :: 64 word) = dirty_from (unat pg) (unat s)"
proof -
  let ?b = "64 + s * 40"
  have "unat (?b mod pg) \<le> unat ?b" by (simp add: unat_mod)
  then have "unat (?b - ?b mod pg) = unat ?b - unat ?b mod unat pg" by (simp add: unat_sub word_le_nat_alt unat_mod)
  then show ?thesis using unat_offset [OF assms] by (simp add: dirty_from_def minus_mod_eq_div_mult)
qed

lemma unat_page_up:
  assumes "64 + unat c * 40 + unat pg < 2 ^ 64" "0 < unat pg"
  shows "unat ((64 + c * 40 + pg - 1) div pg * pg :: 64 word) = (64 + unat c * 40 + unat pg - 1) div unat pg * unat pg"
proof -
  let ?e = "64 + c * 40"
  have e: "unat ?e = 64 + unat c * 40" using assms(1) by (intro unat_offset) linarith
  have "unat (?e + pg) = unat ?e + unat pg" using assms(1) e by (simp add: unat_word_ariths)
  moreover have "unat (x - 1) = unat x - 1" if "0 < unat x" for x :: "64 word"
    using that by (simp add: unat_sub word_le_nat_alt)
  ultimately have ep: "unat (?e + pg - 1) = unat ?e + unat pg - 1" using assms(2) by (metis add_pos_nonneg add.commute zero_le)
  have "(unat ?e + unat pg - 1) div unat pg * unat pg \<le> unat ?e + unat pg - 1" by simp
  also have "\<dots> < 2 ^ 64" using assms(1) e by linarith
  finally have "(unat ?e + unat pg - 1) div unat pg * unat pg < 2 ^ 64" .
  then have "unat ((?e + pg - 1) div pg) * unat pg < 2 ^ 64" by (simp only: unat_div ep)
  then have "unat ((?e + pg - 1) div pg * pg) = unat ((?e + pg - 1) div pg) * unat pg" by (simp only: unat_word_ariths mod_less len_num0 len_bit0 len_num1) simp
  then show ?thesis by (simp only: unat_div ep e)
qed

text \<open>The calls that were made, as ranges of file offsets.\<close>

definition call_range :: "msync_call \<Rightarrow> nat \<times> nat \<times> nat \<times> ms_flag" where
  "call_range c = (unat (ms_count c), unat (ms_begin c), unat (ms_begin c) + unat (ms_len c), ms_flags c)"

definition flush_ranges :: "nat \<Rightarrow> nat \<Rightarrow> ms_flag \<Rightarrow> nat \<Rightarrow> nat \<Rightarrow> (nat \<times> nat \<times> nat \<times> ms_flag) list" where
  "flush_ranges pg bytes fl s c =
     (if dirty_from pg s < dirty_upto pg bytes c then [(c, dirty_from pg s, dirty_upto pg bytes c, fl)] else []) @
     (if fl = MS_SYNC then [(c, 0, pg, MS_SYNC)] else [])"

lemma byte_durable_ranges:
  "byte_durable j i x \<longleftrightarrow> (\<exists>(c, b, e, fl) \<in> set (map call_range (jr_msync j)). fl = MS_SYNC \<and> i < c \<and> b \<le> x \<and> x < e)"
  by (auto simp: byte_durable_def list_ex_iff call_range_def)

lemma sync_dirty_ranges:
  assumes ok: "journal_ok j" and pg: "0 < unat pg" "unat (jr_map_bytes j) + unat pg < 2 ^ 64"
    and new: "jr_synced_count j \<noteq> journal_count j \<or> fl = MS_SYNC"
  shows "map call_range (jr_msync (sync_dirty pg fl j)) = map call_range (jr_msync j) @
     flush_ranges (unat pg) (unat (jr_map_bytes j)) fl (unat (jr_synced_count j)) (unat (journal_count j))"
proof -
  let ?s = "jr_synced_count j" and ?c = "journal_count j" and ?m = "jr_map_bytes j"
  have le: "unat ?s \<le> unat ?c" "64 + unat ?c * 40 \<le> unat ?m"
    using ok by (auto simp: journal_ok_def word_le_nat_alt)
  define lo where "lo = 64 + ?s * 40 - (64 + ?s * 40) mod pg"
  define hi where "hi = (let e = (64 + ?c * 40 + pg - 1) div pg * pg in if e > ?m then ?m else e)"
  have f: "unat lo = dirty_from (unat pg) (unat ?s)" unfolding lo_def using le pg(2) by (intro unat_dirty_from) linarith
  have "unat ((64 + ?c * 40 + pg - 1) div pg * pg) = (64 + unat ?c * 40 + unat pg - 1) div unat pg * unat pg"
    using le pg by (intro unat_page_up) linarith+
  then have u: "unat hi = dirty_upto (unat pg) (unat ?m) (unat ?c)"
    unfolding hi_def dirty_upto_def Let_def by (simp add: word_less_nat_alt)
  have "sync_dirty pg fl j = (let j = (if hi > lo then msync lo (hi - lo) fl j else j);
      j = (if fl = MS_SYNC then msync 0 pg MS_SYNC j else j) in j\<lparr>jr_synced_count := ?c\<rparr>)"
    using ok new unfolding sync_dirty_def lo_def hi_def Let_def
    by (auto simp: journal_ok_def journal_count_def sizeof_FileHeader_def sizeof_Order_def)
  moreover have "unat (hi - lo) = unat hi - unat lo" if "lo < hi"
    using that by (simp add: unat_sub order_less_imp_le)
  ultimately show ?thesis using f u
    by (auto simp: flush_ranges_def msync_def call_range_def word_less_nat_alt Let_def journal_count_def)
qed

text \<open>
  A synchronous flush makes durable every record that was appended since the flush before it, whatever kind that was.
\<close>

theorem flush_sync_durable:
  assumes "journal_ok j" "0 < unat pg" "unat (jr_map_bytes j) + unat pg < 2 ^ 64"
    "unat (jr_synced_count j) \<le> i" "i < unat (journal_count j)"
  shows "record_durable (flush_sync pg j) i"
proof -
  let ?s = "unat (jr_synced_count j)" and ?c = "unat (journal_count j)" and ?m = "unat (jr_map_bytes j)"
  have m: "64 + ?c * 40 \<le> ?m" using assms(1) by (auto simp: journal_ok_def word_le_nat_alt)
  note r = dirty_range(1) [OF assms(2) m, of ?s] dirty_range(2) [OF assms(2) m]
  have "(?c, dirty_from (unat pg) ?s, dirty_upto (unat pg) ?m ?c, MS_SYNC) \<in> set (flush_ranges (unat pg) ?m MS_SYNC ?s ?c)"
    using dirty_nonempty(2) [OF assms(2) m, of ?s] assms(4,5) by (simp add: flush_ranges_def)
  moreover have "dirty_from (unat pg) ?s \<le> x \<and> x < dirty_upto (unat pg) ?m ?c" if "64 + 40 * i \<le> x" "x < 104 + 40 * i" for x
    using r assms(4,5) that by linarith
  ultimately have "\<exists>(c, b, e, fl) \<in> set (map call_range (jr_msync (flush_sync pg j))). fl = MS_SYNC \<and> i < c \<and> b \<le> x \<and> x < e"
    if "64 + 40 * i \<le> x" "x < 104 + 40 * i" for x
    using that assms(5) unfolding flush_sync_def sync_dirty_ranges [OF assms(1-3) disjI2 [OF refl]] by fastforce
  then show ?thesis by (simp add: record_durable_def list_all_iff byte_durable_ranges del: set_map)
qed

theorem flush_sync_durable_witness:
  "\<exists>j. append_all [zero_order, zero_order] (fresh_wal 4) = Inr j \<and> record_durable (flush_sync 4096 j) 1"
proof -
  obtain j where j: "append_all [zero_order, zero_order] (fresh_wal 4) = Inr j"
    using append_all_fits [OF fresh_wal_ok, of 4 "[zero_order, zero_order]"] by auto
  note r = append_all_result [OF fresh_wal_ok, of 4 "[zero_order, zero_order]", unfolded j]
  have "unat (jr_map_bytes j) = 224" using r by (simp add: fresh_wal_def)
  moreover have "jr_synced_count j = 0" using j by (auto simp: fresh_wal_def journal_append_def split: sum.splits if_splits)
  ultimately show ?thesis using flush_sync_durable [of j 4096 1] j r by auto
qed

end
