(* ===== verification/Pin_Node.thy ===== *)
theory Pin_Node
  imports Domain_Types
begin

text \<open>
  The Priority-Indicated Node, \<^verbatim>\<open>include/titan/book/pin_node.hpp\<close>: 64 order slots, a 64-bit
  occupancy mask that finds the lowest free slot, and an arrival chain threaded through the
  occupied slots so that time order does not depend on slot numbers. The fixed-size arrays are
  functions of the slot number. The record keeps the source's fields; \<open>next_node\<close> and
  \<open>prev_node\<close> are its \<^verbatim>\<open>next\<close> and \<^verbatim>\<open>prev\<close>.

  What is shown: \<open>pin_ok\<close> (the chain threads exactly the occupied slots, once each) is kept by
  every operation; \<open>insert\<close> appends to the queue of orders, \<open>remove\<close> deletes one order
  and keeps the order of the others; the mask's population count is the length of the queue.
\<close>

section \<open>The node and its operations\<close>

record PIN_Node =
  occupancy_mask :: "64 word"
  head_slot :: nat
  tail_slot :: nat
  next_node :: nat
  prev_node :: nat
  next_in_time :: "nat \<Rightarrow> nat"
  prev_in_time :: "nat \<Rightarrow> nat"
  slots :: "nat \<Rightarrow> Order"

definition CAPACITY :: nat where
  "CAPACITY = 64"

definition NIL_SLOT :: nat where
  "NIL_SLOT = 0xFF"

definition ctzll :: "64 word \<Rightarrow> nat" where
  "ctzll w = length (takeWhile (\<lambda>i. \<not> bit w i) [0..<64])"

definition popcountll :: "64 word \<Rightarrow> nat" where
  "popcountll w = length (filter (bit w) [0..<64])"

definition pin_reset :: "PIN_Node \<Rightarrow> PIN_Node" where
  "pin_reset n = n\<lparr>occupancy_mask := 0, head_slot := NIL_SLOT, tail_slot := NIL_SLOT,
     next_node := INVALID_INDEX, prev_node := INVALID_INDEX\<rparr>"

definition pin_full :: "PIN_Node \<Rightarrow> bool" where
  "pin_full n \<longleftrightarrow> occupancy_mask n = NOT 0"

definition pin_empty :: "PIN_Node \<Rightarrow> bool" where
  "pin_empty n \<longleftrightarrow> occupancy_mask n = 0"

definition pin_count :: "PIN_Node \<Rightarrow> nat" where
  "pin_count n = popcountll (occupancy_mask n)"

definition pin_insert :: "PIN_Node \<Rightarrow> Order \<Rightarrow> nat \<times> PIN_Node" where
  "pin_insert n o' =
     (let free = NOT (occupancy_mask n) in
      if free = 0 then (INVALID_INDEX, n)
      else
        let s = ctzll free;
            n1 = n\<lparr>slots := (slots n)(s := o'),
                   occupancy_mask := occupancy_mask n OR push_bit s 1,
                   next_in_time := (next_in_time n)(s := NIL_SLOT),
                   prev_in_time := (prev_in_time n)(s := tail_slot n)\<rparr>;
            n2 = (if tail_slot n = NIL_SLOT then n1\<lparr>head_slot := s\<rparr>
                  else n1\<lparr>next_in_time := (next_in_time n1)(tail_slot n := s)\<rparr>)
        in (s, n2\<lparr>tail_slot := s\<rparr>))"

definition pin_remove :: "PIN_Node \<Rightarrow> nat \<Rightarrow> bool \<times> PIN_Node" where
  "pin_remove n slot =
     (if slot \<ge> CAPACITY then (False, n)
      else if occupancy_mask n AND push_bit slot 1 = 0 then (False, n)
      else
        let n1 = n\<lparr>occupancy_mask := occupancy_mask n AND NOT (push_bit slot 1)\<rparr>;
            p = prev_in_time n1 slot;
            q = next_in_time n1 slot;
            n2 = (if p \<noteq> NIL_SLOT then n1\<lparr>next_in_time := (next_in_time n1)(p := q)\<rparr>
                  else n1\<lparr>head_slot := q\<rparr>);
            n3 = (if q \<noteq> NIL_SLOT then n2\<lparr>prev_in_time := (prev_in_time n2)(q := p)\<rparr>
                  else n2\<lparr>tail_slot := p\<rparr>)
        in (True, n3))"

definition pin_at :: "PIN_Node \<Rightarrow> nat \<Rightarrow> Order option" where
  "pin_at n slot =
     (if slot \<ge> CAPACITY then None
      else if occupancy_mask n AND push_bit slot 1 = 0 then None
      else Some (slots n slot))"

section \<open>The queue of a node\<close>

text \<open>
  The slots in arrival order, read off the chain, and the orders in them. \<open>pin_rep n ss\<close> says
  that the chain of \<open>n\<close> is \<open>ss\<close>.
\<close>

definition fifo :: "PIN_Node \<Rightarrow> nat list" where
  "fifo n = walk (pin_count n) (next_in_time n) (head_slot n)"

definition node_orders :: "PIN_Node \<Rightarrow> Order list" where
  "node_orders n = map (slots n) (fifo n)"

definition pin_rep :: "PIN_Node \<Rightarrow> nat list \<Rightarrow> bool" where
  "pin_rep n ss \<longleftrightarrow>
     dll NIL_SLOT (next_in_time n) (prev_in_time n) (head_slot n) (tail_slot n) ss \<and>
     (\<forall>i. i \<in> set ss \<longleftrightarrow> i < CAPACITY \<and> bit (occupancy_mask n) i)"

definition pin_ok :: "PIN_Node \<Rightarrow> bool" where
  "pin_ok n \<longleftrightarrow> pin_rep n (fifo n)"

lemma pin_rep_mem: "pin_rep n ss \<Longrightarrow> i \<in> set ss \<longleftrightarrow> i < CAPACITY \<and> bit (occupancy_mask n) i"
  by (simp add: pin_rep_def)

lemma pin_rep_test:
  "pin_rep n ss \<Longrightarrow> i < CAPACITY \<Longrightarrow> occupancy_mask n AND push_bit i 1 = 0 \<longleftrightarrow> i \<notin> set ss"
  using mask_test_bit [of "occupancy_mask n" i] by (simp add: pin_rep_mem CAPACITY_def)

lemma pin_rep_count: "pin_rep n ss \<Longrightarrow> pin_count n = length ss"
proof -
  assume r: "pin_rep n ss"
  then have "set ss = set (filter (bit (occupancy_mask n)) [0..<64])" and "distinct ss"
    by (auto simp: pin_rep_def CAPACITY_def dll_def)
  then have "length (filter (bit (occupancy_mask n)) [0..<64]) = length ss"
    by (metis distinct_card distinct_filter distinct_upt)
  then show ?thesis by (simp add: pin_count_def popcountll_def)
qed

lemma pin_rep_fifo: "pin_rep n ss \<Longrightarrow> fifo n = ss"
  using dll_walk pin_rep_count [of n ss] by (fastforce simp: pin_rep_def fifo_def)

lemma pin_rep_iff: "pin_rep n ss \<longleftrightarrow> pin_ok n \<and> ss = fifo n"
  using pin_rep_fifo by (auto simp: pin_ok_def)

lemma pin_rep_bound: "pin_rep n ss \<Longrightarrow> s \<in> set ss \<Longrightarrow> s < CAPACITY \<and> s \<noteq> NIL_SLOT"
  by (auto simp: pin_rep_def CAPACITY_def NIL_SLOT_def)

lemma pin_rep_length: "pin_rep n ss \<Longrightarrow> length ss \<le> CAPACITY"
proof -
  assume r: "pin_rep n ss"
  then have "set ss \<subseteq> {..<CAPACITY}" "distinct ss" by (auto simp: pin_rep_def dll_def)
  then show ?thesis using card_mono [of "{..<CAPACITY}" "set ss"] by (simp add: distinct_card)
qed

lemma length_fifo: "length (fifo n) = pin_count n"
  by (simp add: fifo_def)

lemma length_node_orders: "length (node_orders n) = pin_count n"
  by (simp add: node_orders_def length_fifo)

lemma pin_count_le: "pin_count n \<le> CAPACITY"
  using length_filter_le [of "bit (occupancy_mask n)" "[0..<64]"]
  by (simp add: pin_count_def popcountll_def CAPACITY_def)

lemma pin_empty_iff: "pin_rep n ss \<Longrightarrow> pin_empty n \<longleftrightarrow> ss = []"
proof -
  assume r: "pin_rep n ss"
  have "pin_empty n \<longleftrightarrow> (\<forall>i. i \<notin> set ss)"
    unfolding pin_empty_def mask_eq_0 by (simp add: pin_rep_mem [OF r] CAPACITY_def)
  then show ?thesis by (cases ss) auto
qed

lemma pin_full_iff: "pin_rep n ss \<Longrightarrow> pin_full n \<longleftrightarrow> length ss = CAPACITY"
proof -
  assume r: "pin_rep n ss"
  have "pin_full n \<longleftrightarrow> NOT (occupancy_mask n) = 0"
    unfolding pin_full_def by (metis bit.double_compl)
  also have "\<dots> \<longleftrightarrow> set ss = {..<64}"
    using r by (auto simp: mask_full pin_rep_def CAPACITY_def)
  also have "\<dots> \<longleftrightarrow> length ss = CAPACITY"
  proof
    assume "set ss = {..<64}"
    then show "length ss = CAPACITY" using r
      by (metis CAPACITY_def card_lessThan distinct_card dll_distinct pin_rep_def)
  next
    assume "length ss = CAPACITY"
    moreover have "set ss \<subseteq> {..<64}" "card (set ss) = length ss"
      using r by (auto simp: pin_rep_def CAPACITY_def distinct_card dll_def)
    ultimately show "set ss = {..<64}" by (intro card_subset_eq) (auto simp: CAPACITY_def)
  qed
  finally show ?thesis .
qed

section \<open>Reset\<close>

lemma pin_rep_reset: "pin_rep (pin_reset n) []"
  by (simp add: pin_rep_def pin_reset_def)

lemma pin_reset_simps [simp]:
  "next_node (pin_reset n) = INVALID_INDEX" "prev_node (pin_reset n) = INVALID_INDEX"
  "slots (pin_reset n) = slots n"
  by (simp_all add: pin_reset_def)

lemma pin_ok_reset [simp]: "pin_ok (pin_reset n)" "node_orders (pin_reset n) = []"
  using pin_rep_reset [of n] by (auto simp: pin_rep_iff node_orders_def)

section \<open>Insert\<close>

lemma ctzll_free:
  assumes "NOT w \<noteq> 0"
  shows "ctzll (NOT w) < 64" "\<not> bit w (ctzll (NOT w))" "\<forall>i < ctzll (NOT w). bit w i"
proof -
  let ?P = "\<lambda>i. \<not> bit (NOT w) i" and ?xs = "[0..<64]"
  have "\<exists>i < 64. \<not> bit w i" using assms by (simp add: mask_full)
  then obtain i where i: "i < 64" "bit (NOT w) i" by (auto simp: bit_simps)
  then have "length (takeWhile ?P ?xs) < length ?xs"
    by (metis atLeastLessThan_iff length_takeWhile_le nat_less_le set_upt takeWhile_eq_all_conv
        takeWhile_eq_take take_all_iff zero_le order_refl)
  then show lt: "ctzll (NOT w) < 64" by (simp add: ctzll_def)
  then have "bit (NOT w) (?xs ! ctzll (NOT w))"
    unfolding ctzll_def using nth_length_takeWhile [of ?P ?xs] by simp
  then show "\<not> bit w (ctzll (NOT w))" using lt by (simp add: bit_simps)
  show "\<forall>i < ctzll (NOT w). bit w i"
  proof (intro allI impI)
    fix i assume "i < ctzll (NOT w)"
    then have "?P (?xs ! i)"
      using nth_mem [of i "takeWhile ?P ?xs"] set_takeWhileD [of "takeWhile ?P ?xs ! i" ?P ?xs]
      by (simp add: ctzll_def takeWhile_nth)
    then show "bit w i" using \<open>i < ctzll (NOT w)\<close> lt by (simp add: bit_simps)
  qed
qed

lemma pin_insert_full: "pin_full n \<Longrightarrow> pin_insert n o' = (INVALID_INDEX, n)"
  by (simp add: pin_insert_def pin_full_def)

lemma pin_insert_rep:
  assumes r: "pin_rep n ss" and nf: "\<not> pin_full n" and ins: "pin_insert n o' = (s, n')"
  shows "pin_rep n' (ss @ [s])" "s < CAPACITY" "s \<notin> set ss"
    "slots n' = (slots n)(s := o')" "next_node n' = next_node n" "prev_node n' = prev_node n"
    "\<forall>i < s. i \<in> set ss"
proof -
  let ?m = "occupancy_mask n"
  have free: "NOT ?m \<noteq> 0" using nf unfolding pin_full_def by (metis bit.double_compl)
  note ctz = ctzll_free [OF free]
  have s: "s = ctzll (NOT ?m)" using ins free by (auto simp: pin_insert_def Let_def)
  show lt: "s < CAPACITY" using ctz(1) s by (simp add: CAPACITY_def)
  show nin: "s \<notin> set ss" using r ctz(2) s by (simp add: pin_rep_def)
  show "\<forall>i < s. i \<in> set ss" using r ctz(3) s lt by (auto simp: pin_rep_def)
  have t: "tail_slot n = final NIL_SLOT ss" "head_slot n = first NIL_SLOT ss"
    and ch: "chain (next_in_time n) (prev_in_time n) NIL_SLOT ss NIL_SLOT"
    and d: "distinct ss" "NIL_SLOT \<notin> set ss"
    using r by (auto simp: pin_rep_def dll_def)
  have e: "tail_slot n = NIL_SLOT \<longleftrightarrow> ss = []" using t d by (simp add: final_eq_sentinel)
  have n': "n' = n\<lparr>slots := (slots n)(s := o'), occupancy_mask := ?m OR push_bit s 1,
      head_slot := (if ss = [] then s else head_slot n), tail_slot := s,
      next_in_time := (if ss = [] then (next_in_time n)(s := NIL_SLOT)
        else ((next_in_time n)(s := NIL_SLOT))(tail_slot n := s)),
      prev_in_time := (prev_in_time n)(s := tail_slot n)\<rparr>"
    using ins free s e by (auto simp: pin_insert_def Let_def)
  then show "slots n' = (slots n)(s := o')" "next_node n' = next_node n"
    "prev_node n' = prev_node n" by simp_all
  have tn: "tail_slot n \<noteq> s" if "ss \<noteq> []" using t(1) nin final_in_set [OF that] by metis
  have "chain (next_in_time n') (prev_in_time n') NIL_SLOT (ss @ s # []) NIL_SLOT"
    by (rule chain_insert [where nx = "next_in_time n" and pv = "prev_in_time n"])
      (use ch d nin t tn in \<open>auto simp: n'\<close>)
  moreover have "first NIL_SLOT (ss @ [s]) = head_slot n'"
    using t by (cases ss) (auto simp: n')
  moreover have "s \<noteq> NIL_SLOT" using lt by (simp add: CAPACITY_def NIL_SLOT_def)
  moreover have "i \<in> set (ss @ [s]) \<longleftrightarrow> i < CAPACITY \<and> bit (occupancy_mask n') i" for i
    using pin_rep_mem [OF r, of i] lt by (auto simp: n' bit_set_mask CAPACITY_def)
  ultimately show "pin_rep n' (ss @ [s])"
    using d nin by (auto simp: pin_rep_def dll_def n')
qed

section \<open>Remove\<close>

lemma pin_remove_absent:
  "pin_rep n ss \<Longrightarrow> s \<notin> set ss \<Longrightarrow> pin_remove n s = (False, n)"
  using pin_rep_test [of n ss s] by (simp add: pin_remove_def)

lemma pin_remove_rep:
  assumes r: "pin_rep n (xs @ s # ys)" and rem: "pin_remove n s = (ok, n')"
  shows "ok" "pin_rep n' (xs @ ys)" "slots n' = slots n"
    "next_node n' = next_node n" "prev_node n' = prev_node n"
proof -
  let ?m = "occupancy_mask n"
  have ch: "chain (next_in_time n) (prev_in_time n) NIL_SLOT (xs @ s # ys) NIL_SLOT"
    and d: "distinct (xs @ s # ys)" and nn: "NIL_SLOT \<notin> set (xs @ s # ys)"
    and ht: "head_slot n = first NIL_SLOT (xs @ s # ys)" "tail_slot n = final NIL_SLOT (xs @ s # ys)"
    using r by (auto simp: pin_rep_def dll_def)
  have s: "s < CAPACITY" "?m AND push_bit s 1 \<noteq> 0"
    using pin_rep_mem [OF r, of s] pin_rep_test [OF r, of s] by simp_all
  have p: "prev_in_time n s = final NIL_SLOT xs" and q: "next_in_time n s = first NIL_SLOT ys"
    using chain_next [OF ch] by auto
  have pe: "final NIL_SLOT xs = NIL_SLOT \<longleftrightarrow> xs = []" and qe: "first NIL_SLOT ys = NIL_SLOT \<longleftrightarrow> ys = []"
    using nn by (simp_all add: final_eq_sentinel first_eq_sentinel)
  have eq: "ok" "n' = n\<lparr>occupancy_mask := ?m AND NOT (push_bit s 1),
      head_slot := (if xs = [] then first NIL_SLOT ys else head_slot n),
      tail_slot := (if ys = [] then final NIL_SLOT xs else tail_slot n),
      next_in_time := (if xs = [] then next_in_time n
        else (next_in_time n)(final NIL_SLOT xs := first NIL_SLOT ys)),
      prev_in_time := (if ys = [] then prev_in_time n
        else (prev_in_time n)(first NIL_SLOT ys := final NIL_SLOT xs))\<rparr>"
    using rem s by (auto simp: pin_remove_def Let_def p q pe qe)
  then show ok "slots n' = slots n" "next_node n' = next_node n" "prev_node n' = prev_node n"
    by simp_all
  have "chain (next_in_time n') (prev_in_time n') NIL_SLOT (xs @ ys) NIL_SLOT"
    by (rule chain_remove [OF ch d]) (auto simp: eq(2))
  moreover have "head_slot n' = first NIL_SLOT (xs @ ys)"
    using ht by (cases xs) (auto simp: eq(2))
  moreover have "tail_slot n' = final NIL_SLOT (xs @ ys)"
    using ht by (cases ys) (auto simp: eq(2))
  moreover have "i \<in> set (xs @ ys) \<longleftrightarrow> i < CAPACITY \<and> bit (occupancy_mask n') i" for i
    using pin_rep_mem [OF r, of i] d s by (auto simp: eq(2) bit_clear_mask CAPACITY_def)
  ultimately show "pin_rep n' (xs @ ys)" using d nn by (auto simp: pin_rep_def dll_def)
qed

section \<open>Access\<close>

lemma pin_at_iff:
  "pin_rep n ss \<Longrightarrow> pin_at n s = (if s \<in> set ss then Some (slots n s) else None)"
  using pin_rep_test [of n ss s] pin_rep_mem [of n ss s] by (auto simp: pin_at_def)

section \<open>The node as a bounded queue\<close>

text \<open>
  While a node has a free slot, \<open>insert\<close> puts the order at the end of the node's arrival
  queue, in a slot that was free, and keeps the node well formed and linked as it was. This
  holds whatever slots earlier removals have freed: time priority does not depend on slot numbers.
\<close>

theorem pin_insert_appends:
  assumes "pin_ok n" "\<not> pin_full n" "pin_insert n o' = (s, n')"
  shows "pin_ok n' \<and> node_orders n' = node_orders n @ [o'] \<and> pin_count n' = pin_count n + 1 \<and>
    s < CAPACITY \<and> pin_at n s = None \<and> pin_at n' s = Some o' \<and>
    next_node n' = next_node n \<and> prev_node n' = prev_node n"
proof -
  have r: "pin_rep n (fifo n)" using assms(1) by (simp add: pin_ok_def)
  note ins = pin_insert_rep [OF r assms(2,3)]
  have f: "fifo n' = fifo n @ [s]" using ins(1) pin_rep_fifo by simp
  have "node_orders n' = node_orders n @ [o']" using ins(3,4) by (simp add: node_orders_def f)
  moreover have "pin_at n s = None" "pin_at n' s = Some o'"
    using ins pin_at_iff [OF r, of s] pin_at_iff [OF ins(1), of s] by simp_all
  moreover have "pin_count n' = pin_count n + 1" using f length_fifo by (metis length_append_singleton Suc_eq_plus1)
  ultimately show ?thesis using ins f by (simp add: pin_ok_def)
qed

text \<open>
  \<open>remove\<close> takes the order of an occupied slot out of the queue and leaves the others in
  their order, wherever in the queue the slot is; a free slot or one out of range is refused and
  nothing changes.
\<close>

theorem pin_remove_deletes:
  assumes "pin_ok n" "pin_remove n s = (ok, n')"
  shows "pin_ok n' \<and> ok = (pin_at n s \<noteq> None) \<and> fifo n' = remove1 s (fifo n) \<and> slots n' = slots n \<and>
    (\<not> ok \<longrightarrow> n' = n) \<and> next_node n' = next_node n \<and> prev_node n' = prev_node n"
proof -
  have r: "pin_rep n (fifo n)" using assms(1) by (simp add: pin_ok_def)
  show ?thesis
  proof (cases "s \<in> set (fifo n)")
    case True
    then obtain xs ys where f: "fifo n = xs @ s # ys" and s: "s \<notin> set xs" by (meson split_list_first)
    note rem = pin_remove_rep [OF r [unfolded f] assms(2)]
    have "fifo n' = remove1 s (fifo n)" using pin_rep_fifo [OF rem(2)] f s by (simp add: remove1_append)
    then show ?thesis using rem f True pin_at_iff [OF r, of s] pin_rep_iff by simp
  next
    case False
    then show ?thesis
      using pin_remove_absent [OF r False] assms pin_at_iff [OF r, of s] by (simp add: remove1_idem)
  qed
qed

text \<open>The node that \<^verbatim>\<open>alloc_node\<close> hands out, and an order to put in it.\<close>

definition sample_node :: PIN_Node where
  "sample_node = pin_reset \<lparr>occupancy_mask = 5, head_slot = 3, tail_slot = 9, next_node = 1, prev_node = 2,
     next_in_time = (\<lambda>_. 0), prev_in_time = (\<lambda>_. 0),
     slots = (\<lambda>_. \<lparr>o_id = 0, o_seq = 0, o_price = 0, o_quantity = 0, o_remaining = 0, o_side = BUY, o_type = LIMIT\<rparr>)\<rparr>"

definition sample_order :: Order where
  "sample_order = \<lparr>o_id = 7, o_seq = 1, o_price = 100, o_quantity = 10, o_remaining = 10,
     o_side = BUY, o_type = LIMIT\<rparr>"

lemma sample_node_ok: "pin_ok sample_node" "\<not> pin_full sample_node" "node_orders sample_node = []"
  by (simp_all add: sample_node_def) (simp add: pin_full_def pin_reset_def)

theorem pin_insert_appends_witness:
  "\<not> pin_full sample_node \<and> pin_ok (snd (pin_insert sample_node sample_order)) \<and>
   node_orders (snd (pin_insert sample_node sample_order)) = [sample_order]"
  using pin_insert_appends [OF sample_node_ok(1,2), of sample_order "fst (pin_insert sample_node sample_order)"
      "snd (pin_insert sample_node sample_order)"] sample_node_ok by simp

theorem pin_remove_deletes_witness:
  "fst (pin_remove (snd (pin_insert sample_node sample_order)) 0) \<and>
   fifo (snd (pin_remove (snd (pin_insert sample_node sample_order)) 0)) = []"
proof -
  let ?n = "snd (pin_insert sample_node sample_order)"
  have "pin_ok ?n" using pin_insert_rep(1) [of sample_node "fifo sample_node"] sample_node_ok
    by (metis pin_ok_def pin_rep_iff prod.collapse)
  moreover have "pin_at ?n 0 \<noteq> None" "fifo ?n = [0]" by code_simp+
  ultimately show ?thesis
    using pin_remove_deletes [of ?n 0 "fst (pin_remove ?n 0)" "snd (pin_remove ?n 0)"] by simp
qed

end
