(* ===== verification/Rb_Price_Index.thy ===== *)
theory Rb_Price_Index
  imports Domain_Types
begin

text \<open>
  The price index, \<^verbatim>\<open>include/titan/book/rb_price_index.hpp\<close>: a pooled red-black tree of price
  levels with parent links, a sentinel at index 0 and a neighbour list threaded in key order.

  The pool \<^verbatim>\<open>nodes_\<close> is split by field: \<open>n_left t x\<close> is \<^verbatim>\<open>N(x).left\<close>, and the statement
  \<^verbatim>\<open>N(x).left = v\<close> is \<open>set_left x v t\<close>. The node
  indices \<open>1 \<dots> rb_capacity t\<close> are the pool, index 0 is the sentinel \<open>NIL\<close>. The free list is a
  stack whose top (the vector's back) is the head of the list. The template parameter
  \<^verbatim>\<open>Compare\<close> is the argument \<open>prec\<close> of the operations that search.

  This theory holds the operations only, each written statement by statement. The loops are
  \<open>while\<close> loops over the index and the loop's variables. That they end is part of
  the correctness theorems of the theories \<^verbatim>\<open>Rb_Insert\<close> and \<^verbatim>\<open>Rb_Erase\<close>.
\<close>

section \<open>State\<close>

datatype Color = RED | BLACK

record RBPriceIndex =
  n_key :: "nat \<Rightarrow> PriceTick"
  n_val :: "nat \<Rightarrow> PriceLevel"
  n_left :: "nat \<Rightarrow> nat"
  n_right :: "nat \<Rightarrow> nat"
  n_parent :: "nat \<Rightarrow> nat"
  n_pred :: "nat \<Rightarrow> nat"
  n_succ :: "nat \<Rightarrow> nat"
  n_color :: "nat \<Rightarrow> Color"
  rb_capacity :: nat
  rb_free :: "nat list"
  rb_root :: nat
  rb_begin :: nat
  rb_size :: nat

abbreviation NIL :: nat where
  "NIL \<equiv> 0"

abbreviation set_key :: "nat \<Rightarrow> PriceTick \<Rightarrow> RBPriceIndex \<Rightarrow> RBPriceIndex" where
  "set_key x v \<equiv> n_key_update (\<lambda>f. f(x := v))"

abbreviation set_val :: "nat \<Rightarrow> PriceLevel \<Rightarrow> RBPriceIndex \<Rightarrow> RBPriceIndex" where
  "set_val x v \<equiv> n_val_update (\<lambda>f. f(x := v))"

abbreviation set_left :: "nat \<Rightarrow> nat \<Rightarrow> RBPriceIndex \<Rightarrow> RBPriceIndex" where
  "set_left x v \<equiv> n_left_update (\<lambda>f. f(x := v))"

abbreviation set_right :: "nat \<Rightarrow> nat \<Rightarrow> RBPriceIndex \<Rightarrow> RBPriceIndex" where
  "set_right x v \<equiv> n_right_update (\<lambda>f. f(x := v))"

abbreviation set_parent :: "nat \<Rightarrow> nat \<Rightarrow> RBPriceIndex \<Rightarrow> RBPriceIndex" where
  "set_parent x v \<equiv> n_parent_update (\<lambda>f. f(x := v))"

abbreviation set_pred :: "nat \<Rightarrow> nat \<Rightarrow> RBPriceIndex \<Rightarrow> RBPriceIndex" where
  "set_pred x v \<equiv> n_pred_update (\<lambda>f. f(x := v))"

abbreviation set_succ :: "nat \<Rightarrow> nat \<Rightarrow> RBPriceIndex \<Rightarrow> RBPriceIndex" where
  "set_succ x v \<equiv> n_succ_update (\<lambda>f. f(x := v))"

abbreviation set_color :: "nat \<Rightarrow> Color \<Rightarrow> RBPriceIndex \<Rightarrow> RBPriceIndex" where
  "set_color x v \<equiv> n_color_update (\<lambda>f. f(x := v))"

definition rb_init :: "nat \<Rightarrow> RBPriceIndex" where
  "rb_init capacity = \<lparr>n_key = (\<lambda>_. 0), n_val = (\<lambda>_. PriceLevel_init), n_left = (\<lambda>_. NIL),
     n_right = (\<lambda>_. NIL), n_parent = (\<lambda>_. NIL), n_pred = (\<lambda>_. NIL), n_succ = (\<lambda>_. NIL),
     n_color = (\<lambda>_. BLACK), rb_capacity = capacity, rb_free = [1..<Suc capacity],
     rb_root = NIL, rb_begin = NIL, rb_size = 0\<rparr>"

section \<open>Pool\<close>

datatype rb_error = Bad_alloc

definition rb_alloc :: "RBPriceIndex \<Rightarrow> rb_error + (nat \<times> RBPriceIndex)" where
  "rb_alloc t =
     (case rb_free t of
        [] \<Rightarrow> Inl Bad_alloc
      | i # free \<Rightarrow>
          Inr (i, set_color i BLACK (set_succ i NIL (set_pred i NIL (set_parent i NIL
            (set_right i NIL (set_left i NIL (set_val i PriceLevel_init (set_key i 0
            (t\<lparr>rb_free := free\<rparr>))))))))))"

definition rb_release :: "nat \<Rightarrow> RBPriceIndex \<Rightarrow> RBPriceIndex" where
  "rb_release i t = t\<lparr>rb_free := i # rb_free t\<rparr>"

section \<open>Rotations\<close>

text \<open>
  Two compound statements that recur in the source: a child, unless it is the sentinel, gets a
  new parent; and the link that leads from the parent of \<open>x\<close> (or from the root) to \<open>x\<close> is
  redirected to \<open>y\<close>. Which of the two child links is tested first differs between
  \<^verbatim>\<open>rotate_left\<close> and \<^verbatim>\<open>transplant\<close> on the one hand and \<^verbatim>\<open>rotate_right\<close> on the other.
\<close>

definition adopt :: "nat \<Rightarrow> nat \<Rightarrow> RBPriceIndex \<Rightarrow> RBPriceIndex" where
  "adopt child x t = (if child \<noteq> NIL then set_parent child x t else t)"

definition relink_left :: "nat \<Rightarrow> nat \<Rightarrow> RBPriceIndex \<Rightarrow> RBPriceIndex" where
  "relink_left x y t =
     (if n_parent t x = NIL then t\<lparr>rb_root := y\<rparr>
      else if x = n_left t (n_parent t x) then set_left (n_parent t x) y t
      else set_right (n_parent t x) y t)"

definition relink_right :: "nat \<Rightarrow> nat \<Rightarrow> RBPriceIndex \<Rightarrow> RBPriceIndex" where
  "relink_right x y t =
     (if n_parent t x = NIL then t\<lparr>rb_root := y\<rparr>
      else if x = n_right t (n_parent t x) then set_right (n_parent t x) y t
      else set_left (n_parent t x) y t)"

definition rotate_left :: "nat \<Rightarrow> RBPriceIndex \<Rightarrow> RBPriceIndex" where
  "rotate_left x t =
     (let y = n_right t x;
          t = set_right x (n_left t y) t;
          t = adopt (n_left t y) x t;
          t = set_parent y (n_parent t x) t;
          t = relink_left x y t;
          t = set_left y x t
      in set_parent x y t)"

definition rotate_right :: "nat \<Rightarrow> RBPriceIndex \<Rightarrow> RBPriceIndex" where
  "rotate_right x t =
     (let y = n_left t x;
          t = set_left x (n_right t y) t;
          t = adopt (n_right t y) x t;
          t = set_parent y (n_parent t x) t;
          t = relink_right x y t;
          t = set_right y x t
      in set_parent x y t)"

section \<open>Insert fixup\<close>

lemma adopt_simps [simp]:
  "n_left (adopt c p t) = n_left t" "n_right (adopt c p t) = n_right t"
  "n_parent (adopt c p t) = (if c \<noteq> NIL then (n_parent t)(c := p) else n_parent t)"
  "n_color (adopt c p t) = n_color t" "n_key (adopt c p t) = n_key t"
  "n_val (adopt c p t) = n_val t" "n_pred (adopt c p t) = n_pred t"
  "n_succ (adopt c p t) = n_succ t" "rb_root (adopt c p t) = rb_root t"
  "rb_begin (adopt c p t) = rb_begin t" "rb_size (adopt c p t) = rb_size t"
  "rb_free (adopt c p t) = rb_free t" "rb_capacity (adopt c p t) = rb_capacity t"
  "adopt c p (n_color_update g t) = n_color_update g (adopt c p t)"
  by (simp_all add: adopt_def)

lemma relink_left_simps [simp]:
  "n_left (relink_left x y t) =
     (if n_parent t x \<noteq> NIL \<and> x = n_left t (n_parent t x) then (n_left t)(n_parent t x := y)
      else n_left t)"
  "n_right (relink_left x y t) =
     (if n_parent t x \<noteq> NIL \<and> x \<noteq> n_left t (n_parent t x) then (n_right t)(n_parent t x := y)
      else n_right t)"
  "n_parent (relink_left x y t) = n_parent t" "n_color (relink_left x y t) = n_color t"
  "n_key (relink_left x y t) = n_key t" "n_val (relink_left x y t) = n_val t"
  "n_pred (relink_left x y t) = n_pred t" "n_succ (relink_left x y t) = n_succ t"
  "rb_root (relink_left x y t) = (if n_parent t x = NIL then y else rb_root t)"
  "rb_begin (relink_left x y t) = rb_begin t" "rb_size (relink_left x y t) = rb_size t"
  "rb_free (relink_left x y t) = rb_free t" "rb_capacity (relink_left x y t) = rb_capacity t"
  "relink_left x y (n_color_update g t) = n_color_update g (relink_left x y t)"
  by (simp_all add: relink_left_def)

lemma relink_right_simps [simp]:
  "n_color (relink_right x y t) = n_color t"
  "n_key (relink_right x y t) = n_key t" "n_val (relink_right x y t) = n_val t"
  "n_pred (relink_right x y t) = n_pred t" "n_succ (relink_right x y t) = n_succ t"
  "n_parent (relink_right x y t) = n_parent t"
  "rb_begin (relink_right x y t) = rb_begin t" "rb_size (relink_right x y t) = rb_size t"
  "rb_free (relink_right x y t) = rb_free t" "rb_capacity (relink_right x y t) = rb_capacity t"
  "relink_right x y (n_color_update g t) = n_color_update g (relink_right x y t)"
  by (simp_all add: relink_right_def)

text \<open>One iteration of the loop in \<^verbatim>\<open>insert_fixup\<close>: the index and the loop variable \<open>z\<close>.\<close>

definition insert_fixup_step :: "RBPriceIndex \<times> nat \<Rightarrow> RBPriceIndex \<times> nat" where
  "insert_fixup_step = (\<lambda>(t, z).
     let p = n_parent t z; gp = n_parent t p in
     if p = n_left t gp then
       let u = n_right t gp in
       if n_color t u = RED then
         (set_color gp RED (set_color u BLACK (set_color p BLACK t)), gp)
       else
         let (t, z) = (if z = n_right t p then (rotate_left p t, p) else (t, z));
             t = set_color (n_parent t z) BLACK t;
             t = set_color (n_parent t (n_parent t z)) RED t
         in (rotate_right (n_parent t (n_parent t z)) t, z)
     else
       let u = n_left t gp in
       if n_color t u = RED then
         (set_color gp RED (set_color u BLACK (set_color p BLACK t)), gp)
       else
         let (t, z) = (if z = n_left t p then (rotate_right p t, p) else (t, z));
             t = set_color (n_parent t z) BLACK t;
             t = set_color (n_parent t (n_parent t z)) RED t
         in (rotate_left (n_parent t (n_parent t z)) t, z))"

definition insert_fixup :: "nat \<Rightarrow> RBPriceIndex \<Rightarrow> RBPriceIndex" where
  "insert_fixup z t =
     (let t = fst (while (\<lambda>(t, z). n_color t (n_parent t z) = RED) insert_fixup_step (t, z))
      in set_color (rb_root t) BLACK t)"

section \<open>Delete fixup\<close>

definition transplant :: "nat \<Rightarrow> nat \<Rightarrow> RBPriceIndex \<Rightarrow> RBPriceIndex" where
  "transplant u v t =
     (let t = relink_left u v t in set_parent v (n_parent t u) t)"

text \<open>
  One iteration of the loop in \<^verbatim>\<open>delete_fixup\<close>. The first branch (\<open>x\<close> a left child) in three
  parts: a red sibling is rotated away, then either the loop moves up or it ends with
  the final rotation; the second branch is its mirror image.
\<close>

definition df_red_sibling_left :: "nat \<Rightarrow> RBPriceIndex \<Rightarrow> RBPriceIndex \<times> nat" where
  "df_red_sibling_left x t =
     (let w = n_right t (n_parent t x) in
      if n_color t w = RED then
        let t = set_color w BLACK t;
            t = set_color (n_parent t x) RED t;
            t = rotate_left (n_parent t x) t
        in (t, n_right t (n_parent t x))
      else (t, w))"

definition df_finish_left :: "nat \<Rightarrow> nat \<Rightarrow> RBPriceIndex \<Rightarrow> RBPriceIndex \<times> nat" where
  "df_finish_left x w t =
     (let (t, w) = (if n_color t (n_right t w) = BLACK then
                      let t = set_color (n_left t w) BLACK t;
                          t = set_color w RED t;
                          t = rotate_right w t
                      in (t, n_right t (n_parent t x))
                    else (t, w));
          t = set_color w (n_color t (n_parent t x)) t;
          t = set_color (n_parent t x) BLACK t;
          t = set_color (n_right t w) BLACK t;
          t = rotate_left (n_parent t x) t
      in (t, rb_root t))"

definition df_red_sibling_right :: "nat \<Rightarrow> RBPriceIndex \<Rightarrow> RBPriceIndex \<times> nat" where
  "df_red_sibling_right x t =
     (let w = n_left t (n_parent t x) in
      if n_color t w = RED then
        let t = set_color w BLACK t;
            t = set_color (n_parent t x) RED t;
            t = rotate_right (n_parent t x) t
        in (t, n_left t (n_parent t x))
      else (t, w))"

definition df_finish_right :: "nat \<Rightarrow> nat \<Rightarrow> RBPriceIndex \<Rightarrow> RBPriceIndex \<times> nat" where
  "df_finish_right x w t =
     (let (t, w) = (if n_color t (n_left t w) = BLACK then
                      let t = set_color (n_right t w) BLACK t;
                          t = set_color w RED t;
                          t = rotate_left w t
                      in (t, n_left t (n_parent t x))
                    else (t, w));
          t = set_color w (n_color t (n_parent t x)) t;
          t = set_color (n_parent t x) BLACK t;
          t = set_color (n_left t w) BLACK t;
          t = rotate_right (n_parent t x) t
      in (t, rb_root t))"

definition delete_fixup_step :: "RBPriceIndex \<times> nat \<Rightarrow> RBPriceIndex \<times> nat" where
  "delete_fixup_step = (\<lambda>(t, x).
     if x = n_left t (n_parent t x) then
       let (t, w) = df_red_sibling_left x t in
       if n_color t (n_left t w) = BLACK \<and> n_color t (n_right t w) = BLACK
       then let t = set_color w RED t in (t, n_parent t x)
       else df_finish_left x w t
     else
       let (t, w) = df_red_sibling_right x t in
       if n_color t (n_right t w) = BLACK \<and> n_color t (n_left t w) = BLACK
       then let t = set_color w RED t in (t, n_parent t x)
       else df_finish_right x w t)"

definition delete_fixup :: "nat \<Rightarrow> RBPriceIndex \<Rightarrow> RBPriceIndex" where
  "delete_fixup x t =
     (let (t, x) = while (\<lambda>(t, x). x \<noteq> rb_root t \<and> n_color t x = BLACK) delete_fixup_step (t, x)
      in set_color x BLACK t)"

section \<open>The map interface\<close>

text \<open>
  An iterator is a node index; \<^verbatim>\<open>begin()\<close> is \<open>rb_begin\<close>, \<^verbatim>\<open>end()\<close> is \<open>NIL\<close>, the iterator's
  \<^verbatim>\<open>operator++\<close> is \<open>n_succ\<close> and \<^verbatim>\<open>it->second\<close> is \<open>n_val\<close>.
\<close>

definition rb_empty :: "RBPriceIndex \<Rightarrow> bool" where
  "rb_empty t \<longleftrightarrow> rb_size t = 0"

definition rb_next :: "RBPriceIndex \<Rightarrow> nat \<Rightarrow> nat" where
  "rb_next t i = n_succ t i"

definition rb_find :: "(PriceTick \<Rightarrow> PriceTick \<Rightarrow> bool) \<Rightarrow> PriceTick \<Rightarrow> RBPriceIndex \<Rightarrow> nat" where
  "rb_find prec price t =
     while (\<lambda>x. x \<noteq> NIL \<and> price \<noteq> n_key t x)
       (\<lambda>x. if prec price (n_key t x) then n_left t x else n_right t x) (rb_root t)"

text \<open>
  The search of \<^verbatim>\<open>try_emplace\<close>: the loop variables \<open>y\<close>, \<open>x\<close>, \<open>pred\<close> and \<open>succ\<close>. The source
  returns from inside the loop when the key is found; here the loop ends with \<open>x \<noteq> NIL\<close> then.
\<close>

definition emplace_search ::
  "(PriceTick \<Rightarrow> PriceTick \<Rightarrow> bool) \<Rightarrow> PriceTick \<Rightarrow> RBPriceIndex \<Rightarrow> nat \<times> nat \<times> nat \<times> nat \<Rightarrow>
   nat \<times> nat \<times> nat \<times> nat" where
  "emplace_search prec price t =
     while (\<lambda>(y, x, pred, succ). x \<noteq> NIL \<and> price \<noteq> n_key t x)
       (\<lambda>(y, x, pred, succ).
          if prec price (n_key t x) then (x, n_left t x, pred, x)
          else (x, n_right t x, x, succ))"

text \<open>The assignments that make the fresh node \<open>z\<close> a red child of \<open>y\<close> between its neighbours.\<close>

definition emplace_link ::
  "(PriceTick \<Rightarrow> PriceTick \<Rightarrow> bool) \<Rightarrow> PriceTick \<Rightarrow> nat \<times> nat \<times> nat \<Rightarrow> nat \<Rightarrow> RBPriceIndex \<Rightarrow>
   RBPriceIndex" where
  "emplace_link prec price = (\<lambda>(y, pred, succ) z t.
     let t = set_key z price t;
         t = set_left z NIL (set_right z NIL t);
         t = set_parent z y t;
         t = set_color z RED t;
         t = set_pred z pred t;
         t = set_succ z succ t;
         t = (if y = NIL then t\<lparr>rb_root := z\<rparr>
              else if prec price (n_key t y) then set_left y z t
              else set_right y z t);
         t = (if pred \<noteq> NIL then set_succ pred z t else t\<lparr>rb_begin := z\<rparr>)
     in (if succ \<noteq> NIL then set_pred succ z t else t))"

definition try_emplace ::
  "(PriceTick \<Rightarrow> PriceTick \<Rightarrow> bool) \<Rightarrow> PriceTick \<Rightarrow> RBPriceIndex \<Rightarrow>
   rb_error + (nat \<times> bool \<times> RBPriceIndex)" where
  "try_emplace prec price t =
     (let (y, x, pred, succ) = emplace_search prec price t (NIL, rb_root t, NIL, NIL) in
      if x \<noteq> NIL then Inr (x, False, t)
      else case rb_alloc t of
        Inl e \<Rightarrow> Inl e
      | Inr (z, t) \<Rightarrow>
          let t = emplace_link prec price (y, pred, succ) z t;
              t = insert_fixup z t;
              t = t\<lparr>rb_size := rb_size t + 1\<rparr>
          in Inr (z, True, t))"

text \<open>\<^verbatim>\<open>erase\<close>: the neighbour list first, then the tree, then the fixup.\<close>

definition erase_neighbours :: "nat \<Rightarrow> RBPriceIndex \<Rightarrow> RBPriceIndex" where
  "erase_neighbours z t =
     (let t = (if n_pred t z \<noteq> NIL then set_succ (n_pred t z) (n_succ t z) t
               else t\<lparr>rb_begin := n_succ t z\<rparr>)
      in (if n_succ t z \<noteq> NIL then set_pred (n_succ t z) (n_pred t z) t else t))"

definition erase_tree :: "nat \<Rightarrow> RBPriceIndex \<Rightarrow> nat \<times> Color \<times> RBPriceIndex" where
  "erase_tree z t =
     (let y = z; y_orig = n_color t y in
      if n_left t z = NIL then (n_right t z, y_orig, transplant z (n_right t z) t)
      else if n_right t z = NIL then (n_left t z, y_orig, transplant z (n_left t z) t)
      else
        let y = n_succ t z;
            y_orig = n_color t y;
            x = n_right t y;
            t = (if n_parent t y = z then set_parent x y t
                 else
                   let t = transplant y (n_right t y) t;
                       t = set_right y (n_right t z) t
                   in set_parent (n_right t y) y t);
            t = transplant z y t;
            t = set_left y (n_left t z) t;
            t = set_parent (n_left t y) y t;
            t = set_color y (n_color t z) t
        in (x, y_orig, t))"

definition rb_erase :: "nat \<Rightarrow> RBPriceIndex \<Rightarrow> RBPriceIndex" where
  "rb_erase z t =
     (if z = NIL then t
      else
        let t = erase_neighbours z t;
            (x, y_orig, t) = erase_tree z t;
            t = (if y_orig = BLACK then delete_fixup x t else t);
            t = set_color NIL BLACK (set_parent NIL NIL t);
            t = rb_release z t
        in t\<lparr>rb_size := rb_size t - 1\<rparr>)"

section \<open>The validator\<close>

text \<open>
  \<^verbatim>\<open>check_node\<close> and \<^verbatim>\<open>validate\<close>, the executable check of the unit tests. The recursion of
  \<^verbatim>\<open>check_node\<close> follows child links; the model gives it fuel and answers \<open>-1\<close> when it runs out.
\<close>

fun check_node :: "(PriceTick \<Rightarrow> PriceTick \<Rightarrow> bool) \<Rightarrow> RBPriceIndex \<Rightarrow> nat \<Rightarrow> nat \<Rightarrow> int" where
  "check_node prec t 0 x = -1"
| "check_node prec t (Suc fuel) x =
     (if x = NIL then 1
      else
        let l = n_left t x; r = n_right t x in
        if n_color t x = RED \<and> (n_color t l \<noteq> BLACK \<or> n_color t r \<noteq> BLACK) then -1
        else if l \<noteq> NIL \<and> (n_parent t l \<noteq> x \<or> \<not> prec (n_key t l) (n_key t x)) then -1
        else if r \<noteq> NIL \<and> (n_parent t r \<noteq> x \<or> \<not> prec (n_key t x) (n_key t r)) then -1
        else
          let lh = check_node prec t fuel l; rh = check_node prec t fuel r in
          if lh < 0 \<or> rh < 0 \<or> lh \<noteq> rh then -1
          else lh + (if n_color t x = BLACK then 1 else 0))"

fun validate_walk ::
  "(PriceTick \<Rightarrow> PriceTick \<Rightarrow> bool) \<Rightarrow> RBPriceIndex \<Rightarrow> nat \<Rightarrow> nat \<Rightarrow> nat \<Rightarrow> nat \<Rightarrow> nat option" where
  "validate_walk prec t 0 count i prev = None"
| "validate_walk prec t (Suc fuel) count i prev =
     (if i = NIL then Some count
      else if n_pred t i \<noteq> prev then None
      else if prev \<noteq> NIL \<and> \<not> prec (n_key t prev) (n_key t i) then None
      else validate_walk prec t fuel (count + 1) (n_succ t i) i)"

definition validate :: "(PriceTick \<Rightarrow> PriceTick \<Rightarrow> bool) \<Rightarrow> nat \<Rightarrow> RBPriceIndex \<Rightarrow> bool" where
  "validate prec fuel t =
     (if rb_root t = NIL then rb_size t = 0 \<and> rb_begin t = NIL
      else if n_color t (rb_root t) \<noteq> BLACK then False
      else case validate_walk prec t fuel 0 (rb_begin t) NIL of
        None \<Rightarrow> False
      | Some count \<Rightarrow> count = rb_size t \<and> check_node prec t fuel (rb_root t) \<ge> 0)"

end
