(* ===== verification/Rb_Shape.thy ===== *)
theory Rb_Shape
  imports Rb_Price_Index
begin

text \<open>
  The shape of the price index: which tree of node indices its child and parent links form, and
  what a rotation does to it. A position in the tree is a subtree together with the path above
  it, listed from the position upwards; the loops of the index
  move such a position. The colour and height conditions of a red-black tree are stated over
  the same trees, with the colours read from the index.

  The right-hand branches of the code are mirror images of the left-hand ones: \<open>swap_lr\<close> swaps
  the two child links of every node, and each right-hand operation is the left-hand one under it.
\<close>

section \<open>Trees and positions\<close>

fun rt :: "nat tree \<Rightarrow> nat" where
  "rt Leaf = NIL"
| "rt (Node l x r) = x"

fun tree_at :: "RBPriceIndex \<Rightarrow> nat \<Rightarrow> nat tree \<Rightarrow> bool" where
  "tree_at t p Leaf \<longleftrightarrow> True"
| "tree_at t p (Node l x r) \<longleftrightarrow>
     x \<noteq> NIL \<and> n_parent t x = p \<and> n_left t x = rt l \<and> n_right t x = rt r \<and>
     tree_at t x l \<and> tree_at t x r"

datatype step = Lstep nat "nat tree" | Rstep "nat tree" nat

fun plug :: "step list \<Rightarrow> nat tree \<Rightarrow> nat tree" where
  "plug [] T = T"
| "plug (Lstep x r # c) T = plug c (Node T x r)"
| "plug (Rstep l x # c) T = plug c (Node l x T)"

fun hp :: "step list \<Rightarrow> nat" where
  "hp [] = NIL"
| "hp (Lstep x r # c) = x"
| "hp (Rstep l x # c) = x"

fun is_lstep :: "step list \<Rightarrow> bool" where
  "is_lstep (Lstep x r # c) \<longleftrightarrow> True"
| "is_lstep _ \<longleftrightarrow> False"

fun ctx_left :: "step list \<Rightarrow> nat list" where
  "ctx_left [] = []"
| "ctx_left (Lstep x r # c) = ctx_left c"
| "ctx_left (Rstep l x # c) = ctx_left c @ inorder l @ [x]"

fun ctx_right :: "step list \<Rightarrow> nat list" where
  "ctx_right [] = []"
| "ctx_right (Lstep x r # c) = x # inorder r @ ctx_right c"
| "ctx_right (Rstep l x # c) = ctx_right c"

abbreviation cset :: "step list \<Rightarrow> nat set" where
  "cset c \<equiv> set (ctx_left c) \<union> set (ctx_right c)"

text \<open>\<open>ctx_at t i c\<close>: the path \<open>c\<close> is in the index, and its open position holds the index \<open>i\<close>.\<close>

fun ctx_at :: "RBPriceIndex \<Rightarrow> nat \<Rightarrow> step list \<Rightarrow> bool" where
  "ctx_at t i [] \<longleftrightarrow> rb_root t = i"
| "ctx_at t i (Lstep x r # c) \<longleftrightarrow>
     x \<noteq> NIL \<and> n_left t x = i \<and> n_right t x = rt r \<and> n_parent t x = hp c \<and>
     tree_at t x r \<and> ctx_at t x c"
| "ctx_at t i (Rstep l x # c) \<longleftrightarrow>
     x \<noteq> NIL \<and> n_left t x = rt l \<and> n_right t x = i \<and> n_parent t x = hp c \<and>
     tree_at t x l \<and> ctx_at t x c"

lemma inorder_plug: "inorder (plug c T) = ctx_left c @ inorder T @ ctx_right c"
  by (induction c T rule: plug.induct) auto

lemma rt_in_set: "T \<noteq> Leaf \<Longrightarrow> rt T \<in> set_tree T"
  by (cases T) auto

lemma tree_at_nonnil: "tree_at t p T \<Longrightarrow> x \<in> set_tree T \<Longrightarrow> x \<noteq> NIL"
  by (induction T arbitrary: p) auto

lemma rt_nil: "tree_at t p T \<Longrightarrow> rt T = NIL \<longleftrightarrow> T = Leaf"
  by (cases T) auto

lemma ctx_at_nonnil: "ctx_at t i c \<Longrightarrow> x \<in> cset c \<Longrightarrow> x \<noteq> NIL"
  by (induction t i c rule: ctx_at.induct) (auto dest: tree_at_nonnil)

lemma hp_nil: "ctx_at t i c \<Longrightarrow> hp c = NIL \<longleftrightarrow> c = []"
  by (cases c rule: hp.cases) auto

lemma hp_in_cset: "c \<noteq> [] \<Longrightarrow> hp c \<in> cset c"
  by (cases c rule: hp.cases) auto

lemma plug_at:
  "tree_at t NIL (plug c T) \<and> rb_root t = rt (plug c T) \<longleftrightarrow> tree_at t (hp c) T \<and> ctx_at t (rt T) c"
  by (induction c T rule: plug.induct) auto

lemma plug_append: "plug (c @ d) T = plug d (plug c T)"
  by (induction c T rule: plug.induct) auto

lemma ctx_append [simp]:
  "ctx_left (c @ d) = ctx_left d @ ctx_left c" "ctx_right (c @ d) = ctx_right c @ ctx_right d"
  by (induction c rule: ctx_left.induct) auto

section \<open>Frames\<close>

definition same_links :: "nat set \<Rightarrow> RBPriceIndex \<Rightarrow> RBPriceIndex \<Rightarrow> bool" where
  "same_links X t t' \<longleftrightarrow>
     (\<forall>x \<in> X. n_left t' x = n_left t x \<and> n_right t' x = n_right t x \<and> n_parent t' x = n_parent t x)"

lemma tree_at_cong:
  "same_links (set_tree T) t t' \<Longrightarrow> tree_at t' p T \<longleftrightarrow> tree_at t p T"
  by (induction T arbitrary: p) (auto simp: same_links_def)

lemma tree_at_reparent:
  assumes "tree_at t p T" "distinct (inorder T)"
    "\<And>x. x \<in> set_tree T \<Longrightarrow> n_left t' x = n_left t x \<and> n_right t' x = n_right t x"
    "\<And>x. x \<in> set_tree T \<Longrightarrow> x \<noteq> rt T \<Longrightarrow> n_parent t' x = n_parent t x"
    "T \<noteq> Leaf \<Longrightarrow> n_parent t' (rt T) = q"
  shows "tree_at t' q T"
proof (cases T)
  case (Node l x r)
  have "same_links (set_tree l) t t'" "same_links (set_tree r) t t'"
    using assms(2-4) Node by (auto simp: same_links_def)
  with assms Node show ?thesis by (simp add: tree_at_cong)
qed simp

lemma ctx_at_cong:
  "same_links (cset c) t t' \<Longrightarrow> rb_root t' = rb_root t \<Longrightarrow> ctx_at t' i c \<longleftrightarrow> ctx_at t i c"
proof (induction c arbitrary: i rule: ctx_left.induct)
  case (2 x r c)
  then have "same_links (set_tree r) t t'" and c: "same_links (cset c) t t'"
    by (auto simp: same_links_def)
  then have "tree_at t' x r \<longleftrightarrow> tree_at t x r" by (simp add: tree_at_cong)
  with c 2 show ?case by (auto simp: same_links_def)
next
  case (3 l x c)
  then have "same_links (set_tree l) t t'" and c: "same_links (cset c) t t'"
    by (auto simp: same_links_def)
  then have "tree_at t' x l \<longleftrightarrow> tree_at t x l" by (simp add: tree_at_cong)
  with c 3 show ?case by (auto simp: same_links_def)
qed simp

text \<open>Only the open position of a path changes.\<close>

lemma ctx_at_rehole:
  assumes "ctx_at t i c" "distinct (ctx_left c @ ctx_right c)"
    "rb_root t' = (if c = [] then j else rb_root t)"
    "\<And>x. x \<in> cset c \<Longrightarrow> n_parent t' x = n_parent t x"
    "\<And>x. x \<in> cset c \<Longrightarrow> n_left t' x = (if x = hp c \<and> is_lstep c then j else n_left t x)"
    "\<And>x. x \<in> cset c \<Longrightarrow> n_right t' x = (if x = hp c \<and> \<not> is_lstep c then j else n_right t x)"
  shows "ctx_at t' j c"
proof (cases c rule: hp.cases)
  case (2 x r c')
  have "same_links (set_tree r) t t'" "same_links (cset c') t t'"
    using assms(2,4-6) 2 by (auto simp: same_links_def)
  with assms 2 show ?thesis by (simp add: tree_at_cong ctx_at_cong)
next
  case (3 l x c')
  have "same_links (set_tree l) t t'" "same_links (cset c') t t'"
    using assms(2,4-6) 3 by (auto simp: same_links_def)
  with assms 3 show ?thesis by (simp add: tree_at_cong ctx_at_cong)
qed (use assms in simp)

lemma left_child_test:
  assumes "ctx_at t i c" "i \<noteq> NIL" "i \<notin> cset c" "c \<noteq> []"
  shows "i = n_left t (hp c) \<longleftrightarrow> is_lstep c"
proof (cases c rule: hp.cases)
  case (3 l x c')
  then have "rt l \<noteq> i" using assms rt_in_set [of l] by (cases "l = Leaf") auto
  with 3 assms show ?thesis by auto
qed (use assms in auto)

section \<open>Rotations\<close>

text \<open>
  A rotation seen through its frame: what it assigns when the node, its child and its parent
  are different nodes.
\<close>

lemma rotate_left_fields:
  assumes c: "ctx_at t x c" and T: "tree_at t (hp c) (Node a x (Node b y d))"
    and d: "distinct (inorder (plug c (Node a x (Node b y d))))"
  shows "n_left (rotate_left x t) =
      (if c \<noteq> [] \<and> is_lstep c then (n_left t)(hp c := y) else n_left t)(y := x)"
    "n_right (rotate_left x t) =
      (if c \<noteq> [] \<and> \<not> is_lstep c then ((n_right t)(x := rt b))(hp c := y)
       else (n_right t)(x := rt b))"
    "n_parent (rotate_left x t) =
      ((if b \<noteq> Leaf then (n_parent t)(rt b := x) else n_parent t)(y := hp c))(x := y)"
    "rb_root (rotate_left x t) = (if c = [] then y else rb_root t)"
proof -
  have x: "x \<noteq> NIL" "y \<noteq> NIL" "n_parent t x = hp c" "n_right t x = y" "n_left t y = rt b"
    using T by auto
  have b: "rt b = NIL \<longleftrightarrow> b = Leaf" using T by (auto simp: rt_nil)
  have dd: "distinct (ctx_left c @ (inorder a @ x # inorder b @ y # inorder d) @ ctx_right c)"
    using d by (simp add: inorder_plug)
  then have ne: "x \<noteq> y" "x \<notin> cset c" "y \<notin> cset c" by auto
  have bne: "b \<noteq> Leaf \<Longrightarrow> rt b \<noteq> x \<and> rt b \<noteq> y \<and> rt b \<notin> cset c"
    using dd rt_in_set [of b] by (auto simp del: inorder.simps)
  have p: "hp c = NIL \<longleftrightarrow> c = []" using hp_nil [OF c] .
  have pne: "c \<noteq> [] \<Longrightarrow> hp c \<noteq> x \<and> hp c \<noteq> y \<and> hp c \<noteq> rt b"
    using hp_in_cset [of c] ne bne p b by metis
  have test: "c \<noteq> [] \<Longrightarrow> x = n_left t (hp c) \<longleftrightarrow> is_lstep c"
    using left_child_test [OF c x(1) ne(2)] .
  have bne': "b \<noteq> Leaf \<Longrightarrow> x \<noteq> rt b" using bne by auto
  note facts = x b ne(1) ne(1) [symmetric] p bne'
  show "n_left (rotate_left x t) =
      (if c \<noteq> [] \<and> is_lstep c then (n_left t)(hp c := y) else n_left t)(y := x)"
    unfolding rotate_left_def Let_def
    by (cases "c = []"; cases "b = Leaf") (simp_all add: facts test bne pne)
  show "n_right (rotate_left x t) =
      (if c \<noteq> [] \<and> \<not> is_lstep c then ((n_right t)(x := rt b))(hp c := y)
       else (n_right t)(x := rt b))"
    unfolding rotate_left_def Let_def
    by (cases "c = []"; cases "b = Leaf") (simp_all add: facts test bne pne)
  show "n_parent (rotate_left x t) =
      ((if b \<noteq> Leaf then (n_parent t)(rt b := x) else n_parent t)(y := hp c))(x := y)"
    unfolding rotate_left_def Let_def
    by (cases "b = Leaf") (simp_all add: facts bne)
  show "rb_root (rotate_left x t) = (if c = [] then y else rb_root t)"
    unfolding rotate_left_def Let_def
    by (cases "b = Leaf") (simp_all add: facts bne)
qed

lemma rotate_left_at:
  assumes c: "ctx_at t x c" and T: "tree_at t (hp c) (Node a x (Node b y d))"
    and d: "distinct (inorder (plug c (Node a x (Node b y d))))"
  shows "ctx_at (rotate_left x t) y c"
    "tree_at (rotate_left x t) (hp c) (Node (Node a x b) y d)"
proof -
  note f = rotate_left_fields [OF assms]
  have dd: "distinct (ctx_left c @ (inorder a @ x # inorder b @ y # inorder d) @ ctx_right c)"
    using d by (simp add: inorder_plug)
  have bs: "b \<noteq> Leaf \<Longrightarrow> rt b \<in> set_tree b" using rt_in_set .
  have hpc: "c \<noteq> [] \<Longrightarrow> hp c \<in> cset c" using hp_in_cset .
  have xy: "n_right t x = y" "n_left t x = rt a" "n_right t y = rt d" "x \<noteq> NIL" "y \<noteq> NIL" "x \<noteq> y"
    using T dd by auto
  show "ctx_at (rotate_left x t) y c"
  proof (rule ctx_at_rehole [OF c])
    show "distinct (ctx_left c @ ctx_right c)" using dd by auto
    fix u assume u: "u \<in> cset c"
    then have "u \<noteq> x" "u \<noteq> y" "b \<noteq> Leaf \<Longrightarrow> u \<noteq> rt b" using dd bs by auto
    with u f show "n_parent (rotate_left x t) u = n_parent t u"
      "n_left (rotate_left x t) u = (if u = hp c \<and> is_lstep c then y else n_left t u)"
      "n_right (rotate_left x t) u = (if u = hp c \<and> \<not> is_lstep c then y else n_right t u)"
      by (auto simp: hp_nil [OF c])
  qed (use f in simp)
  have out: "n_left (rotate_left x t) u = n_left t u \<and> n_right (rotate_left x t) u = n_right t u \<and>
      n_parent (rotate_left x t) u = n_parent t u"
    if "u \<noteq> x" "u \<noteq> y" "c \<noteq> [] \<Longrightarrow> u \<noteq> hp c" "b \<noteq> Leaf \<Longrightarrow> u \<noteq> rt b" for u
    using that by (simp add: f)
  have sl: "same_links (set_tree a) t (rotate_left x t)"
    "same_links (set_tree d) t (rotate_left x t)"
    unfolding same_links_def by (intro ballI out; use dd bs hpc in auto)+
  have ub: "u \<noteq> x" "u \<noteq> y" "c \<noteq> [] \<Longrightarrow> u \<noteq> hp c" if "u \<in> set_tree b" for u
    using that dd hpc by auto
  have "tree_at (rotate_left x t) x b"
    by (rule tree_at_reparent [of t y]) (use T dd bs ub f in \<open>auto simp: fun_upd_apply\<close>)
  then show "tree_at (rotate_left x t) (hp c) (Node (Node a x b) y d)"
    using T sl f xy dd hpc by (auto simp: tree_at_cong)
qed

section \<open>Mirror images\<close>

definition swap_lr :: "RBPriceIndex \<Rightarrow> RBPriceIndex" where
  "swap_lr t = t\<lparr>n_left := n_right t, n_right := n_left t\<rparr>"

fun mirror_step :: "step \<Rightarrow> step" where
  "mirror_step (Lstep x r) = Rstep (mirror r) x"
| "mirror_step (Rstep l x) = Lstep x (mirror l)"

abbreviation mirror_ctx :: "step list \<Rightarrow> step list" where
  "mirror_ctx \<equiv> map mirror_step"

lemma swap_lr_simps [simp]:
  "n_left (swap_lr t) = n_right t" "n_right (swap_lr t) = n_left t"
  "n_parent (swap_lr t) = n_parent t" "n_color (swap_lr t) = n_color t"
  "n_key (swap_lr t) = n_key t" "n_val (swap_lr t) = n_val t"
  "n_pred (swap_lr t) = n_pred t" "n_succ (swap_lr t) = n_succ t"
  "rb_root (swap_lr t) = rb_root t" "rb_begin (swap_lr t) = rb_begin t"
  "rb_size (swap_lr t) = rb_size t" "rb_free (swap_lr t) = rb_free t"
  "rb_capacity (swap_lr t) = rb_capacity t" "swap_lr (swap_lr t) = t"
  "swap_lr (n_color_update g t) = n_color_update g (swap_lr t)"
  by (simp_all add: swap_lr_def)

lemma swap_lr_set [simp]:
  "swap_lr (set_left x v t) = set_right x v (swap_lr t)"
  "swap_lr (set_right x v t) = set_left x v (swap_lr t)"
  "swap_lr (set_parent x v t) = set_parent x v (swap_lr t)"
  "swap_lr (adopt x p t) = adopt x p (swap_lr t)"
  "swap_lr (relink_left x y t) = relink_right x y (swap_lr t)"
  "swap_lr (relink_right x y t) = relink_left x y (swap_lr t)"
  by (simp_all add: swap_lr_def adopt_def relink_left_def relink_right_def)

lemma rotate_right_swap: "rotate_right x t = swap_lr (rotate_left x (swap_lr t))"
  by (simp add: rotate_right_def rotate_left_def Let_def)

lemma rotate_left_swap: "rotate_left x t = swap_lr (rotate_right x (swap_lr t))"
  by (simp add: rotate_right_swap)

lemma rt_mirror [simp]: "rt (mirror T) = rt T"
  by (cases T) auto

lemma tree_at_swap [simp]: "tree_at (swap_lr t) p (mirror T) \<longleftrightarrow> tree_at t p T"
  by (induction T arbitrary: p) auto

lemma hp_mirror [simp]: "hp (mirror_ctx c) = hp c"
  by (cases c rule: hp.cases) auto

lemma ctx_at_swap [simp]: "ctx_at (swap_lr t) i (mirror_ctx c) \<longleftrightarrow> ctx_at t i c"
  by (induction c arbitrary: i rule: ctx_left.induct) auto

lemma plug_mirror: "plug (mirror_ctx c) (mirror T) = mirror (plug c T)"
  by (induction c T rule: plug.induct) auto

lemma rotate_right_at:
  assumes c: "ctx_at t x c" and T: "tree_at t (hp c) (Node (Node d y b) x a)"
    and d: "distinct (inorder (plug c (Node (Node d y b) x a)))"
  shows "ctx_at (rotate_right x t) y c"
    "tree_at (rotate_right x t) (hp c) (Node d y (Node b x a))"
proof -
  let ?s = "swap_lr t" and ?M = "Node (mirror a) x (Node (mirror b) y (mirror d))"
  have M: "?M = mirror (Node (Node d y b) x a)" by simp
  have 1: "ctx_at ?s x (mirror_ctx c)" using c by simp
  have 2: "tree_at ?s (hp (mirror_ctx c)) ?M" unfolding M using T by (simp only: tree_at_swap hp_mirror)
  have 3: "distinct (inorder (plug (mirror_ctx c) ?M))"
    unfolding M plug_mirror inorder_mirror using d by simp
  have "ctx_at (rotate_left x ?s) y (mirror_ctx c)"
    by (rule rotate_left_at(1) [OF 1 2 3])
  moreover have "tree_at (rotate_left x ?s) (hp (mirror_ctx c)) (mirror (Node d y (Node b x a)))"
    using rotate_left_at(2) [OF 1 2 3] by (simp only: mirror.simps)
  ultimately show "ctx_at (rotate_right x t) y c"
    "tree_at (rotate_right x t) (hp c) (Node d y (Node b x a))"
    unfolding rotate_right_swap
    by (metis ctx_at_swap swap_lr_simps(14), metis hp_mirror tree_at_swap swap_lr_simps(14))
qed

text \<open>What rotations and colour changes never touch.\<close>

definition same_data :: "RBPriceIndex \<Rightarrow> RBPriceIndex \<Rightarrow> bool" where
  "same_data t t' \<longleftrightarrow> n_key t' = n_key t \<and> n_val t' = n_val t \<and> n_pred t' = n_pred t \<and>
     n_succ t' = n_succ t \<and> rb_capacity t' = rb_capacity t \<and> rb_free t' = rb_free t \<and>
     rb_begin t' = rb_begin t \<and> rb_size t' = rb_size t"

lemma same_data_refl [simp]: "same_data t t"
  by (simp add: same_data_def)

lemma same_data_trans: "same_data t u \<Longrightarrow> same_data u v \<Longrightarrow> same_data t v"
  by (simp add: same_data_def)

lemma same_data_rotate [simp]:
  "same_data s (rotate_left x t) \<longleftrightarrow> same_data s t" "same_data s (rotate_right x t) \<longleftrightarrow> same_data s t"
  "same_data (rotate_left x s) t \<longleftrightarrow> same_data s t" "same_data (rotate_right x s) t \<longleftrightarrow> same_data s t"
  by (auto simp: same_data_def rotate_left_def rotate_right_def Let_def)

lemma same_data_color [simp]: "same_data s (n_color_update f t) \<longleftrightarrow> same_data s t"
  by (simp add: same_data_def)

lemma same_data_swap [simp]:
  "same_data s (swap_lr t) \<longleftrightarrow> same_data s t" "same_data (swap_lr s) t \<longleftrightarrow> same_data s t"
  by (simp_all add: same_data_def)

lemma color_rotate [simp]:
  "n_color (rotate_left x t) = n_color t" "n_color (rotate_right x t) = n_color t"
  by (auto simp: rotate_left_def rotate_right_def Let_def)

lemma shape_color [simp]:
  "tree_at (n_color_update f t) p T \<longleftrightarrow> tree_at t p T"
  "ctx_at (n_color_update f t) i c \<longleftrightarrow> ctx_at t i c"
  by (auto intro!: tree_at_cong ctx_at_cong simp: same_links_def)

lemma set_color_out:
  "n_left_update f (n_color_update g t) = n_color_update g (n_left_update f t)"
  "n_right_update f (n_color_update g t) = n_color_update g (n_right_update f t)"
  "n_parent_update f (n_color_update g t) = n_color_update g (n_parent_update f t)"
  by simp_all

lemma rotate_color [simp]:
  "rotate_left x (n_color_update g t) = n_color_update g (rotate_left x t)"
  "rotate_right x (n_color_update g t) = n_color_update g (rotate_right x t)"
  by (simp_all add: rotate_left_def rotate_right_def Let_def set_color_out)

section \<open>Red-black conditions\<close>

fun bh :: "(nat \<Rightarrow> Color) \<Rightarrow> nat tree \<Rightarrow> nat" where
  "bh col Leaf = 0"
| "bh col (Node l x r) = bh col l + (if col x = BLACK then 1 else 0)"

fun rbt :: "(nat \<Rightarrow> Color) \<Rightarrow> nat tree \<Rightarrow> bool" where
  "rbt col Leaf \<longleftrightarrow> True"
| "rbt col (Node l x r) \<longleftrightarrow> rbt col l \<and> rbt col r \<and> bh col l = bh col r \<and>
     (col x = RED \<longrightarrow> col (rt l) = BLACK \<and> col (rt r) = BLACK)"

text \<open>
  \<open>crb col c n\<close>: the path \<open>c\<close> fits a subtree of black height \<open>n\<close>, except that its lowest node
  may be red over a red subtree. The root is black.
\<close>

fun crb :: "(nat \<Rightarrow> Color) \<Rightarrow> step list \<Rightarrow> nat \<Rightarrow> bool" where
  "crb col [] n \<longleftrightarrow> True"
| "crb col (Lstep x r # c) n \<longleftrightarrow> rbt col r \<and> bh col r = n \<and>
     (col x = RED \<longrightarrow> col (rt r) = BLACK \<and> c \<noteq> [] \<and> col (hp c) = BLACK) \<and>
     crb col c (n + (if col x = BLACK then 1 else 0))"
| "crb col (Rstep l x # c) n \<longleftrightarrow> rbt col l \<and> bh col l = n \<and>
     (col x = RED \<longrightarrow> col (rt l) = BLACK \<and> c \<noteq> [] \<and> col (hp c) = BLACK) \<and>
     crb col c (n + (if col x = BLACK then 1 else 0))"

lemma Color_not [simp]: "k \<noteq> RED \<longleftrightarrow> k = BLACK" "k \<noteq> BLACK \<longleftrightarrow> k = RED"
  by (cases k; simp)+

definition red_ok :: "(nat \<Rightarrow> Color) \<Rightarrow> step list \<Rightarrow> nat tree \<Rightarrow> bool" where
  "red_ok col c T \<longleftrightarrow> (col (rt T) = RED \<longrightarrow> c \<noteq> [] \<and> col (hp c) = BLACK)"

lemma rbt_plug:
  "rbt col (plug c T) \<and> col (rt (plug c T)) = BLACK \<longleftrightarrow>
   rbt col T \<and> crb col c (bh col T) \<and> red_ok col c T"
proof (induction c T rule: plug.induct)
  case (1 T)
  then show ?case by (auto simp: red_ok_def)
next
  case (2 x r c T)
  then show ?case by (auto simp: red_ok_def)
next
  case (3 l x c T)
  then show ?case by (auto simp: red_ok_def)
qed

lemma bh_cong: "(\<And>x. x \<in> set_tree T \<Longrightarrow> col' x = col x) \<Longrightarrow> bh col' T = bh col T"
  by (induction T) auto

lemma rbt_cong:
  "(\<And>x. x \<in> set_tree T \<Longrightarrow> col' x = col x) \<Longrightarrow> col' NIL = col NIL \<Longrightarrow> rbt col' T \<longleftrightarrow> rbt col T"
proof (induction T)
  case (Node l x r)
  moreover have "col' (rt l) = col (rt l)" "col' (rt r) = col (rt r)"
    using Node.prems rt_in_set [of l] rt_in_set [of r] by (cases "l = Leaf"; cases "r = Leaf"; auto)+
  ultimately show ?case using bh_cong [of l col' col] bh_cong [of r col' col] by auto
qed simp

lemma rt_cong:
  "(\<And>x. x \<in> set_tree T \<Longrightarrow> col' x = col x) \<Longrightarrow> col' NIL = col NIL \<Longrightarrow> col' (rt T) = col (rt T)"
  using rt_in_set [of T] by (cases "T = Leaf") auto

lemma col_cong:
  assumes "\<And>x. x \<in> set_tree T \<Longrightarrow> col' x = col x" "col' NIL = col NIL"
  shows "rbt col' T = rbt col T \<and> bh col' T = bh col T \<and> col' (rt T) = col (rt T)"
  using assms rbt_cong [of T col' col] bh_cong [of T col' col] rt_cong [of T col' col] by simp

lemma crb_cong:
  "(\<And>x. x \<in> cset c \<Longrightarrow> col' x = col x) \<Longrightarrow> col' NIL = col NIL \<Longrightarrow> crb col' c n \<longleftrightarrow> crb col c n"
proof (induction c arbitrary: n rule: ctx_left.induct)
  case (2 x r c)
  moreover have "col' (hp c) = col (hp c)" using 2(2) hp_in_cset [of c] "2.prems"(2) by (cases "c = []") auto
  ultimately show ?case
    using bh_cong [of r col' col] rbt_cong [of r col' col] rt_cong [of r col' col] by auto
next
  case (3 l x c)
  moreover have "col' (hp c) = col (hp c)" using 3(2) hp_in_cset [of c] "3.prems"(2) by (cases "c = []") auto
  ultimately show ?case
    using bh_cong [of l col' col] rbt_cong [of l col' col] rt_cong [of l col' col] by auto
qed simp

lemma rbt_blacken:
  assumes "rbt col T" "distinct (inorder T)" "col NIL = BLACK"
  shows "rbt (col(rt T := BLACK)) T"
proof (cases T)
  case (Node l z r)
  let ?k = "col(z := BLACK)"
  have "rbt ?k l = rbt col l \<and> bh ?k l = bh col l \<and> ?k (rt l) = col (rt l)"
    "rbt ?k r = rbt col r \<and> bh ?k r = bh col r \<and> ?k (rt r) = col (rt r)"
    using assms Node by (intro col_cong; auto)+
  with assms Node show ?thesis by simp
qed simp

lemma bh_mirror [simp]: "rbt col T \<Longrightarrow> bh col (mirror T) = bh col T"
  by (induction T) auto

lemma rbt_mirror [simp]: "rbt col (mirror T) \<longleftrightarrow> rbt col T"
proof (induction T)
  case (Node l x r)
  then show ?case using bh_mirror [of col l] bh_mirror [of col r] by auto
qed simp

lemma crb_mirror [simp]: "crb col (mirror_ctx c) n \<longleftrightarrow> crb col c n"
  by (induction c arbitrary: n rule: ctx_left.induct) (auto 0 3)

end
