(* ===== verification/Rb_Insert.thy ===== *)
theory Rb_Insert
  imports Rb_Shape
begin

text \<open>
  Insertion into the price index. \<open>insert_fixup\<close> restores the red-black conditions below the
  position of a fresh red node and keeps the in-order sequence of nodes; the search of
  \<^verbatim>\<open>try_emplace\<close> ends at the key's node, or at the one place where it belongs with its two
  neighbours at hand.
\<close>

section \<open>The loop of the insert fixup\<close>

definition ins_pos :: "RBPriceIndex \<Rightarrow> step list \<Rightarrow> nat tree \<Rightarrow> bool" where
  "ins_pos t c T \<longleftrightarrow>
     tree_at t (hp c) T \<and> ctx_at t (rt T) c \<and> distinct (inorder (plug c T)) \<and> T \<noteq> Leaf \<and>
     n_color t NIL = BLACK \<and> n_color t (rt T) = RED \<and> rbt (n_color t) T \<and>
     crb (n_color t) c (bh (n_color t) T)"

definition ins_goal :: "RBPriceIndex \<Rightarrow> step list \<Rightarrow> nat tree \<Rightarrow> RBPriceIndex \<times> nat \<Rightarrow> bool" where
  "ins_goal t c T s \<longleftrightarrow> (\<exists>c' T'. snd s = rt T' \<and> ins_pos (fst s) c' T' \<and> length c' < length c \<and>
     inorder (plug c' T') = inorder (plug c T) \<and> same_data t (fst s))"

lemma ins_pos_swap [simp]: "ins_pos (swap_lr t) (mirror_ctx c) (mirror T) \<longleftrightarrow> ins_pos t c T"
  by (cases T) (auto simp: ins_pos_def plug_mirror inorder_mirror simp del: mirror.simps)

lemma ins_goal_swap:
  assumes "ins_goal (swap_lr t) (mirror_ctx c) (mirror T) s"
  shows "ins_goal t c T (swap_lr (fst s), snd s)"
proof -
  from assms obtain c' T' where g: "snd s = rt T'" "ins_pos (fst s) c' T'" "length c' < length c"
    "inorder (plug c' T') = inorder (mirror (plug c T))" "same_data t (fst s)"
    by (auto simp: ins_goal_def plug_mirror)
  have "ins_pos (swap_lr (fst s)) (mirror_ctx c') (mirror T')" using g(2) by simp
  moreover have "inorder (plug (mirror_ctx c') (mirror T')) = inorder (plug c T)"
    using g(4) by (simp add: plug_mirror inorder_mirror)
  ultimately show ?thesis using g unfolding ins_goal_def
    by (intro exI [of _ "mirror_ctx c'"] exI [of _ "mirror T'"]) simp
qed

text \<open>A red parent has a black parent in turn: the position is at least two levels deep.\<close>

lemma ins_pos_red:
  assumes "ins_pos t c T" "n_color t (n_parent t (rt T)) = RED"
  obtains s1 s2 c' where "c = s1 # s2 # c'" "n_parent t (rt T) = hp c"
    "n_color t (hp c) = RED" "n_color t (hp (s2 # c')) = BLACK"
proof -
  have p: "n_parent t (rt T) = hp c" using assms(1) by (cases T) (auto simp: ins_pos_def)
  have "c \<noteq> []" using p assms by (auto simp: ins_pos_def)
  then obtain s1 c1 where c: "c = s1 # c1" by (cases c) auto
  then have "c1 \<noteq> [] \<and> n_color t (hp c1) = BLACK" using assms p by (cases s1) (auto simp: ins_pos_def)
  then obtain s2 c' where "c1 = s2 # c'" "n_color t (hp (s2 # c')) = BLACK" by (cases c1) auto
  with that c p assms show thesis by metis
qed

text \<open>The recolouring case: the uncle is red, the loop moves up two levels.\<close>

lemma ins_recolor:
  assumes pos: "ins_pos t (s1 # Lstep g U # c) T" and p: "p = hp (s1 # Lstep g U # c)"
    and col: "n_color t p = RED" "n_color t g = BLACK" "n_color t (rt U) = RED"
  shows "ins_goal t (s1 # Lstep g U # c) T
    (set_color g RED (set_color (rt U) BLACK (set_color p BLACK t)), g)"
proof -
  let ?col = "n_color t"
  obtain ul u ur where U: "U = Node ul u ur" using pos col(3) by (cases U) (auto simp: ins_pos_def)
  let ?k = "(?col(p := BLACK, u := BLACK))(g := RED)"
  obtain l z r where T: "T = Node l z r" using pos by (cases T) (auto simp: ins_pos_def)
  have d: "distinct (ctx_left c @ inorder (plug [s1] T) @ g # inorder U @ ctx_right c)"
    using pos by (cases s1) (auto simp: ins_pos_def inorder_plug)
  have g0: "g \<noteq> NIL" "p \<noteq> NIL" "u \<noteq> NIL" using pos p U by (cases s1; auto simp: ins_pos_def)+
  have same: "rbt ?k S = rbt ?col S \<and> bh ?k S = bh ?col S \<and> ?k (rt S) = ?col (rt S)"
    if "p \<notin> set_tree S" "u \<notin> set_tree S" "g \<notin> set_tree S" for S
    using that U g0 by (intro col_cong) auto
  have sc: "crb ?k c n = crb ?col c n" for n
    using d U p g0 by (intro crb_cong; cases s1) auto
  let ?t = "set_color g RED (set_color (rt U) BLACK (set_color p BLACK t))"
  let ?T = "plug [s1, Lstep g U] T"
  have col': "n_color ?t = ?k" by (simp add: U)
  have ne: "p \<noteq> g" "u \<noteq> p" "u \<noteq> g" using d U p by (cases s1; auto)+
  have P: "rbt ?col T" "crb ?col (s1 # Lstep g U # c) (bh ?col T)" "?col (rt T) = RED"
    "?col NIL = BLACK" using pos by (simp_all add: ins_pos_def)
  have "rbt ?k ?T \<and> crb ?k c (bh ?k ?T)"
  proof (cases s1)
    case (Lstep q S)
    with p have q: "q = p" by simp
    have k: "rbt ?k X = rbt ?col X \<and> bh ?k X = bh ?col X \<and> ?k (rt X) = ?col (rt X)"
      if "X = T \<or> X = S \<or> X = ul \<or> X = ur" for X
      by (rule same) (use d that U in \<open>auto simp: Lstep q\<close>)
    show ?thesis using P col ne k [of T] k [of S] k [of ul] k [of ur]
      by (simp add: Lstep q U sc)
  next
    case (Rstep S q)
    with p have q: "q = p" by simp
    have k: "rbt ?k X = rbt ?col X \<and> bh ?k X = bh ?col X \<and> ?k (rt X) = ?col (rt X)"
      if "X = T \<or> X = S \<or> X = ul \<or> X = ur" for X
      by (rule same) (use d that U in \<open>auto simp: Rstep q\<close>)
    show ?thesis using P col ne k [of T] k [of S] k [of ul] k [of ur]
      by (simp add: Rstep q U sc)
  qed
  moreover have "tree_at t (hp c) ?T \<and> ctx_at t (rt ?T) c \<and> distinct (inorder (plug c ?T)) \<and> ?T \<noteq> Leaf"
    using pos by (cases s1) (simp_all add: ins_pos_def)
  moreover have "?k NIL = BLACK" "?k (rt ?T) = RED" using P(4) g0 U by (cases s1; simp)+
  ultimately have "ins_pos ?t c ?T" unfolding ins_pos_def col' by simp
  moreover have "rt ?T = g" "plug c ?T = plug (s1 # Lstep g U # c) T" by (cases s1; simp)+
  ultimately show ?thesis unfolding ins_goal_def by (intro exI [of _ c] exI [of _ ?T]) simp
qed

text \<open>The final rotation: the grandparent sinks below the parent.\<close>

lemma ins_rotate:
  assumes pos: "ins_pos t (Lstep p b # Lstep g U # c) T"
    and col: "n_color t p = RED" "n_color t g = BLACK" "n_color t (rt U) = BLACK"
  shows "ins_goal t (Lstep p b # Lstep g U # c) T
    (rotate_right g (set_color g RED (set_color p BLACK t)), rt T)"
proof -
  let ?col = "n_color t"
  let ?k = "?col(p := BLACK, g := RED)"
  let ?t = "rotate_right g (set_color g RED (set_color p BLACK t))"
  have d: "distinct (ctx_left c @ inorder T @ p # inorder b @ g # inorder U @ ctx_right c)"
    using pos by (auto simp: ins_pos_def inorder_plug)
  have g0: "g \<noteq> NIL" "p \<noteq> NIL" using pos by (auto simp: ins_pos_def)
  have k: "rbt ?k X = rbt ?col X \<and> bh ?k X = bh ?col X \<and> ?k (rt X) = ?col (rt X)"
    if "X = T \<or> X = b \<or> X = U" for X
    using that d g0 by (intro col_cong) auto
  have sc: "crb ?k c n = crb ?col c n" for n
    using d g0 by (intro crb_cong) auto
  have P: "rbt ?col T" "crb ?col (Lstep p b # Lstep g U # c) (bh ?col T)" "?col (rt T) = RED"
    "?col NIL = BLACK" "T \<noteq> Leaf" using pos by (simp_all add: ins_pos_def)
  have at: "tree_at t (hp c) (Node (Node T p b) g U)" "ctx_at t g c"
    "distinct (inorder (plug c (Node (Node T p b) g U)))"
    using pos by (simp_all add: ins_pos_def)
  note rot = rotate_right_at [OF at(2,1,3)]
  have "rbt ?k T \<and> crb ?k (Lstep p (Node b g U) # c) (bh ?k T) \<and> ?k (rt T) = RED"
    using P col d k [of T] k [of b] k [of U] by (simp add: sc)
  moreover have "tree_at ?t p T" "ctx_at ?t (rt T) (Lstep p (Node b g U) # c)"
    using rot by simp_all
  moreover have "distinct (inorder (plug (Lstep p (Node b g U) # c) T))"
    using d by (simp add: inorder_plug)
  moreover have "?k NIL = BLACK" "n_color ?t = ?k" using P(4) g0 by simp_all
  ultimately have "ins_pos ?t (Lstep p (Node b g U) # c) T"
    unfolding ins_pos_def using P(5) by (simp only: hp.simps simp_thms)
  moreover have "inorder (plug (Lstep p (Node b g U) # c) T) =
      inorder (plug (Lstep p b # Lstep g U # c) T)" by (simp add: inorder_plug)
  ultimately show ?thesis unfolding ins_goal_def
    by (intro exI [of _ "Lstep p (Node b g U) # c"] exI [of _ T]) simp
qed

text \<open>The inner case: a first rotation makes it the outer one.\<close>

lemma ins_inner:
  assumes pos: "ins_pos t (Rstep a p # Lstep g U # c) (Node b z d)"
    and col: "n_color t p = RED" "n_color t g = BLACK"
  shows "ins_pos (rotate_left p t) (Lstep z d # Lstep g U # c) (Node a p b)"
proof -
  have at: "tree_at t (hp (Lstep g U # c)) (Node a p (Node b z d))" "ctx_at t p (Lstep g U # c)"
    "distinct (inorder (plug (Lstep g U # c) (Node a p (Node b z d))))"
    using pos by (simp_all add: ins_pos_def)
  note rot = rotate_left_at [OF at(2,1,3)]
  have "tree_at (rotate_left p t) z (Node a p b)"
    "ctx_at (rotate_left p t) p (Lstep z d # Lstep g U # c)"
    using rot by simp_all
  moreover have "distinct (inorder (plug (Lstep z d # Lstep g U # c) (Node a p b)))"
    using at(3) by (simp add: inorder_plug)
  ultimately show ?thesis using pos col by (auto simp: ins_pos_def)
qed

lemma insert_step_left:
  assumes pos: "ins_pos t (s1 # Lstep g U # c) T" and p: "p = hp (s1 # Lstep g U # c)"
    and col: "n_color t p = RED" "n_color t g = BLACK"
  shows "ins_goal t (s1 # Lstep g U # c) T (insert_fixup_step (t, rt T))"
proof -
  obtain b z d where T: "T = Node b z d" using pos by (cases T) (auto simp: ins_pos_def)
  have ln: "n_parent t z = p" "n_parent t p = g" "n_left t g = p" "n_right t g = rt U"
    using pos p T by (cases s1; simp add: ins_pos_def)+
  show ?thesis
  proof (cases "n_color t (rt U) = RED")
    case True
    then have "insert_fixup_step (t, rt T) =
        (set_color g RED (set_color (rt U) BLACK (set_color p BLACK t)), g)"
      by (simp add: insert_fixup_step_def T ln Let_def)
    with ins_recolor [OF pos p col True] show ?thesis by simp
  next
    case black: False
    then have U: "n_color t (rt U) = BLACK" by simp
    show ?thesis
    proof (cases s1)
      case (Lstep q S)
      then have q: "q = p" using p by simp
      have S: "n_right t p = rt S" "z \<noteq> rt S" "z \<noteq> NIL" "p \<noteq> z" "g \<noteq> z" "p \<noteq> g"
        using pos T rt_in_set [of S] by (cases "S = Leaf"; auto simp: ins_pos_def inorder_plug Lstep q)+
      have "insert_fixup_step (t, rt T) = (rotate_right g (set_color g RED (set_color p BLACK t)), z)"
        using U S by (simp add: insert_fixup_step_def T ln Let_def)
      with ins_rotate [OF pos [unfolded Lstep q] col U] show ?thesis by (simp add: Lstep q T)
    next
      case (Rstep S q)
      then have q: "q = p" using p by simp
      have S: "n_right t p = z" "p \<noteq> z" "g \<noteq> z" "p \<noteq> g"
        using pos T by (auto simp: ins_pos_def inorder_plug Rstep q)
      note in1 = ins_inner [OF pos [unfolded Rstep q T] col]
      let ?t = "rotate_left p t"
      have z: "n_color t z = RED" using pos by (simp add: ins_pos_def T)
      have ln': "n_parent ?t p = z" "n_parent ?t z = g" using in1 by (simp_all add: ins_pos_def)
      have "insert_fixup_step (t, rt T) = (rotate_right g (set_color g RED (set_color z BLACK ?t)), p)"
        using U S by (simp add: insert_fixup_step_def T ln ln' Let_def)
      moreover have "ins_goal ?t (Lstep z d # Lstep g U # c) (Node S p b)
          (rotate_right g (set_color g RED (set_color z BLACK ?t)), rt (Node S p b))"
        by (rule ins_rotate [OF in1]) (use z col U in simp_all)
      ultimately show ?thesis by (simp add: ins_goal_def inorder_plug Rstep q T)
    qed
  qed
qed

text \<open>The second branch of the step is the first one on the mirror image.\<close>

lemma insert_step_mirror:
  assumes "n_parent t z \<noteq> n_left t (n_parent t (n_parent t z))"
    "n_parent t z = n_right t (n_parent t (n_parent t z))"
  shows "insert_fixup_step (t, z) =
    (let s = insert_fixup_step (swap_lr t, z) in (swap_lr (fst s), snd s))"
  using assms by (simp add: insert_fixup_step_def Let_def rotate_right_swap)

lemma insert_step:
  assumes pos: "ins_pos t c T" and red: "n_color t (n_parent t (rt T)) = RED"
  shows "ins_goal t c T (insert_fixup_step (t, rt T))"
proof -
  from ins_pos_red [OF assms] obtain s1 s2 c' where c: "c = s1 # s2 # c'"
    and p: "n_parent t (rt T) = hp c" "n_color t (hp c) = RED" "n_color t (hp (s2 # c')) = BLACK"
    by metis
  show ?thesis
  proof (cases s2)
    case (Lstep g U)
    show ?thesis using insert_step_left [of t s1 g U c' T "hp c"] pos p c Lstep by simp
  next
    case (Rstep U g)
    have ln: "n_parent t (hp c) = g" "n_right t g = hp c" "n_left t g = rt U"
      using pos by (cases s1; simp add: ins_pos_def c Rstep)+
    have "hp c \<noteq> rt U" using pos rt_in_set [of U]
      by (cases s1; cases "U = Leaf") (auto simp: ins_pos_def c Rstep inorder_plug)
    then have eq: "insert_fixup_step (t, rt T) =
        (let s = insert_fixup_step (swap_lr t, rt (mirror T)) in (swap_lr (fst s), snd s))"
      using insert_step_mirror [of t "rt T"] ln p by simp
    have pos': "ins_pos (swap_lr t) (mirror_step s1 # Lstep g (mirror U) # mirror_ctx c') (mirror T)"
      using pos ins_pos_swap [of t c T] by (simp add: c Rstep)
    have "hp (mirror_step s1 # Lstep g (mirror U) # mirror_ctx c') = hp c"
      using hp_mirror [of c] by (simp add: c Rstep)
    then have "ins_goal (swap_lr t) (mirror_step s1 # Lstep g (mirror U) # mirror_ctx c') (mirror T)
        (insert_fixup_step (swap_lr t, rt (mirror T)))"
      using p Rstep by (intro insert_step_left [OF pos']) simp_all
    then have "ins_goal (swap_lr t) (mirror_ctx c) (mirror T)
        (insert_fixup_step (swap_lr t, rt (mirror T)))" by (simp add: c Rstep)
    from ins_goal_swap [OF this] show ?thesis by (simp add: eq Let_def)
  qed
qed

text \<open>The loop ends, since every iteration moves up.\<close>

definition fixup_done :: "RBPriceIndex \<Rightarrow> nat list \<Rightarrow> RBPriceIndex \<Rightarrow> nat tree \<Rightarrow> bool" where
  "fixup_done t xs t' R \<longleftrightarrow>
     tree_at t' NIL R \<and> rb_root t' = rt R \<and> inorder R = xs \<and> rbt (n_color t') R \<and>
     n_color t' (rt R) = BLACK \<and> n_color t' NIL = BLACK \<and> same_data t t'"

lemma insert_loop:
  assumes "ins_pos t c T"
  shows "\<exists>t' c' T'. while (\<lambda>(t, z). n_color t (n_parent t z) = RED) insert_fixup_step (t, rt T) =
      (t', rt T') \<and> ins_pos t' c' T' \<and> n_color t' (hp c') = BLACK \<and>
      inorder (plug c' T') = inorder (plug c T) \<and> same_data t t'"
  using assms
proof (induction "length c" arbitrary: t c T rule: less_induct)
  case less
  let ?w = "while (\<lambda>(t, z). n_color t (n_parent t z) = RED) insert_fixup_step"
  have p: "n_parent t (rt T) = hp c" using less.prems by (cases T) (auto simp: ins_pos_def)
  show ?case
  proof (cases "n_color t (hp c) = RED")
    case True
    then have "ins_goal t c T (insert_fixup_step (t, rt T))"
      using insert_step [OF less.prems] p by simp
    then obtain t1 c1 T1 where s: "insert_fixup_step (t, rt T) = (t1, rt T1)" "ins_pos t1 c1 T1"
      "length c1 < length c" "inorder (plug c1 T1) = inorder (plug c T)" "same_data t t1"
      unfolding ins_goal_def by (metis prod.collapse)
    have w: "?w (t, rt T) = ?w (t1, rt T1)" using True p s(1) by (subst while_unfold) simp
    from less.hyps [OF s(3,2)] show ?thesis unfolding w
      using s(4,5) same_data_trans by (metis (no_types, lifting))
  next
    case False
    then have "?w (t, rt T) = (t, rt T)" using p by (subst while_unfold) simp
    with False less.prems show ?thesis by fastforce
  qed
qed

lemma insert_fixup_done:
  assumes "ins_pos t c T"
  shows "\<exists>R. fixup_done t (inorder (plug c T)) (insert_fixup (rt T) t) R"
proof -
  from insert_loop [OF assms] obtain t' c' T' where
    w: "while (\<lambda>(t, z). n_color t (n_parent t z) = RED) insert_fixup_step (t, rt T) = (t', rt T')"
    and pos: "ins_pos t' c' T'" and b: "n_color t' (hp c') = BLACK"
    and keep: "inorder (plug c' T') = inorder (plug c T)" "same_data t t'" by blast
  let ?R = "plug c' T'"
  have at: "tree_at t' NIL ?R" "rb_root t' = rt ?R"
    using pos plug_at [of t' c' T'] by (auto simp: ins_pos_def)
  have f: "insert_fixup (rt T) t = set_color (rt ?R) BLACK t'"
    using w at(2) by (simp add: insert_fixup_def Let_def)
  let ?k = "(n_color t')(rt ?R := BLACK)"
  have "rbt ?k ?R"
  proof (cases c')
    case Nil
    then show ?thesis using pos by (auto simp: ins_pos_def intro: rbt_blacken)
  next
    case (Cons a d)
    then have ok: "rbt (n_color t') ?R" "n_color t' (rt ?R) = BLACK"
      using pos b rbt_plug [of "n_color t'" c' T'] by (auto simp: ins_pos_def red_ok_def)
    then have "?k = n_color t'" by auto
    with ok show ?thesis by simp
  qed
  moreover have "n_color t' NIL = BLACK" using pos by (simp add: ins_pos_def)
  ultimately show ?thesis unfolding f fixup_done_def using at keep
    by (intro exI [of _ ?R]) simp
qed

section \<open>The index as an ordered sequence\<close>

text \<open>
  \<open>rb_rep t R\<close>: the links of \<open>t\<close> form the red-black tree \<open>R\<close>, the neighbour list threads its
  nodes in order, and the free list holds the rest of the pool. \<open>index_ok prec t xs\<close>: the
  iterators of \<open>t\<close>, from \<^verbatim>\<open>begin()\<close> on, are \<open>xs\<close> and their keys strictly ascend in \<open>prec\<close>.
\<close>

definition rb_rep :: "RBPriceIndex \<Rightarrow> nat tree \<Rightarrow> bool" where
  "rb_rep t R \<longleftrightarrow>
     tree_at t NIL R \<and> rb_root t = rt R \<and> distinct (inorder R) \<and>
     rbt (n_color t) R \<and> n_color t (rt R) = BLACK \<and> n_color t NIL = BLACK \<and>
     chain (n_succ t) (n_pred t) NIL (inorder R) NIL \<and> rb_begin t = first NIL (inorder R) \<and>
     rb_size t = length (inorder R) \<and> distinct (rb_free t) \<and>
     set (rb_free t) \<inter> set_tree R = {} \<and> set (rb_free t) \<union> set_tree R = {1..rb_capacity t}"

definition index_ok :: "(PriceTick \<Rightarrow> PriceTick \<Rightarrow> bool) \<Rightarrow> RBPriceIndex \<Rightarrow> nat list \<Rightarrow> bool" where
  "index_ok prec t xs \<longleftrightarrow>
     (\<exists>R. rb_rep t R \<and> inorder R = xs) \<and> sorted_wrt prec (map (n_key t) xs)"

lemma rb_rep_free:
  assumes "rb_rep t R" "i \<in> set (rb_free t)"
  shows "i \<noteq> NIL" "i \<notin> set_tree R"
proof -
  have "i \<in> {1..rb_capacity t}" using assms unfolding rb_rep_def by blast
  then show "i \<noteq> NIL" by simp
  show "i \<notin> set_tree R" using assms by (auto simp: rb_rep_def)
qed

text \<open>The comparator of the template: \<^verbatim>\<open>std::less\<close> for asks, \<^verbatim>\<open>std::greater\<close> for bids.\<close>

locale price_order =
  fixes prec :: "PriceTick \<Rightarrow> PriceTick \<Rightarrow> bool"
  assumes irrefl: "\<not> prec a a"
    and trans: "prec a b \<Longrightarrow> prec b c \<Longrightarrow> prec a c"
    and total: "a = b \<or> prec a b \<or> prec b a"
begin

lemma asym: "prec a b \<Longrightarrow> \<not> prec b a"
  using irrefl trans by blast

text \<open>
  The search from a position: it ends at the node with the key, or at an empty position with
  the smaller keys to its left and the larger ones to its right.
\<close>

lemma emplace_search_at:
  assumes "tree_at t (hp c) T" "ctx_at t (rt T) c" "sorted_wrt prec (map (n_key t) (inorder T))"
    "\<forall>x \<in> set (ctx_left c). prec (n_key t x) p" "\<forall>x \<in> set (ctx_right c). prec p (n_key t x)"
    "emplace_search prec p t (hp c, rt T, final NIL (ctx_left c), first NIL (ctx_right c)) =
      (y, x, pd, sc)"
  shows "x \<noteq> NIL \<and> x \<in> set_tree T \<and> n_key t x = p \<or>
    x = NIL \<and> (\<exists>d. y = hp d \<and> pd = final NIL (ctx_left d) \<and> sc = first NIL (ctx_right d) \<and>
      plug d Leaf = plug c T \<and>
      (\<forall>x \<in> set (ctx_left d). prec (n_key t x) p) \<and> (\<forall>x \<in> set (ctx_right d). prec p (n_key t x)))"
  using assms
proof (induction T arbitrary: c)
  case Leaf
  then have "(y, x, pd, sc) = (hp c, NIL, final NIL (ctx_left c), first NIL (ctx_right c))"
    by (simp add: emplace_search_def while_unfold)
  with Leaf show ?case by auto
next
  case (Node l z r)
  let ?s = "emplace_search prec p t"
  have so: "sorted_wrt prec (map (n_key t) (inorder l))" "sorted_wrt prec (map (n_key t) (inorder r))"
    "\<forall>x \<in> set_tree l. prec (n_key t x) (n_key t z)" "\<forall>x \<in> set_tree r. prec (n_key t z) (n_key t x)"
    using Node.prems(3) by (auto simp: sorted_wrt_append)
  have z: "z \<noteq> NIL" "n_left t z = rt l" "n_right t z = rt r" using Node.prems(1) by auto
  consider "p = n_key t z" | "prec p (n_key t z)" | "prec (n_key t z) p" using total by blast
  then show ?case
  proof cases
    case 1
    then have "x = z" using Node.prems(6) by (simp add: emplace_search_def while_unfold)
    with z 1 show ?thesis by simp
  next
    case 2
    let ?c = "Lstep z r # c"
    have "p \<noteq> n_key t z" using 2 irrefl by auto
    then have eq: "?s (hp c, z, final NIL (ctx_left c), first NIL (ctx_right c)) =
        ?s (hp ?c, rt l, final NIL (ctx_left ?c), first NIL (ctx_right ?c))"
      using 2 z unfolding emplace_search_def by (subst while_unfold) simp
    have "\<forall>x \<in> set (ctx_right ?c). prec p (n_key t x)" using Node.prems(5) so(4) 2 trans by auto
    with Node.IH(1) [of ?c] Node.prems so z eq show ?thesis by (simp, blast)
  next
    case 3
    let ?c = "Rstep l z # c"
    have "p \<noteq> n_key t z" "\<not> prec p (n_key t z)" using 3 irrefl asym by auto
    then have eq: "?s (hp c, z, final NIL (ctx_left c), first NIL (ctx_right c)) =
        ?s (hp ?c, rt r, final NIL (ctx_left ?c), first NIL (ctx_right ?c))"
      using z unfolding emplace_search_def by (subst while_unfold) simp
    have "\<forall>x \<in> set (ctx_left ?c). prec (n_key t x) p" using Node.prems(4) so(3) 3 trans by auto
    with Node.IH(2) [of ?c] Node.prems so z eq show ?thesis by (simp, blast)
  qed
qed

lemma rb_find_at:
  assumes "tree_at t q T" "sorted_wrt prec (map (n_key t) (inorder T))"
    "x = while (\<lambda>x. x \<noteq> NIL \<and> p \<noteq> n_key t x)
       (\<lambda>x. if prec p (n_key t x) then n_left t x else n_right t x) (rt T)"
  shows "x \<in> set_tree T \<and> n_key t x = p \<or> x = NIL \<and> p \<notin> n_key t ` set_tree T"
  using assms
proof (induction T arbitrary: q)
  case Leaf
  then show ?case by (simp add: while_unfold)
next
  case (Node l z r)
  have so: "sorted_wrt prec (map (n_key t) (inorder l))" "sorted_wrt prec (map (n_key t) (inorder r))"
    "\<forall>x \<in> set_tree l. prec (n_key t x) (n_key t z)" "\<forall>x \<in> set_tree r. prec (n_key t z) (n_key t x)"
    using Node.prems(2) by (auto simp: sorted_wrt_append)
  have z: "z \<noteq> NIL" "n_left t z = rt l" "n_right t z = rt r" "tree_at t z l" "tree_at t z r"
    using Node.prems(1) by auto
  consider "p = n_key t z" | "prec p (n_key t z)" | "prec (n_key t z) p" using total by blast
  then show ?case
  proof cases
    case 1
    then show ?thesis using Node.prems(3) by (simp add: while_unfold)
  next
    case 2
    have ne: "p \<noteq> n_key t z" "p \<notin> n_key t ` set_tree r" using 2 irrefl asym so(4) trans by blast+
    with Node.prems(3) 2 z have "x = while (\<lambda>x. x \<noteq> NIL \<and> p \<noteq> n_key t x)
       (\<lambda>x. if prec p (n_key t x) then n_left t x else n_right t x) (rt l)"
      by (subst (asm) while_unfold) simp
    with Node.IH(1) [OF z(4) so(1)] ne show ?thesis by auto
  next
    case 3
    have ne: "p \<noteq> n_key t z" "\<not> prec p (n_key t z)" "p \<notin> n_key t ` set_tree l"
      using 3 irrefl asym so(3) trans by blast+
    with Node.prems(3) z have "x = while (\<lambda>x. x \<noteq> NIL \<and> p \<noteq> n_key t x)
       (\<lambda>x. if prec p (n_key t x) then n_left t x else n_right t x) (rt r)"
      by (subst (asm) while_unfold) simp
    with Node.IH(2) [OF z(5) so(2)] ne show ?thesis by auto
  qed
qed

lemma rb_find_ok:
  assumes "index_ok prec t xs"
  shows "rb_find prec p t \<in> set xs \<and> n_key t (rb_find prec p t) = p \<or>
    rb_find prec p t = NIL \<and> p \<notin> n_key t ` set xs"
proof -
  from assms obtain R where R: "rb_rep t R" "inorder R = xs" "sorted_wrt prec (map (n_key t) xs)"
    by (auto simp: index_ok_def)
  then have "set xs = set_tree R" by auto
  with rb_find_at [of t NIL R "rb_find prec p t" p] R show ?thesis
    by (simp add: rb_rep_def rb_find_def)
qed

text \<open>The fresh node, linked in but not yet rebalanced.\<close>

lemma emplace_link_ok:
  assumes R: "rb_rep t (plug d Leaf)" and free: "rb_free t = z # fr" and al: "rb_alloc t = Inr (z, t1)"
    and lo: "\<forall>x \<in> set (ctx_left d). prec (n_key t x) p"
    and hi: "\<forall>x \<in> set (ctx_right d). prec p (n_key t x)"
    and t2: "t2 = emplace_link prec p (hp d, final NIL (ctx_left d), first NIL (ctx_right d)) z t1"
  shows "ins_pos t2 d (Node Leaf z Leaf)"
    "chain (n_succ t2) (n_pred t2) NIL (ctx_left d @ z # ctx_right d) NIL"
    "rb_begin t2 = first NIL (ctx_left d @ z # ctx_right d)"
    "n_key t2 = (n_key t)(z := p)" "n_val t2 = (n_val t)(z := PriceLevel_init)"
    "rb_free t2 = fr" "rb_capacity t2 = rb_capacity t" "rb_size t2 = rb_size t"
proof -
  have at: "ctx_at t NIL d" "distinct (ctx_left d @ ctx_right d)"
    "chain (n_succ t) (n_pred t) NIL (ctx_left d @ ctx_right d) NIL"
    "rb_begin t = first NIL (ctx_left d @ ctx_right d)"
    using R plug_at [of t d Leaf] by (auto simp: rb_rep_def inorder_plug)
  have "set_tree (plug d Leaf) = cset d"
    by (metis append.left_neutral inorder.simps(1) inorder_plug set_append set_inorder)
  then have z: "z \<notin> cset d" "z \<noteq> NIL" using rb_rep_free [OF R, of z] free by simp_all
  have hpd: "hp d = NIL \<longleftrightarrow> d = []" "d \<noteq> [] \<Longrightarrow> hp d \<noteq> z"
    using hp_nil [OF at(1)] hp_in_cset [of d] z by auto
  have nn: "NIL \<notin> cset d" using ctx_at_nonnil [OF at(1)] by auto
  then have pn: "final NIL (ctx_left d) = NIL \<longleftrightarrow> ctx_left d = []"
    "first NIL (ctx_right d) = NIL \<longleftrightarrow> ctx_right d = []"
    by (simp_all add: final_eq_sentinel first_eq_sentinel)
  have pz: "ctx_left d \<noteq> [] \<Longrightarrow> final NIL (ctx_left d) \<noteq> z"
    "ctx_right d \<noteq> [] \<Longrightarrow> first NIL (ctx_right d) \<noteq> z"
    using z(1) final_in_set [of "ctx_left d" NIL] first_in_set [of "ctx_right d" NIL] by auto
  have side: "d \<noteq> [] \<Longrightarrow> prec p (n_key t (hp d)) \<longleftrightarrow> is_lstep d"
    using lo hi asym by (cases d rule: hp.cases) auto
  have t1: "t1 = set_color z BLACK (set_succ z NIL (set_pred z NIL (set_parent z NIL
      (set_right z NIL (set_left z NIL (set_val z PriceLevel_init (set_key z 0
      (t\<lparr>rb_free := fr\<rparr>))))))))"
    using al free by (simp add: rb_alloc_def)
  note def = t2 emplace_link_def Let_def t1
  have f: "n_left t2 = (if d \<noteq> [] \<and> is_lstep d then ((n_left t)(z := NIL))(hp d := z) else (n_left t)(z := NIL))"
    "n_right t2 = (if d \<noteq> [] \<and> \<not> is_lstep d then ((n_right t)(z := NIL))(hp d := z) else (n_right t)(z := NIL))"
    "n_parent t2 = (n_parent t)(z := hp d)" "n_color t2 = (n_color t)(z := RED)"
    "rb_root t2 = (if d = [] then z else rb_root t)"
    "n_succ t2 = (if ctx_left d = [] then (n_succ t)(z := first NIL (ctx_right d))
      else ((n_succ t)(z := first NIL (ctx_right d)))(final NIL (ctx_left d) := z))"
    "n_pred t2 = (if ctx_right d = [] then (n_pred t)(z := final NIL (ctx_left d))
      else ((n_pred t)(z := final NIL (ctx_left d)))(first NIL (ctx_right d) := z))"
    using hpd side by (simp_all add: def pn)
  show keep: "n_key t2 = (n_key t)(z := p)" "n_val t2 = (n_val t)(z := PriceLevel_init)"
    "rb_free t2 = fr" "rb_capacity t2 = rb_capacity t" "rb_size t2 = rb_size t"
    by (simp_all add: def)
  show "rb_begin t2 = first NIL (ctx_left d @ z # ctx_right d)"
    using at(4) pn by (cases "ctx_left d") (simp_all add: def)
  show "chain (n_succ t2) (n_pred t2) NIL (ctx_left d @ z # ctx_right d) NIL"
    by (rule chain_insert [OF at(3,2)]) (use z pz in \<open>auto simp: f\<close>)
  have "ctx_at t2 z d"
    by (rule ctx_at_rehole [OF at(1,2)]) (use z hpd in \<open>auto simp: f\<close>)
  moreover have "crb (n_color t2) d 0 = crb (n_color t) d 0"
    by (rule crb_cong) (use z in \<open>auto simp: f\<close>)
  moreover have "crb (n_color t) d 0"
    using R rbt_plug [of "n_color t" d Leaf] by (simp add: rb_rep_def)
  moreover have "distinct (inorder (plug d (Node Leaf z Leaf)))"
    using at(2) z by (auto simp: inorder_plug)
  ultimately show "ins_pos t2 d (Node Leaf z Leaf)"
    using R z hpd unfolding ins_pos_def by (auto simp: f rb_rep_def)
qed

lemma try_emplace_found:
  assumes ok: "index_ok prec t xs" and i: "i \<in> set xs" "n_key t i = p"
  shows "try_emplace prec p t = Inr (i, False, t)"
proof -
  from ok obtain R where R: "rb_rep t R" "inorder R = xs" and so: "sorted_wrt prec (map (n_key t) xs)"
    by (auto simp: index_ok_def)
  obtain y x pd sc where s: "emplace_search prec p t (NIL, rb_root t, NIL, NIL) = (y, x, pd, sc)"
    by (metis prod_cases4)
  have xs: "set xs = set_tree R" using R by auto
  from emplace_search_at [of t "[]" R p y x pd sc] R so s
  consider "x \<noteq> NIL" "x \<in> set_tree R" "n_key t x = p"
    | d where "plug d Leaf = R" "\<forall>x \<in> set (ctx_left d). prec (n_key t x) p"
      "\<forall>x \<in> set (ctx_right d). prec p (n_key t x)" by (auto simp: rb_rep_def)
  then show ?thesis
  proof cases
    case 1
    have "inj_on (n_key t) (set xs)"
      using so irrefl by (auto simp: inj_on_def sorted_wrt_iff_nth_less in_set_conv_nth)
        (metis nat_neq_iff nth_map)
    then have "x = i" using 1 i xs by (auto dest: inj_onD)
    with 1 s show ?thesis by (simp add: try_emplace_def)
  next
    case 2
    then have "\<forall>x \<in> set xs. n_key t x \<noteq> p" using R(2) irrefl
      by (metis UnE append_Nil inorder.simps(1) inorder_plug set_append)
    with i show ?thesis by blast
  qed
qed

lemma try_emplace_new:
  assumes ok: "index_ok prec t xs" and new: "p \<notin> n_key t ` set xs"
  shows "rb_free t = [] \<Longrightarrow> try_emplace prec p t = Inl Bad_alloc"
    "rb_free t = z # fr \<Longrightarrow> \<exists>t' ls rs. try_emplace prec p t = Inr (z, True, t') \<and> xs = ls @ rs \<and>
      index_ok prec t' (ls @ z # rs) \<and> (\<forall>x \<in> set ls. prec (n_key t x) p) \<and>
      (\<forall>x \<in> set rs. prec p (n_key t x)) \<and> z \<notin> set xs \<and> z \<noteq> NIL \<and> n_key t' = (n_key t)(z := p) \<and>
      n_val t' = (n_val t)(z := PriceLevel_init) \<and> rb_free t' = fr \<and> rb_capacity t' = rb_capacity t"
proof -
  from ok obtain R where R: "rb_rep t R" "inorder R = xs" and so: "sorted_wrt prec (map (n_key t) xs)"
    by (auto simp: index_ok_def)
  obtain y x pd sc where s: "emplace_search prec p t (NIL, rb_root t, NIL, NIL) = (y, x, pd, sc)"
    by (metis prod_cases4)
  have xs: "set xs = set_tree R" using R by auto
  from emplace_search_at [of t "[]" R p y x pd sc] R so s new xs
  obtain d where d: "plug d Leaf = R" "\<forall>x \<in> set (ctx_left d). prec (n_key t x) p"
    "\<forall>x \<in> set (ctx_right d). prec p (n_key t x)" and
    e: "x = NIL" "y = hp d" "pd = final NIL (ctx_left d)" "sc = first NIL (ctx_right d)"
    by (auto simp: rb_rep_def)
  show "rb_free t = [] \<Longrightarrow> try_emplace prec p t = Inl Bad_alloc"
    using s e by (simp add: try_emplace_def rb_alloc_def)
  assume free: "rb_free t = z # fr"
  then obtain t1 where al: "rb_alloc t = Inr (z, t1)" by (simp add: rb_alloc_def)
  define t2 where "t2 = emplace_link prec p (hp d, final NIL (ctx_left d), first NIL (ctx_right d)) z t1"
  note link = emplace_link_ok [OF R(1) [folded d(1)] free al d(2,3) t2_def]
  from insert_fixup_done [OF link(1)] obtain R' where
    fd: "fixup_done t2 (inorder (plug d (Node Leaf z Leaf))) (insert_fixup z t2) R'" by auto
  define t' where "t' = (insert_fixup z t2)\<lparr>rb_size := rb_size (insert_fixup z t2) + 1\<rparr>"
  have xs': "xs = ctx_left d @ ctx_right d" "inorder R' = ctx_left d @ z # ctx_right d"
    using R(2) d(1) fd by (auto simp: fixup_done_def inorder_plug)
  have z: "z \<noteq> NIL" "z \<notin> set_tree R" using rb_rep_free [OF R(1), of z] free by simp_all
  have zd: "z \<notin> set (ctx_left d)" "z \<notin> set (ctx_right d)" using z xs xs'(1) by auto
  have tR': "set_tree R' = insert z (set_tree R)"
    using xs' xs by (metis Un_insert_right list.simps(15) set_append set_inorder)
  have "tree_at t' NIL R'" using fd tree_at_cong [of R' "insert_fixup z t2" t' NIL]
    by (simp add: fixup_done_def t'_def same_links_def)
  moreover have "set (rb_free t') \<inter> set_tree R' = {}" "set (rb_free t') \<union> set_tree R' = {1..rb_capacity t'}"
    "distinct (rb_free t')"
    using R(1) free fd link z tR' by (auto simp: fixup_done_def rb_rep_def same_data_def t'_def)
  moreover have "distinct (inorder R')" using link(1) fd by (simp add: ins_pos_def fixup_done_def)
  ultimately have "rb_rep t' R'"
    using fd link xs' R d(1) by (auto simp: rb_rep_def fixup_done_def same_data_def t'_def inorder_plug)
  moreover have key: "n_key t' = (n_key t)(z := p)" "n_val t' = (n_val t)(z := PriceLevel_init)"
    "rb_free t' = fr" "rb_capacity t' = rb_capacity t"
    using fd link by (simp_all add: fixup_done_def same_data_def t'_def)
  moreover have "sorted_wrt prec (map (n_key t') (ctx_left d @ z # ctx_right d))"
    using so d(2,3) zd xs'(1) trans by (auto simp: key sorted_wrt_append map_fun_upd)
  ultimately have "index_ok prec t' (ctx_left d @ z # ctx_right d)"
    using xs' by (auto simp: index_ok_def)
  moreover have "try_emplace prec p t = Inr (z, True, t')"
    using s e al by (simp add: try_emplace_def t'_def t2_def Let_def)
  ultimately show "\<exists>t' ls rs. try_emplace prec p t = Inr (z, True, t') \<and> xs = ls @ rs \<and>
      index_ok prec t' (ls @ z # rs) \<and> (\<forall>x \<in> set ls. prec (n_key t x) p) \<and>
      (\<forall>x \<in> set rs. prec p (n_key t x)) \<and> z \<notin> set xs \<and> z \<noteq> NIL \<and> n_key t' = (n_key t)(z := p) \<and>
      n_val t' = (n_val t)(z := PriceLevel_init) \<and> rb_free t' = fr \<and> rb_capacity t' = rb_capacity t"
    using xs' d z xs key by (intro exI [of _ t'] exI [of _ "ctx_left d"] exI [of _ "ctx_right d"]) simp
qed

end

interpretation asks: price_order "(<)"
  by unfold_locales auto

interpretation bids: price_order "(>)"
  by unfold_locales auto

end
