(* ===== verification/Rb_Erase.thy ===== *)
theory Rb_Erase
  imports Rb_Insert
begin

text \<open>
  Erasure from the price index. \<open>delete_fixup\<close> repairs a subtree that is one black node short and
  keeps the in-order sequence; \<open>rb_erase\<close> takes one iterator out of the ordered sequence, leaves
  every other iterator and its level where it was, and returns the node to the free list.
\<close>

section \<open>The loop of the delete fixup\<close>

text \<open>
  The position of the loop variable: a subtree that is one black node short. Its root may be red,
  even below a red parent or above red children: the loop ends there and the root turns black.
\<close>

definition del_pos :: "RBPriceIndex \<Rightarrow> step list \<Rightarrow> nat tree \<Rightarrow> bool" where
  "del_pos t c T \<longleftrightarrow>
     tree_at t (hp c) T \<and> n_parent t (rt T) = hp c \<and> ctx_at t (rt T) c \<and>
     distinct (inorder (plug c T)) \<and> n_color t NIL = BLACK \<and>
     rbt ((n_color t)(rt T := BLACK)) T \<and>
     crb (n_color t) c (bh ((n_color t)(rt T := BLACK)) T + (if n_color t (rt T) = BLACK then 1 else 0))"

definition del_rank :: "RBPriceIndex \<Rightarrow> step list \<Rightarrow> nat tree \<Rightarrow> nat" where
  "del_rank t c T = (if n_color t (rt T) = RED then 0 else length c)"

definition del_goal :: "RBPriceIndex \<Rightarrow> nat \<Rightarrow> nat list \<Rightarrow> RBPriceIndex \<times> nat \<Rightarrow> bool" where
  "del_goal t n xs s \<longleftrightarrow> (\<exists>c' T'. snd s = rt T' \<and> del_pos (fst s) c' T' \<and>
     del_rank (fst s) c' T' < n \<and> inorder (plug c' T') = xs \<and> same_data t (fst s))"

lemma del_pos_black:
  assumes "del_pos t c T" "n_color t (rt T) = BLACK"
  shows "tree_at t (hp c) T" "n_parent t (rt T) = hp c" "ctx_at t (rt T) c"
    "distinct (inorder (plug c T))" "n_color t NIL = BLACK" "rbt (n_color t) T"
    "crb (n_color t) c (bh (n_color t) T + 1)"
proof -
  have "(n_color t)(rt T := BLACK) = n_color t" using assms(2) by auto
  with assms show "tree_at t (hp c) T" "n_parent t (rt T) = hp c" "ctx_at t (rt T) c"
    "distinct (inorder (plug c T))" "n_color t NIL = BLACK" "rbt (n_color t) T"
    "crb (n_color t) c (bh (n_color t) T + 1)" by (simp_all add: del_pos_def)
qed

lemma del_pos_blackI:
  assumes "n_color t (rt T) = BLACK" "tree_at t (hp c) T" "n_parent t (rt T) = hp c"
    "ctx_at t (rt T) c" "distinct (inorder (plug c T))" "n_color t NIL = BLACK"
    "rbt (n_color t) T" "crb (n_color t) c (bh (n_color t) T + 1)"
  shows "del_pos t c T"
proof -
  have "(n_color t)(rt T := BLACK) = n_color t" using assms(1) by auto
  with assms show ?thesis by (simp add: del_pos_def)
qed

lemma del_pos_swap [simp]: "del_pos (swap_lr t) (mirror_ctx c) (mirror T) \<longleftrightarrow> del_pos t c T"
proof -
  have "bh k (mirror T) = bh k T" if "rbt k T" for k using that by simp
  then show ?thesis by (auto simp: del_pos_def plug_mirror inorder_mirror)
qed

lemma del_rank_swap [simp]: "del_rank (swap_lr t) (mirror_ctx c) (mirror T) = del_rank t c T"
  by (cases "n_color t (rt T)") (simp_all add: del_rank_def)

lemma del_goal_swap:
  assumes "del_goal (swap_lr t) n (rev xs) s"
  shows "del_goal t n xs (swap_lr (fst s), snd s)"
proof -
  from assms obtain c' T' where g: "snd s = rt T'" "del_pos (fst s) c' T'"
    "del_rank (fst s) c' T' < n" "inorder (plug c' T') = rev xs" "same_data t (fst s)"
    by (auto simp: del_goal_def)
  have "del_pos (swap_lr (fst s)) (mirror_ctx c') (mirror T')" using g(2) by simp
  moreover have "inorder (plug (mirror_ctx c') (mirror T')) = xs"
    using g(4) by (simp add: plug_mirror inorder_mirror)
  moreover have "del_rank (swap_lr (fst s)) (mirror_ctx c') (mirror T') < n" using g(3) by simp
  ultimately show ?thesis using g unfolding del_goal_def
    by (intro exI [of _ "mirror_ctx c'"] exI [of _ "mirror T'"]) simp
qed

text \<open>The sibling of a black position is not empty.\<close>

lemma del_pos_sibling:
  assumes "del_pos t (Lstep p W # c) T" "n_color t (rt T) = BLACK"
  obtains wl w wr where "W = Node wl w wr" "bh (n_color t) W = bh (n_color t) T + 1"
  using del_pos_black [OF assms] that by (cases W) auto

lemma plug_Node [simp]: "plug c (Node l x r) \<noteq> Leaf"
  by (induction c arbitrary: l x r rule: ctx_left.induct) auto

lemma rotate_parent_nil:
  assumes "ctx_at t x c" "tree_at t (hp c) (Node a x (Node b y d))"
    "distinct (inorder (plug c (Node a x (Node b y d))))"
  shows "n_parent (rotate_left x t) NIL = n_parent t NIL"
  using rotate_left_fields(3) [OF assms] assms(2) rt_nil [of t y b] by (cases b) auto

text \<open>A red sibling is rotated away; the parent is red afterwards.\<close>

lemma df_red_sibling_left_ok:
  assumes pos: "del_pos t (Lstep p W # c) T" and x: "n_color t (rt T) = BLACK"
  shows "\<exists>t' W' c'. df_red_sibling_left (rt T) t = (t', rt W') \<and> del_pos t' (Lstep p W' # c') T \<and>
    n_color t' (rt W') = BLACK \<and> n_color t' (rt T) = BLACK \<and> (c' = c \<or> n_color t' p = RED) \<and>
    inorder (plug (Lstep p W' # c') T) = inorder (plug (Lstep p W # c) T) \<and> same_data t t'"
proof -
  let ?col = "n_color t"
  note b = del_pos_black [OF assms]
  from del_pos_sibling [OF assms] obtain wl w wr where W: "W = Node wl w wr" by metis
  have ln: "n_parent t (rt T) = p" "n_right t p = w" using b W by auto
  show ?thesis
  proof (cases "?col w = RED")
    case False
    then have "df_red_sibling_left (rt T) t = (t, rt W)"
      by (simp add: df_red_sibling_left_def ln W Let_def)
    moreover have "?col (rt W) = BLACK" using False W by simp
    ultimately show ?thesis using assms by (intro exI [of _ t] exI [of _ W] exI [of _ c]) simp
  next
    case True
    let ?k = "?col(w := BLACK, p := RED)"
    let ?t = "rotate_left p (set_color p RED (set_color w BLACK t))"
    have d: "distinct (ctx_left c @ inorder T @ p # inorder wl @ w # inorder wr @ ctx_right c)"
      using b(4) W by (auto simp: inorder_plug)
    have nn: "p \<noteq> NIL" "w \<noteq> NIL" using b W by auto
    have k: "rbt ?k X = rbt ?col X \<and> bh ?k X = bh ?col X \<and> ?k (rt X) = ?col (rt X)"
      if "X = T \<or> X = wl \<or> X = wr" for X
      using that d nn by (intro col_cong) auto
    have sc: "crb ?k c n = crb ?col c n" for n
      using d nn by (intro crb_cong) auto
    have at: "tree_at t (hp c) (Node T p (Node wl w wr))" "ctx_at t p c"
      "distinct (inorder (plug c (Node T p (Node wl w wr))))" using b W by simp_all
    note rot = rotate_left_at [OF at(2,1,3)]
    have kc: "n_color ?t = ?k" by simp
    have par: "n_parent ?t (rt T) = p"
      using rot ln rotate_parent_nil [OF at(2,1,3)] by (cases T) auto
    have "?col p = BLACK" "?col (rt wl) = BLACK" using b(7) True W by (auto split: if_splits)
    moreover have "del_pos ?t (Lstep p wl # Lstep w wr # c) T"
    proof (rule del_pos_blackI)
      have "crb ?k (Lstep p wl # Lstep w wr # c) (bh ?k T + 1)"
        using b(7) True W k [of T] k [of wl] k [of wr] nn d by (auto simp: sc split: if_splits)
      then show "crb (n_color ?t) (Lstep p wl # Lstep w wr # c) (bh (n_color ?t) T + 1)"
        unfolding kc .
    qed (use rot b par k [of T] nn x at d in \<open>simp_all add: inorder_plug\<close>)
    moreover have "df_red_sibling_left (rt T) t = (?t, rt wl)"
      using True rot ln nn d par by (simp add: df_red_sibling_left_def W Let_def)
    ultimately show ?thesis using x nn d k [of wl] k [of T]
      by (intro exI [of _ ?t] exI [of _ wl] exI [of _ "Lstep w wr # c"]) (simp add: W inorder_plug)
  qed
qed

text \<open>A black sibling with black children turns red, and the shortage moves up.\<close>

lemma df_up_left_ok:
  assumes pos: "del_pos t (Lstep p W # c) T" and x: "n_color t (rt T) = BLACK"
    and W: "W = Node wl w wr"
    and col: "n_color t w = BLACK" "n_color t (rt wl) = BLACK" "n_color t (rt wr) = BLACK"
  shows "del_pos (set_color w RED t) c (Node T p W)"
proof -
  let ?col = "n_color t"
  let ?k = "?col(w := RED)"
  note b = del_pos_black [OF pos x]
  have d: "distinct (ctx_left c @ inorder T @ p # inorder wl @ w # inorder wr @ ctx_right c)"
    using b(4) W by (auto simp: inorder_plug)
  have nn: "p \<noteq> NIL" "w \<noteq> NIL" using b W by auto
  let ?q = "?k(p := BLACK)"
  have k: "rbt ?q X = rbt ?col X \<and> bh ?q X = bh ?col X \<and> ?q (rt X) = ?col (rt X)"
    if "X = T \<or> X = wl \<or> X = wr" for X
    using that d nn by (intro col_cong) auto
  have sc: "crb ?k c n = crb ?col c n" for n
    using d nn by (intro crb_cong) auto
  have pw: "p \<noteq> w" using d by auto
  have "rbt ?q (Node T p W)" "bh ?q (Node T p W) = bh ?col T + 1"
    using b(6,7) col W k [of T] k [of wl] k [of wr] pw by simp_all
  moreover have "crb ?k c (bh ?col T + 1 + (if ?k p = BLACK then 1 else 0))"
    using b(7) pw by (simp add: sc)
  ultimately show ?thesis
    using b nn W by (simp add: del_pos_def)
qed

text \<open>A red inner child of the sibling is rotated outwards.\<close>

lemma df_inner_left_ok:
  assumes pos: "del_pos t (Lstep p (Node (Node a v b) w wr) # c) T" and x: "n_color t (rt T) = BLACK"
    and col: "n_color t w = BLACK" "n_color t v = RED" "n_color t (rt wr) = BLACK"
    and t': "t' = rotate_right w (set_color w RED (set_color v BLACK t))"
  shows "del_pos t' (Lstep p (Node a v (Node b w wr)) # c) T"
    "n_color t' = (n_color t)(v := BLACK, w := RED)" "n_color t' (rt T) = BLACK"
proof -
  let ?col = "n_color t"
  let ?k = "?col(v := BLACK, w := RED)"
  note B = del_pos_black [OF pos x]
  have d: "distinct (ctx_left c @ inorder T @ p # inorder a @ v # inorder b @ w # inorder wr @ ctx_right c)"
    using B(4) by (auto simp: inorder_plug)
  have nn: "p \<noteq> NIL" "w \<noteq> NIL" "v \<noteq> NIL" using B by auto
  have k: "rbt ?k X = rbt ?col X \<and> bh ?k X = bh ?col X \<and> ?k (rt X) = ?col (rt X)"
    if "X = T \<or> X = a \<or> X = b \<or> X = wr" for X
    using that d nn by (intro col_cong) auto
  have sc: "crb ?k c n = crb ?col c n" for n
    using d nn by (intro crb_cong) auto
  have hc: "c \<noteq> [] \<Longrightarrow> hp c \<noteq> v \<and> hp c \<noteq> w"
    using d hp_in_cset [of c] by auto
  have at: "tree_at t (hp (Rstep T p # c)) (Node (Node a v b) w wr)" "ctx_at t w (Rstep T p # c)"
    "distinct (inorder (plug (Rstep T p # c) (Node (Node a v b) w wr)))" using B by simp_all
  note rot = rotate_right_at [OF at(2,1,3)]
  have nilp: "n_parent (rotate_right w t) NIL = n_parent t NIL"
  proof -
    let ?M = "Node (mirror wr) w (Node (mirror b) v (mirror a))"
    have M: "?M = mirror (Node (Node a v b) w wr)" by simp
    have "n_parent (rotate_left w (swap_lr t)) NIL = n_parent (swap_lr t) NIL"
      by (rule rotate_parent_nil [of _ _ "mirror_ctx (Rstep T p # c)" "mirror wr" "mirror b" v "mirror a"],
          unfold M plug_mirror inorder_mirror) (use at in \<open>simp_all only: ctx_at_swap tree_at_swap hp_mirror distinct_rev\<close>)
    then show ?thesis by (simp add: rotate_right_swap)
  qed
  show kc: "n_color t' = ?k" by (simp add: t')
  have par: "n_parent t' (rt T) = p"
    using rot B(2) nilp by (cases T) (auto simp: t')
  show xk: "n_color t' (rt T) = BLACK" using x k [of T] unfolding kc by simp
  show "del_pos t' (Lstep p (Node a v (Node b w wr)) # c) T"
  proof (rule del_pos_blackI [OF xk])
    show "crb (n_color t') (Lstep p (Node a v (Node b w wr)) # c) (bh (n_color t') T + 1)"
      unfolding kc using B(7) col k [of T] k [of a] k [of b] k [of wr] nn d
      by (auto simp: sc dest: hc split: if_splits)
    show "rbt (n_color t') T" unfolding kc using k [of T] B(6) by simp
  qed (use rot B par nn d in \<open>simp_all add: inorder_plug t'\<close>)
qed

text \<open>With a red outer child the final rotation ends the shortage.\<close>

lemma df_outer_left_ok:
  assumes pos: "del_pos t (Lstep p (Node wl w wr) # c) T" and x: "n_color t (rt T) = BLACK"
    and col: "n_color t w = BLACK" "n_color t (rt wr) = RED"
    and t': "t' = rotate_left p (set_color (rt wr) BLACK (set_color p BLACK (set_color w (n_color t p) t)))"
  shows "del_pos t' [] (plug c (Node (Node T p wl) w wr))"
    "rb_root t' = rt (plug c (Node (Node T p wl) w wr))"
proof -
  let ?col = "n_color t" and ?N = "Node (Node T p wl) w wr"
  note B = del_pos_black [OF pos x]
  obtain a v b where wr: "wr = Node a v b" using col(2) B(5) by (cases wr) auto
  let ?k = "(?col(w := ?col p, p := BLACK))(v := BLACK)"
  have d: "distinct (ctx_left c @ inorder T @ p # inorder wl @ w # inorder a @ v # inorder b @ ctx_right c)"
    using B(4) wr by (auto simp: inorder_plug)
  have nn: "p \<noteq> NIL" "w \<noteq> NIL" "v \<noteq> NIL" using B wr by auto
  have k: "rbt ?k X = rbt ?col X \<and> bh ?k X = bh ?col X \<and> ?k (rt X) = ?col (rt X)"
    if "X = T \<or> X = a \<or> X = b \<or> X = wl" for X
    using that d nn by (intro col_cong) auto
  have sc: "crb ?k c n = crb ?col c n" for n
    using d nn by (intro crb_cong) auto
  have hc: "?k (hp c) = ?col (hp c)"
    using d nn hp_in_cset [of c] by (cases "c = []") auto
  have at: "tree_at t (hp c) (Node T p (Node wl w wr))" "ctx_at t p c"
    "distinct (inorder (plug c (Node T p (Node wl w wr))))" using B by simp_all
  note rot = rotate_left_at [OF at(2,1,3)]
  have kc: "n_color t' = ?k" by (simp add: t' wr)
  have ne: "p \<noteq> w" "w \<noteq> v" "p \<noteq> v" using d by auto
  have "rbt ?k ?N" "bh ?k ?N = bh ?col T + 1 + (if ?col p = BLACK then 1 else 0)"
    using B(6,7) col k [of T] k [of a] k [of b] k [of wl] wr ne by auto
  moreover have "red_ok ?k c ?N" using B(7) ne hc by (auto simp: red_ok_def)
  ultimately have R: "rbt ?k (plug c ?N)" "?k (rt (plug c ?N)) = BLACK"
    using B(7) rbt_plug [of ?k c ?N] by (auto simp: sc)
  have at': "tree_at t' NIL (plug c ?N)" "rb_root t' = rt (plug c ?N)"
    using rot plug_at [of t' c ?N] by (auto simp: t')
  then show "rb_root t' = rt (plug c ?N)" by simp
  have di: "distinct (inorder (plug c ?N))" using at(3) by (simp add: inorder_plug)
  show "del_pos t' [] (plug c ?N)"
  proof (rule del_pos_blackI)
    show "n_parent t' (rt (plug c ?N)) = hp []" using at'(1) by (cases "plug c ?N") auto
  qed (use R at' di B(5) nn kc in \<open>simp_all add: inorder_plug\<close>)
qed

lemma df_finish_left_ok:
  assumes pos: "del_pos t (Lstep p (Node wl w wr) # c) T" and x: "n_color t (rt T) = BLACK"
    and col: "n_color t w = BLACK" "\<not> (n_color t (rt wl) = BLACK \<and> n_color t (rt wr) = BLACK)"
  shows "del_goal t 1 (inorder (plug (Lstep p (Node wl w wr) # c) T)) (df_finish_left (rt T) w t)"
proof -
  note B = del_pos_black [OF pos x]
  have ln: "n_parent t (rt T) = p" "n_left t w = rt wl" "n_right t w = rt wr" using B by auto
  show ?thesis
  proof (cases "n_color t (rt wr) = RED")
    case True
    have ne: "rt wr \<noteq> p" "p \<noteq> w" "rt wr \<noteq> w"
      using B True rt_in_set [of wr] by (cases wr; auto simp: inorder_plug)+
    define t' where
      "t' = rotate_left p (set_color (rt wr) BLACK (set_color p BLACK (set_color w (n_color t p) t)))"
    have "df_finish_left (rt T) w t = (t', rb_root t')"
      using True ne by (simp add: df_finish_left_def Let_def ln t'_def)
    with df_outer_left_ok [OF pos x col(1) True t'_def] x show ?thesis
      unfolding del_goal_def
      by (intro exI [of _ "[]"] exI [of _ "plug c (Node (Node T p wl) w wr)"])
        (simp add: inorder_plug del_rank_def t'_def)
  next
    case False
    then have wr: "n_color t (rt wr) = BLACK" and "n_color t (rt wl) = RED" using col by auto
    then obtain a v b where wl: "wl = Node a v b" and v: "n_color t v = RED"
      using B(5) by (cases wl) auto
    define t1 where "t1 = rotate_right w (set_color w RED (set_color v BLACK t))"
    note pos1 = df_inner_left_ok [OF pos [unfolded wl] x col(1) v wr t1_def]
    note B1 = del_pos_black [OF pos1(1,3)]
    have ln1: "n_parent t1 (rt T) = p" "n_right t1 p = v" "n_right t1 v = w" using B1 by auto
    have ne: "v \<noteq> w" "p \<noteq> w" "p \<noteq> v" using B(4) by (auto simp: inorder_plug wl)
    have col1: "n_color t1 v = BLACK" "n_color t1 (rt (Node b w wr)) = RED"
      using ne by (simp_all add: pos1(2))
    define t' where
      "t' = rotate_left p (set_color w BLACK (set_color p BLACK (set_color v (n_color t1 p) t1)))"
    have "df_finish_left (rt T) w t = (t', rb_root t')"
      using wr ne ln1 by (simp add: df_finish_left_def Let_def ln wl t1_def t'_def)
    with df_outer_left_ok [OF pos1(1,3) col1, of t'] x show ?thesis
      unfolding del_goal_def
      by (intro exI [of _ "[]"] exI [of _ "plug c (Node (Node T p a) v (Node b w wr))"])
        (simp add: inorder_plug del_rank_def t'_def t1_def wl)
  qed
qed

lemma delete_step_left:
  assumes pos: "del_pos t (Lstep p W # c) T" and x: "n_color t (rt T) = BLACK"
  shows "del_goal t (Suc (length c)) (inorder (plug (Lstep p W # c) T)) (delete_fixup_step (t, rt T))"
proof -
  have "rt T = n_left t (n_parent t (rt T))" using pos by (simp add: del_pos_def)
  then have branch: "delete_fixup_step (t, rt T) =
      (let (t, w) = df_red_sibling_left (rt T) t in
       if n_color t (n_left t w) = BLACK \<and> n_color t (n_right t w) = BLACK
       then let t = set_color w RED t in (t, n_parent t (rt T))
       else df_finish_left (rt T) w t)"
    by (simp add: delete_fixup_step_def)
  from df_red_sibling_left_ok [OF assms] obtain t1 W1 c1 where
    s: "df_red_sibling_left (rt T) t = (t1, rt W1)" and pos1: "del_pos t1 (Lstep p W1 # c1) T"
    and w1: "n_color t1 (rt W1) = BLACK" and x1: "n_color t1 (rt T) = BLACK"
    and r1: "c1 = c \<or> n_color t1 p = RED" and sd: "same_data t t1"
    and io: "inorder (plug (Lstep p W1 # c1) T) = inorder (plug (Lstep p W # c) T)" by blast
  from del_pos_sibling [OF pos1 x1] obtain wl w wr where W1: "W1 = Node wl w wr" by metis
  note B = del_pos_black [OF pos1 x1]
  have ln: "n_left t1 w = rt wl" "n_right t1 w = rt wr" "n_parent t1 (rt T) = p" using B W1 by auto
  show ?thesis
  proof (cases "n_color t1 (rt wl) = BLACK \<and> n_color t1 (rt wr) = BLACK")
    case True
    have "p \<noteq> w" using B(4) W1 by (auto simp: inorder_plug)
    then have "del_rank (set_color w RED t1) c1 (Node T p W1) < Suc (length c)"
      using r1 by (auto simp: del_rank_def)
    moreover have "delete_fixup_step (t, rt T) = (set_color w RED t1, p)"
      using True by (simp add: branch s W1 ln Let_def)
    moreover have "del_pos (set_color w RED t1) c1 (Node T p W1)"
      using df_up_left_ok [OF pos1 x1 W1] True w1 W1 by simp
    ultimately show ?thesis using io sd unfolding del_goal_def
      by (intro exI [of _ c1] exI [of _ "Node T p W1"]) simp
  next
    case False
    then have "delete_fixup_step (t, rt T) = df_finish_left (rt T) w t1"
      unfolding branch s W1 by (auto simp: ln Let_def)
    moreover have "del_goal t1 1 (inorder (plug (Lstep p W # c) T)) (df_finish_left (rt T) w t1)"
      using df_finish_left_ok [OF pos1 [unfolded W1] x1] False w1 W1 io by simp
    ultimately show ?thesis using sd same_data_trans unfolding del_goal_def
      by (metis (no_types, lifting) less_one not_less_eq not_less_zero gr0I)
  qed
qed

text \<open>The second branch of the step is the first one on the mirror image.\<close>

lemma df_mirror:
  "df_red_sibling_right x t =
    (let s = df_red_sibling_left x (swap_lr t) in (swap_lr (fst s), snd s))"
  "df_finish_right x w t =
    (let s = df_finish_left x w (swap_lr t) in (swap_lr (fst s), snd s))"
  by (simp_all add: df_red_sibling_right_def df_red_sibling_left_def df_finish_right_def
      df_finish_left_def Let_def rotate_right_swap)

lemma delete_step_mirror:
  assumes "x \<noteq> n_left t (n_parent t x)" "x = n_right t (n_parent t x)"
  shows "delete_fixup_step (t, x) =
    (let s = delete_fixup_step (swap_lr t, x) in (swap_lr (fst s), snd s))"
  using assms by (simp add: delete_fixup_step_def df_mirror Let_def split_beta)

lemma delete_step:
  assumes pos: "del_pos t c T" and x: "n_color t (rt T) = BLACK" and c: "c \<noteq> []"
  shows "del_goal t (length c) (inorder (plug c T)) (delete_fixup_step (t, rt T))"
proof (cases c rule: hp.cases)
  case (2 p W c')
  then show ?thesis using delete_step_left [of t p W c' T] assms by simp
next
  case (3 W p c')
  note B = del_pos_black [OF pos x]
  have pos': "del_pos (swap_lr t) (Lstep p (mirror W) # mirror_ctx c') (mirror T)"
    using pos del_pos_swap [of t c T] by (simp add: 3)
  have W: "W \<noteq> Leaf" using B(7) 3 by auto
  have "rt T \<noteq> rt W"
    using W B rt_in_set [of W] rt_in_set [of T] tree_at_nonnil [of t p W]
    by (cases "T = Leaf") (auto simp: 3 inorder_plug)
  then have "delete_fixup_step (t, rt T) =
      (let s = delete_fixup_step (swap_lr t, rt T) in (swap_lr (fst s), snd s))"
    using B by (intro delete_step_mirror) (simp_all add: 3)
  moreover have "rev (inorder (plug c T)) =
      inorder (plug (Lstep p (mirror W) # mirror_ctx c') (mirror T))"
    using plug_mirror [of c T] inorder_mirror [of "plug c T"] by (simp add: 3)
  then have "del_goal (swap_lr t) (length c) (rev (inorder (plug c T))) (delete_fixup_step (swap_lr t, rt T))"
    using delete_step_left [OF pos'] x 3 by simp
  ultimately show ?thesis using del_goal_swap by (simp add: Let_def)
qed (use c in simp)

lemma root_in_cset: "ctx_at t i c \<Longrightarrow> c \<noteq> [] \<Longrightarrow> rb_root t \<in> cset c"
proof (induction c arbitrary: i rule: ctx_left.induct)
  case (2 x r c)
  then show ?case by (cases "c = []") auto
next
  case (3 l x c)
  then show ?case by (cases "c = []") auto
qed simp

lemma del_pos_root: "del_pos t c T \<Longrightarrow> rt T = rb_root t \<longleftrightarrow> c = []"
proof
  assume pos: "del_pos t c T" and r: "rt T = rb_root t"
  show "c = []"
  proof (rule ccontr)
    assume c: "c \<noteq> []"
    then have "rb_root t \<in> cset c" "rb_root t \<noteq> NIL"
      using pos root_in_cset [of t "rt T" c] ctx_at_nonnil [of t "rt T" c] by (auto simp: del_pos_def)
    then show False using pos r rt_in_set [of T] by (cases "T = Leaf") (auto simp: del_pos_def inorder_plug)
  qed
qed (auto simp: del_pos_def)

lemma delete_loop:
  assumes "del_pos t c T"
  shows "\<exists>t' c' T'. while (\<lambda>(t, x). x \<noteq> rb_root t \<and> n_color t x = BLACK) delete_fixup_step (t, rt T) =
      (t', rt T') \<and> del_pos t' c' T' \<and> (c' = [] \<or> n_color t' (rt T') = RED) \<and>
      inorder (plug c' T') = inorder (plug c T) \<and> same_data t t'"
  using assms
proof (induction "del_rank t c T" arbitrary: t c T rule: less_induct)
  case less
  let ?w = "while (\<lambda>(t, x). x \<noteq> rb_root t \<and> n_color t x = BLACK) delete_fixup_step"
  show ?case
  proof (cases "c \<noteq> [] \<and> n_color t (rt T) = BLACK")
    case True
    with delete_step [OF less.prems]
    obtain t1 c1 T1 where s: "delete_fixup_step (t, rt T) = (t1, rt T1)" "del_pos t1 c1 T1"
      "del_rank t1 c1 T1 < length c" "inorder (plug c1 T1) = inorder (plug c T)" "same_data t t1"
      unfolding del_goal_def by (metis prod.collapse)
    have w: "?w (t, rt T) = ?w (t1, rt T1)"
      using True del_pos_root [OF less.prems] s(1) by (subst while_unfold) simp
    have "del_rank t1 c1 T1 < del_rank t c T" using s(3) True by (simp add: del_rank_def)
    from less.hyps [OF this s(2)] show ?thesis unfolding w
      using s(4,5) same_data_trans by (metis (no_types, lifting))
  next
    case False
    then have "?w (t, rt T) = (t, rt T)"
      using del_pos_root [OF less.prems] by (subst while_unfold) auto
    with False less.prems show ?thesis by fastforce
  qed
qed

lemma delete_fixup_done:
  assumes "del_pos t c T"
  shows "\<exists>R. fixup_done t (inorder (plug c T)) (delete_fixup (rt T) t) R"
proof -
  from delete_loop [OF assms] obtain t' c' T' where
    w: "while (\<lambda>(t, x). x \<noteq> rb_root t \<and> n_color t x = BLACK) delete_fixup_step (t, rt T) = (t', rt T')"
    and pos: "del_pos t' c' T'" and e: "c' = [] \<or> n_color t' (rt T') = RED"
    and keep: "inorder (plug c' T') = inorder (plug c T)" "same_data t t'" by blast
  let ?R = "plug c' T'" and ?k = "(n_color t')(rt T' := BLACK)"
  have f: "delete_fixup (rt T) t = set_color (rt T') BLACK t'"
    using w by (simp add: delete_fixup_def)
  have at: "tree_at t' NIL ?R" "rb_root t' = rt ?R"
    using pos plug_at [of t' c' T'] by (auto simp: del_pos_def)
  have sc: "crb ?k c' n = crb (n_color t') c' n" for n
    using pos rt_in_set [of T'] by (intro crb_cong; cases "T' = Leaf") (auto simp: del_pos_def inorder_plug)
  have "rbt ?k T'" "crb ?k c' (bh ?k T')" "red_ok ?k c' T'"
    using pos e by (auto simp: del_pos_def sc red_ok_def)
  then have "rbt ?k ?R" "?k (rt ?R) = BLACK" using rbt_plug [of ?k c' T'] by auto
  moreover have "n_color t' NIL = BLACK" using pos by (simp add: del_pos_def)
  ultimately show ?thesis unfolding f fixup_done_def using at keep by (intro exI [of _ ?R]) simp
qed

section \<open>Taking a node out of the tree\<close>

lemma transplant_fields:
  assumes "ctx_at t u c" "u \<notin> cset c" "u \<noteq> NIL" "n_parent t u = hp c"
  shows "n_left (transplant u v t) = (if c \<noteq> [] \<and> is_lstep c then (n_left t)(hp c := v) else n_left t)"
    "n_right (transplant u v t) = (if c \<noteq> [] \<and> \<not> is_lstep c then (n_right t)(hp c := v) else n_right t)"
    "n_parent (transplant u v t) = (n_parent t)(v := hp c)"
    "rb_root (transplant u v t) = (if c = [] then v else rb_root t)"
    "n_color (transplant u v t) = n_color t"
    "same_data s (transplant u v t) = same_data s t"
proof -
  have p: "hp c = NIL \<longleftrightarrow> c = []" using hp_nil [OF assms(1)] .
  have test: "c \<noteq> [] \<Longrightarrow> u = n_left t (hp c) \<longleftrightarrow> is_lstep c"
    using left_child_test [OF assms(1,3,2)] .
  show "n_left (transplant u v t) = (if c \<noteq> [] \<and> is_lstep c then (n_left t)(hp c := v) else n_left t)"
    "n_right (transplant u v t) = (if c \<noteq> [] \<and> \<not> is_lstep c then (n_right t)(hp c := v) else n_right t)"
    "n_parent (transplant u v t) = (n_parent t)(v := hp c)"
    "rb_root (transplant u v t) = (if c = [] then v else rb_root t)"
    "n_color (transplant u v t) = n_color t"
    using assms(4) p test by (cases "c = []"; simp add: transplant_def Let_def)+
  show "same_data s (transplant u v t) = same_data s t"
    by (simp add: transplant_def Let_def same_data_def)
qed

lemma transplant_at:
  assumes c: "ctx_at t u c" "u \<notin> cset c" "u \<noteq> NIL" "n_parent t u = hp c"
    and T: "tree_at t q T" "distinct (ctx_left c @ inorder T @ ctx_right c)"
  shows "ctx_at (transplant u (rt T) t) (rt T) c" "tree_at (transplant u (rt T) t) (hp c) T"
    "n_parent (transplant u (rt T) t) (rt T) = hp c"
proof -
  note f = transplant_fields [OF c, where v = "rt T"]
  have hpc: "c \<noteq> [] \<Longrightarrow> hp c \<in> cset c" using hp_in_cset .
  have nc: "rt T \<notin> cset c"
    using T rt_in_set [of T] ctx_at_nonnil [OF c(1)] by (cases "T = Leaf") auto
  show "n_parent (transplant u (rt T) t) (rt T) = hp c" by (simp add: f)
  show "ctx_at (transplant u (rt T) t) (rt T) c"
    by (rule ctx_at_rehole [OF c(1)]) (use T(2) nc hp_nil [OF c(1)] in \<open>auto simp: f\<close>)
  show "tree_at (transplant u (rt T) t) (hp c) T"
    by (rule tree_at_reparent [OF T(1)]) (use T(2) hpc in \<open>auto simp: f\<close>)
qed

text \<open>The shape after an erasure, and the colour that is gone with it.\<close>

definition erased :: "RBPriceIndex \<Rightarrow> nat list \<Rightarrow> Color \<Rightarrow> nat \<Rightarrow> RBPriceIndex \<Rightarrow> bool" where
  "erased t xs gone x t' \<longleftrightarrow> (\<exists>c T. x = rt T \<and> inorder (plug c T) = xs \<and>
     tree_at t' (hp c) T \<and> ctx_at t' (rt T) c \<and> n_parent t' (rt T) = hp c \<and>
     rbt (n_color t') T \<and> n_color t' NIL = BLACK \<and> same_data t t' \<and>
     crb (n_color t') c (bh (n_color t') T + (if gone = BLACK then 1 else 0)) \<and>
     (gone = RED \<longrightarrow> red_ok (n_color t') c T))"

lemma bh_blacken:
  assumes "rbt col T" "distinct (inorder T)" "col NIL = BLACK"
  shows "bh (col(rt T := BLACK)) T + (if col (rt T) = BLACK then 1 else 0) = bh col T + 1"
proof (cases T)
  case (Node l z r)
  have "bh (col(z := BLACK)) l = bh col l" using assms Node by (intro bh_cong) auto
  with Node show ?thesis by simp
qed (use assms in simp)

lemma erased_fixup:
  assumes e: "erased t xs gone x t'" and d: "distinct xs"
  shows "\<exists>R. fixup_done t xs (if gone = BLACK then delete_fixup x t' else t') R"
proof -
  from e obtain c T where T: "x = rt T" "inorder (plug c T) = xs" "tree_at t' (hp c) T"
    "ctx_at t' (rt T) c" "n_parent t' (rt T) = hp c" "rbt (n_color t') T" "n_color t' NIL = BLACK"
    "same_data t t'" "crb (n_color t') c (bh (n_color t') T + (if gone = BLACK then 1 else 0))"
    "gone = RED \<longrightarrow> red_ok (n_color t') c T"
    unfolding erased_def by blast
  have dT: "distinct (inorder T)" using d T(2) by (auto simp: inorder_plug)
  show ?thesis
  proof (cases gone)
    case BLACK
    have "rbt ((n_color t')(rt T := BLACK)) T" using rbt_blacken [OF T(6) dT T(7)] .
    then have "del_pos t' c T"
      using T d bh_blacken [OF T(6) dT T(7)] BLACK by (simp add: del_pos_def)
    from delete_fixup_done [OF this] obtain R where "fixup_done t' xs (delete_fixup x t') R"
      using T(1,2) by auto
    then have "fixup_done t xs (delete_fixup x t') R"
      using T(8) same_data_trans by (auto simp: fixup_done_def)
    with BLACK show ?thesis by auto
  next
    case RED
    then have "rbt (n_color t') (plug c T)" "n_color t' (rt (plug c T)) = BLACK"
      using T rbt_plug [of "n_color t'" c T] by auto
    moreover have "tree_at t' NIL (plug c T)" "rb_root t' = rt (plug c T)"
      using T plug_at [of t' c T] by auto
    ultimately show ?thesis using RED T unfolding fixup_done_def
      by (intro exI [of _ "plug c T"]) simp
  qed
qed

lemma erase_one_child:
  assumes at: "tree_at t (hp c) (Node l z r)" "ctx_at t z c"
    and d: "distinct (inorder (plug c (Node l z r)))" and nil: "n_color t NIL = BLACK"
    and rb: "rbt (n_color t) (plug c (Node l z r))" "n_color t (rt (plug c (Node l z r))) = BLACK"
    and T: "l = Leaf \<and> T = r \<or> r = Leaf \<and> T = l"
  shows "erased t (ctx_left c @ inorder l @ inorder r @ ctx_right c) (n_color t z) (rt T)
    (transplant z (rt T) t)"
proof -
  have z: "z \<notin> cset c" "z \<noteq> NIL" "n_parent t z = hp c" using at d by (auto simp: inorder_plug)
  have dT: "distinct (ctx_left c @ inorder T @ ctx_right c)" "tree_at t z T"
    using d T at by (auto simp: inorder_plug)
  note tr = transplant_at [OF at(2) z dT(2,1)]
  note f = transplant_fields [OF at(2) z]
  have "rbt (n_color t) (Node l z r)" "crb (n_color t) c (bh (n_color t) (Node l z r))"
    "red_ok (n_color t) c (Node l z r)" using rb rbt_plug [of "n_color t" c "Node l z r"] by auto
  then have "rbt (n_color t) T" "crb (n_color t) c (bh (n_color t) T + (if n_color t z = BLACK then 1 else 0))"
    "n_color t z = RED \<longrightarrow> red_ok (n_color t) c T"
    using T by (auto simp: red_ok_def)
  moreover have "inorder (plug c T) = ctx_left c @ inorder l @ inorder r @ ctx_right c"
    using T by (auto simp: inorder_plug)
  ultimately show ?thesis using tr nil unfolding erased_def
    by (intro exI [of _ c] exI [of _ T]) (simp add: f)
qed

text \<open>The successor \<open>y\<close>, with its right subtree in place, takes the place of \<open>z\<close>.\<close>

lemma replace_root:
  assumes z: "ctx_at t z c" "n_parent t z = hp c" "n_left t z = rt l" "tree_at t z l" "l \<noteq> Leaf"
    and y: "n_right t y = rt r" "tree_at t y r" "y \<noteq> NIL" "z \<noteq> NIL"
    and d: "distinct (ctx_left c @ inorder l @ z # y # inorder r @ ctx_right c)"
    and t': "t' = set_parent (rt l) y (set_left y (rt l) (transplant z y t))"
  shows "ctx_at t' y c" "tree_at t' (hp c) (Node l y r)"
    "u \<in> set_tree r \<or> u = NIL \<Longrightarrow> n_parent t' u = n_parent t u"
    "n_color t' = n_color t" "same_data s t' = same_data s t"
proof -
  have zc: "z \<notin> cset c" using d by auto
  note f = transplant_fields [OF z(1) zc y(4) z(2)]
  have l: "rt l \<in> set_tree l" "rt l \<noteq> NIL" using z rt_in_set [of l] rt_nil [of t z l] by auto
  have hpc: "c \<noteq> [] \<Longrightarrow> hp c \<in> cset c" using hp_in_cset .
  have ne: "rt l \<noteq> y" "rt l \<noteq> z" "y \<noteq> z" "rt l \<notin> cset c" "y \<notin> cset c" using d l by auto
  have g: "n_left t' = (if c \<noteq> [] \<and> is_lstep c then (n_left t)(hp c := y) else n_left t)(y := rt l)"
    "n_right t' = (if c \<noteq> [] \<and> \<not> is_lstep c then (n_right t)(hp c := y) else n_right t)"
    "n_parent t' = ((n_parent t)(y := hp c))(rt l := y)"
    "rb_root t' = (if c = [] then y else rb_root t)"
    by (simp_all add: t' f)
  show "n_color t' = n_color t" by (simp add: t' f)
  show "same_data s t' = same_data s t" by (simp add: t' same_data_def transplant_def Let_def)
  show "u \<in> set_tree r \<or> u = NIL \<Longrightarrow> n_parent t' u = n_parent t u"
    using d l y by (auto simp: g)
  show "ctx_at t' y c"
    by (rule ctx_at_rehole [OF z(1)]) (use d ne hp_nil [OF z(1)] in \<open>auto simp: g\<close>)
  have "same_links (set_tree r) t t'" unfolding same_links_def using d l hpc by (auto simp: g)
  then have "tree_at t' y r" using y(2) by (simp add: tree_at_cong)
  moreover have "tree_at t' y l"
    by (rule tree_at_reparent [OF z(4)]) (use d hpc ne in \<open>auto simp: g\<close>)
  moreover have "n_left t' y = rt l" "n_right t' y = rt r" "n_parent t' y = hp c"
    using y ne hpc by (auto simp: g)
  ultimately show "tree_at t' (hp c) (Node l y r)" using y by simp
qed

lemma crb_subst:
  assumes "col' y = col z" "\<And>x. x \<in> cset a \<union> set_tree l \<union> cset c \<Longrightarrow> col' x = col x" "col' NIL = col NIL"
  shows "crb col' (a @ Rstep l y # c) n \<longleftrightarrow> crb col (a @ Rstep l z # c) n"
  using assms
proof (induction a arbitrary: n rule: ctx_left.induct)
  case 1
  have "crb col' c m = crb col c m" for m using 1 by (intro crb_cong) auto
  moreover have "rbt col' l = rbt col l \<and> bh col' l = bh col l \<and> col' (rt l) = col (rt l)"
    using 1 by (intro col_cong) auto
  moreover have "c \<noteq> [] \<Longrightarrow> col' (hp c) = col (hp c)" using 1 hp_in_cset [of c] by auto
  ultimately show ?case using 1 by auto
next
  case (2 x r a)
  have "rbt col' r = rbt col r \<and> bh col' r = bh col r \<and> col' (rt r) = col (rt r)"
    using 2 by (intro col_cong) auto
  moreover have "col' (hp (a @ Rstep l y # c)) = col (hp (a @ Rstep l z # c))"
    using 2 by (cases a rule: hp.cases) auto
  ultimately show ?case using 2 by auto
next
  case (3 r x a)
  have "rbt col' r = rbt col r \<and> bh col' r = bh col r \<and> col' (rt r) = col (rt r)"
    using 3 by (intro col_cong) auto
  moreover have "col' (hp (a @ Rstep l y # c)) = col (hp (a @ Rstep l z # c))"
    using 3 by (cases a rule: hp.cases) auto
  ultimately show ?case using 3 by auto
qed

text \<open>The leftmost node of a tree, with the path to it.\<close>

lemma leftmost:
  "r \<noteq> Leaf \<Longrightarrow> \<exists>a y yr. r = plug a (Node Leaf y yr) \<and> ctx_left a = [] \<and> first NIL (inorder r) = y"
proof (induction r)
  case (Node l x r)
  show ?case
  proof (cases "l = Leaf")
    case True
    then show ?thesis by (intro exI [of _ "[]"]) simp
  next
    case False
    with Node.IH(1) obtain a y yr where a: "l = plug a (Node Leaf y yr)" "ctx_left a = []"
      "first NIL (inorder l) = y" by blast
    then show ?thesis
      by (intro exI [of _ "a @ [Lstep x r]"] exI [of _ y] exI [of _ yr])
        (cases "inorder l"; simp add: plug_append)
  qed
qed simp

lemma hp_append: "hp (a @ b) = (if a = [] then hp b else hp a)"
  by (cases a rule: hp.cases) auto

lemma ctx_at_append:
  "ctx_at t i (a @ Rstep l z # c) \<and> tree_at t (hp (a @ Rstep l z # c)) T \<and> i = rt T \<longleftrightarrow>
   tree_at t z (plug a T) \<and> ctx_at t (rt (plug a T)) (Rstep l z # c) \<and> i = rt T"
proof (induction a arbitrary: i T rule: ctx_left.induct)
  case (2 x r a)
  from 2 [of x "Node T x r"] show ?case by auto
next
  case (3 r x a)
  from 3 [of x "Node r x T"] show ?case by auto
qed auto

lemma rt_plug: "a \<noteq> [] \<Longrightarrow> rt (plug a T) \<in> cset a"
proof (induction a T rule: plug.induct)
  case (2 x r c T)
  then show ?case by (cases "c = []") auto
next
  case (3 l x c T)
  then show ?case by (cases "c = []") auto
qed simp

text \<open>The first half of the two-child case: \<open>y\<close> leaves its place and adopts what is left of the right subtree.\<close>

definition detach :: "nat \<Rightarrow> nat \<Rightarrow> RBPriceIndex \<Rightarrow> RBPriceIndex" where
  "detach y z t =
     (if n_parent t y = z then set_parent (n_right t y) y t
      else
        let t = transplant y (n_right t y) t;
            t = set_right y (n_right t z) t
        in set_parent (n_right t y) y t)"

lemma detach_ok:
  assumes at: "tree_at t (hp c) (Node l z (plug a (Node Leaf y yr)))" "ctx_at t z c"
    and d: "distinct (ctx_left c @ inorder l @ z # ctx_left a @ y # inorder yr @ ctx_right a @ ctx_right c)"
  shows "ctx_at (detach y z t) z c" "n_parent (detach y z t) z = hp c" "n_left (detach y z t) z = rt l"
    "tree_at (detach y z t) z l" "n_right (detach y z t) y = rt (plug a yr)"
    "tree_at (detach y z t) y (plug a yr)" "n_parent (detach y z t) (rt yr) = hp (a @ Rstep l y # c)"
    "n_color (detach y z t) = n_color t" "same_data s (detach y z t) = same_data s t"
proof -
  let ?A = "a @ Rstep l z # c"
  have z: "z \<noteq> NIL" "n_parent t z = hp c" "n_left t z = rt l" "tree_at t z l"
    "ctx_at t (rt (plug a (Node Leaf y yr))) (Rstep l z # c)" using at by auto
  have pos: "ctx_at t y ?A" "tree_at t (hp ?A) (Node Leaf y yr)"
    using ctx_at_append [of t y a l z c "Node Leaf y yr"] at z by auto
  then have y: "y \<noteq> NIL" "n_parent t y = hp ?A" "n_right t y = rt yr" "tree_at t y yr" by auto
  have par: "n_parent t y = z \<longleftrightarrow> a = []" using y(2) d hp_in_cset [of a] by (auto simp: hp_append)
  have yc: "y \<notin> cset ?A" using d by auto
  have n0: "NIL \<notin> cset c" "NIL \<notin> set_tree l" "NIL \<notin> cset ?A"
    using ctx_at_nonnil [OF at(2)] tree_at_nonnil [OF z(4)] ctx_at_nonnil [OF pos(1)] by blast+
  have ry: "rt yr = NIL \<or> rt yr \<in> set_tree yr" by (cases yr) auto
  have "ctx_at (detach y z t) z c \<and> n_parent (detach y z t) z = hp c \<and> n_left (detach y z t) z = rt l \<and>
    tree_at (detach y z t) z l \<and> n_right (detach y z t) y = rt (plug a yr) \<and>
    tree_at (detach y z t) y (plug a yr) \<and> n_parent (detach y z t) (rt yr) = hp (a @ Rstep l y # c) \<and>
    n_color (detach y z t) = n_color t"
  proof (cases "a = []")
    case True
    then have f: "detach y z t = set_parent (rt yr) y t" using par y by (simp add: detach_def)
    have nc: "rt yr \<notin> cset c" "rt yr \<noteq> z" "rt yr \<notin> set_tree l"
      using ry d z(1) n0 by auto
    have "same_links (cset c) t (detach y z t)" "same_links (set_tree l) t (detach y z t)"
      using nc by (auto simp: same_links_def f)
    then have "ctx_at (detach y z t) z c" "tree_at (detach y z t) z l"
      using at(2) z(4) by (simp_all add: ctx_at_cong tree_at_cong f)
    moreover have "tree_at (detach y z t) y yr"
      by (rule tree_at_reparent [OF y(4)]) (use d in \<open>auto simp: f\<close>)
    ultimately show ?thesis using z y nc True by (simp add: f)
  next
    case False
    let ?r = "plug a yr" and ?t1 = "transplant y (rt yr) t"
    have dA: "distinct (ctx_left ?A @ inorder yr @ ctx_right ?A)" using d by auto
    note tr = transplant_at [OF pos(1) yc y(1,2) y(4) dA]
    note tf = transplant_fields [OF pos(1) yc y(1,2)]
    have pos1: "tree_at ?t1 z ?r" "ctx_at ?t1 (rt ?r) (Rstep l z # c)"
      using tr ctx_at_append [of ?t1 "rt yr" a l z c yr] by auto
    then have z1: "n_parent ?t1 z = hp c" "n_left ?t1 z = rt l" "n_right ?t1 z = rt ?r"
      "tree_at ?t1 z l" "ctx_at ?t1 z c" by auto
    have f: "detach y z t = set_parent (rt ?r) y (set_right y (rt ?r) ?t1)"
      using par False y z1 by (simp add: detach_def Let_def)
    have ra: "rt ?r \<in> cset a" using rt_plug [OF False] .
    have sets: "set_tree ?r = cset a \<union> set_tree yr"
      using arg_cong [OF inorder_plug [of a yr], of set] by auto
    have nc: "rt ?r \<notin> cset c" "rt ?r \<noteq> z" "rt ?r \<notin> set_tree l" "rt yr \<noteq> rt ?r" "z \<noteq> y"
      using ra d ry n0(3) by auto
    have "same_links (cset c) ?t1 (detach y z t)" "same_links (set_tree l) ?t1 (detach y z t)"
      using nc d by (auto simp: same_links_def f)
    then have "ctx_at (detach y z t) z c" "tree_at (detach y z t) z l"
      using z1 by (simp_all add: ctx_at_cong tree_at_cong f)
    moreover have "tree_at (detach y z t) y ?r"
      by (rule tree_at_reparent [OF pos1(1)]) (use d sets in \<open>auto simp: f inorder_plug\<close>)
    ultimately show ?thesis using z1 nc tr(3) False by (simp add: f tf hp_append)
  qed
  then show "ctx_at (detach y z t) z c" "n_parent (detach y z t) z = hp c"
    "n_left (detach y z t) z = rt l" "tree_at (detach y z t) z l"
    "n_right (detach y z t) y = rt (plug a yr)" "tree_at (detach y z t) y (plug a yr)"
    "n_parent (detach y z t) (rt yr) = hp (a @ Rstep l y # c)"
    "n_color (detach y z t) = n_color t" by auto
  show "same_data s (detach y z t) = same_data s t"
    by (simp add: detach_def same_data_def transplant_def Let_def)
qed

lemma erase_two_children:
  assumes at: "tree_at t (hp c) (Node l z r)" "ctx_at t z c"
    and d: "distinct (inorder (plug c (Node l z r)))" and nil: "n_color t NIL = BLACK"
    and rb: "rbt (n_color t) (plug c (Node l z r))" "n_color t (rt (plug c (Node l z r))) = BLACK"
    and ne: "l \<noteq> Leaf" "r \<noteq> Leaf" and sc: "n_succ t z = first NIL (inorder r)"
    and e: "erase_tree z t = (x, gone, t')"
  shows "erased t (ctx_left c @ inorder l @ inorder r @ ctx_right c) gone x t'"
proof -
  from leftmost [OF ne(2)] obtain a y yr where
    r: "r = plug a (Node Leaf y yr)" "ctx_left a = []" "first NIL (inorder r) = y" by blast
  let ?col = "n_color t" and ?r = "plug a yr" and ?C = "a @ Rstep l y # c"
  have dd: "distinct (ctx_left c @ inorder l @ z # ctx_left a @ y # inorder yr @ ctx_right a @ ctx_right c)"
    using d by (simp add: inorder_plug r)
  note de = detach_ok [OF at(1) [unfolded r(1)] at(2) dd]
  have z: "z \<noteq> NIL" "n_left t z = rt l" "n_right t z = rt r" "rt l \<noteq> NIL" "rt r \<noteq> NIL"
    using at ne rt_nil [of t z l] rt_nil [of t z r] by auto
  have A: "ctx_at t y (a @ Rstep l z # c)" "tree_at t (hp (a @ Rstep l z # c)) (Node Leaf y yr)"
    using ctx_at_append [of t y a l z c "Node Leaf y yr"] at r(1) by auto
  have y: "y \<noteq> NIL" "n_right t y = rt yr" using A by auto
  define t4 where "t4 = set_parent (rt l) y (set_left y (rt l) (transplant z y (detach y z t)))"
  have dr: "distinct (ctx_left c @ inorder l @ z # y # inorder ?r @ ctx_right c)"
    using dd r(2) by (auto simp: inorder_plug)
  note rr = replace_root [OF de(1,2,3,4) ne(1) de(5,6) y(1) z(1) dr t4_def]
  have "n_left (transplant z y (detach y z t)) z = rt l"
    using transplant_fields(1) [OF de(1) _ z(1) de(2)] dr hp_in_cset [of c] de(3) by auto
  then have eq: "x = rt yr" "gone = ?col y" "t' = set_color y (?col z) t4"
    using e z y sc r(3) rr(4) de(8)
    by (auto simp: erase_tree_def Let_def detach_def [of y z t] t4_def split: if_splits)
  have sets: "set_tree ?r = cset a \<union> set_tree yr"
    using arg_cong [OF inorder_plug [of a yr], of set] by auto
  have "rt yr \<in> set_tree ?r \<or> rt yr = NIL" using sets by (cases yr) auto
  from rr(3) [OF this] have par: "n_parent t' (rt yr) = hp ?C" using de(7) by (simp add: eq)
  have "tree_at t4 y ?r" "ctx_at t4 (rt ?r) (Rstep l y # c)" using rr(1,2) by auto
  then have shape: "ctx_at t' (rt yr) ?C" "tree_at t' (hp ?C) yr"
    using ctx_at_append [of t4 "rt yr" a l y c yr] by (simp_all add: eq)
  have col: "n_color t' = ?col(y := ?col z)" using rr(4) de(8) by (simp add: eq)
  have "rbt ?col (plug (a @ Rstep l z # c) (Node Leaf y yr))"
    "?col (rt (plug (a @ Rstep l z # c) (Node Leaf y yr))) = BLACK"
    using rb by (simp_all add: plug_append r(1))
  then have old: "rbt ?col yr" "bh ?col yr = 0" "?col y = RED \<longrightarrow> ?col (rt yr) = BLACK"
    "crb ?col (a @ Rstep l z # c) (if ?col y = BLACK then 1 else 0)"
    using rbt_plug [of ?col "a @ Rstep l z # c" "Node Leaf y yr"] by auto
  have cyr: "rbt (n_color t') yr = rbt ?col yr \<and> bh (n_color t') yr = bh ?col yr \<and>
      n_color t' (rt yr) = ?col (rt yr)"
    using dr y sets by (intro col_cong) (auto simp: col)
  have "crb (n_color t') ?C n = crb ?col (a @ Rstep l z # c) n" for n
    using dr y sets dd by (intro crb_subst) (auto simp: col)
  then have "crb (n_color t') ?C (bh (n_color t') yr + (if gone = BLACK then 1 else 0))"
    using old(2,4) cyr by (simp add: eq)
  moreover have "gone = RED \<longrightarrow> red_ok (n_color t') ?C yr"
    using cyr old(3) by (auto simp: eq(2) red_ok_def)
  moreover have "inorder (plug ?C yr) = ctx_left c @ inorder l @ inorder r @ ctx_right c"
    using r by (simp add: inorder_plug)
  moreover have "same_data t t'" using rr(5) de(9) by (simp add: eq)
  moreover have "n_color t' NIL = BLACK" using nil y by (simp add: col)
  ultimately show ?thesis unfolding erased_def
    using shape par old(1) cyr eq(1) by (intro exI [of _ ?C] exI [of _ yr]) simp
qed

section \<open>The whole erase\<close>

lemma plug_split: "z \<in> set_tree T \<Longrightarrow> \<exists>c l r. plug c (Node l z r) = T"
proof (induction T)
  case (Node a x b)
  then consider "z = x" | "z \<in> set_tree a" | "z \<in> set_tree b" by auto
  then show ?case
  proof cases
    case 1
    then show ?thesis by (metis plug.simps(1))
  next
    case 2
    with Node.IH(1) obtain c l r where "plug c (Node l z r) = a" by blast
    then have "plug (c @ [Lstep x b]) (Node l z r) = Node a x b" by (simp add: plug_append)
    then show ?thesis by blast
  next
    case 3
    with Node.IH(2) obtain c l r where "plug c (Node l z r) = b" by blast
    then have "plug (c @ [Rstep a x]) (Node l z r) = Node a x b" by (simp add: plug_append)
    then show ?thesis by blast
  qed
qed simp

lemma erase_neighbours_ok:
  assumes R: "rb_rep t R" "inorder R = ls @ z # rs"
  defines "t1 \<equiv> erase_neighbours z t"
  shows "n_left t1 = n_left t" "n_right t1 = n_right t" "n_parent t1 = n_parent t"
    "rb_root t1 = rb_root t" "n_color t1 = n_color t" "n_key t1 = n_key t" "n_val t1 = n_val t"
    "rb_free t1 = rb_free t" "rb_capacity t1 = rb_capacity t" "rb_size t1 = rb_size t"
    "n_succ t1 z = first NIL rs" "rb_begin t1 = first NIL (ls @ rs)"
    "chain (n_succ t1) (n_pred t1) NIL (ls @ rs) NIL"
proof -
  have ch: "chain (n_succ t) (n_pred t) NIL (ls @ z # rs) NIL" and d: "distinct (ls @ z # rs)"
    and bg: "rb_begin t = first NIL (ls @ z # rs)"
    using R by (auto simp: rb_rep_def)
  have n0: "NIL \<notin> set (ls @ z # rs)" using R tree_at_nonnil [of t NIL R] unfolding rb_rep_def
    by (metis set_inorder)
  then have nn: "final NIL ls = NIL \<longleftrightarrow> ls = []" "first NIL rs = NIL \<longleftrightarrow> rs = []"
    by (auto simp: final_eq_sentinel first_eq_sentinel)
  have ps: "n_pred t z = final NIL ls" "n_succ t z = first NIL rs" using chain_next [OF ch] by auto
  have lz: "ls \<noteq> [] \<Longrightarrow> final NIL ls \<noteq> z" using d final_in_set [of ls NIL] by auto
  show "n_left t1 = n_left t" "n_right t1 = n_right t" "n_parent t1 = n_parent t"
    "rb_root t1 = rb_root t" "n_color t1 = n_color t" "n_key t1 = n_key t" "n_val t1 = n_val t"
    "rb_free t1 = rb_free t" "rb_capacity t1 = rb_capacity t" "rb_size t1 = rb_size t"
    by (simp_all add: t1_def erase_neighbours_def Let_def)
  have f: "n_succ t1 = (if ls = [] then n_succ t else (n_succ t)(final NIL ls := first NIL rs))"
    "n_pred t1 = (if rs = [] then n_pred t else (n_pred t)(first NIL rs := final NIL ls))"
    "rb_begin t1 = (if ls = [] then first NIL rs else rb_begin t)"
    using lz n0 by (cases "ls = []"; cases "rs = []"; auto simp: t1_def erase_neighbours_def Let_def ps nn)+
  show "n_succ t1 z = first NIL rs" using lz ps by (auto simp: f)
  show "rb_begin t1 = first NIL (ls @ rs)" using bg by (cases ls) (auto simp: f)
  show "chain (n_succ t1) (n_pred t1) NIL (ls @ rs) NIL"
    by (rule chain_remove [OF ch d]) (auto simp: f)
qed

lemma erase_tree_ok:
  assumes at: "tree_at t (hp c) (Node l z r)" "ctx_at t z c"
    and d: "distinct (inorder (plug c (Node l z r)))" and nil: "n_color t NIL = BLACK"
    and rb: "rbt (n_color t) (plug c (Node l z r))" "n_color t (rt (plug c (Node l z r))) = BLACK"
    and sc: "r \<noteq> Leaf \<Longrightarrow> n_succ t z = first NIL (inorder r)"
    and e: "erase_tree z t = (x, gone, t')"
  shows "erased t (ctx_left c @ inorder l @ inorder r @ ctx_right c) gone x t'"
proof -
  have z: "n_left t z = rt l" "n_right t z = rt r" "rt l = NIL \<longleftrightarrow> l = Leaf" "rt r = NIL \<longleftrightarrow> r = Leaf"
    using at rt_nil [of t z l] rt_nil [of t z r] by auto
  note one = erase_one_child [OF at d nil rb]
  consider "l = Leaf" | "l \<noteq> Leaf" "r = Leaf" | "l \<noteq> Leaf" "r \<noteq> Leaf" by blast
  then show ?thesis
  proof cases
    case 1
    then have "x = rt r" "gone = n_color t z" "t' = transplant z (rt r) t"
      using e z by (auto simp: erase_tree_def)
    then show ?thesis using one [of r] 1 by simp
  next
    case 2
    then have "x = rt l" "gone = n_color t z" "t' = transplant z (rt l) t"
      using e z by (auto simp: erase_tree_def)
    then show ?thesis using one [of l] 2 by simp
  next
    case 3
    then show ?thesis using erase_two_children [OF at d nil rb 3 sc e] by simp
  qed
qed

lemma rb_erase_rep:
  assumes R: "rb_rep t R" "inorder R = ls @ z # rs"
  shows "\<exists>R'. rb_rep (rb_erase z t) R' \<and> inorder R' = ls @ rs"
    "n_key (rb_erase z t) = n_key t" "n_val (rb_erase z t) = n_val t"
    "rb_free (rb_erase z t) = z # rb_free t" "rb_capacity (rb_erase z t) = rb_capacity t"
proof -
  define t1 where "t1 = erase_neighbours z t"
  note n = erase_neighbours_ok [OF R, folded t1_def]
  have zR: "z \<in> set_tree R" using R(2) by (metis in_set_conv_decomp set_inorder)
  from plug_split [OF this] obtain c l r where c: "plug c (Node l z r) = R" by blast
  have dR: "distinct (inorder R)" using R by (simp add: rb_rep_def)
  have "ls @ z # rs = (ctx_left c @ inorder l) @ z # (inorder r @ ctx_right c)"
    using R(2) by (simp add: c [symmetric] inorder_plug)
  from distinct_split_unique [OF dR [unfolded R(2)] this]
  have lr: "ctx_left c @ inorder l = ls" "inorder r @ ctx_right c = rs" by simp_all
  have "same_links (set_tree (Node l z r)) t t1" "same_links (cset c) t t1"
    by (simp_all add: same_links_def n)
  then have at: "tree_at t1 (hp c) (Node l z r)" "ctx_at t1 z c"
    using R(1) plug_at [of t c "Node l z r"] tree_at_cong [of "Node l z r" t t1 "hp c"]
      ctx_at_cong [of c t t1 z] n(4) by (auto simp: rb_rep_def c)
  have zn: "z \<noteq> NIL" using at(1) by simp
  obtain x gone t2 where e: "erase_tree z t1 = (x, gone, t2)" by (metis prod_cases3)
  have "r \<noteq> Leaf \<Longrightarrow> n_succ t1 z = first NIL (inorder r)"
    unfolding n(11) lr(2) [symmetric] by (cases "inorder r") auto
  moreover have "distinct (inorder (plug c (Node l z r)))" "n_color t1 NIL = BLACK"
    "rbt (n_color t1) (plug c (Node l z r))" "n_color t1 (rt (plug c (Node l z r))) = BLACK"
    using R(1) dR by (simp_all add: c n(5) rb_rep_def)
  ultimately have "erased t1 (ctx_left c @ inorder l @ inorder r @ ctx_right c) gone x t2"
    using erase_tree_ok [OF at _ _ _ _ _ e] by blast
  then have "erased t1 (ls @ rs) gone x t2" using lr [symmetric] by simp
  then obtain R' where fd: "fixup_done t1 (ls @ rs) (if gone = BLACK then delete_fixup x t2 else t2) R'"
    using erased_fixup dR R(2) by fastforce
  define t3 where "t3 = (if gone = BLACK then delete_fixup x t2 else t2)"
  have fd: "fixup_done t1 (ls @ rs) t3 R'" using fd by (simp add: t3_def)
  have res: "rb_erase z t = (set_color NIL BLACK (set_parent NIL NIL t3))
      \<lparr>rb_free := z # rb_free t3, rb_size := rb_size t3 - 1\<rparr>"
    using zn e by (simp add: rb_erase_def Let_def t1_def t3_def rb_release_def)
  have sd: "same_data t1 t3" using fd by (simp add: fixup_done_def)
  show keep: "n_key (rb_erase z t) = n_key t" "n_val (rb_erase z t) = n_val t"
    "rb_free (rb_erase z t) = z # rb_free t" "rb_capacity (rb_erase z t) = rb_capacity t"
    using sd n by (simp_all add: res same_data_def)
  have tR': "set_tree R' = set_tree R - {z}"
  proof -
    have "set_tree R' = set ls \<union> set rs" "set_tree R = set ls \<union> set rs \<union> {z}"
      using fd R(2) by (auto simp: fixup_done_def simp flip: set_inorder)
    then show ?thesis using dR R(2) by auto
  qed
  have "NIL \<notin> set_tree R'" using fd tree_at_nonnil [of t3 NIL R'] by (auto simp: fixup_done_def)
  then have "same_links (set_tree R') t3 (rb_erase z t)" by (auto simp: same_links_def res)
  then have "tree_at (rb_erase z t) NIL R'" using fd by (simp add: tree_at_cong fixup_done_def)
  moreover have "rb_root (rb_erase z t) = rt R'" "n_color (rb_erase z t) = n_color t3"
    using fd by (auto simp: res fixup_done_def)
  moreover have "distinct (rb_free (rb_erase z t))" "set (rb_free (rb_erase z t)) \<inter> set_tree R' = {}"
    "set (rb_free (rb_erase z t)) \<union> set_tree R' = {1..rb_capacity (rb_erase z t)}"
    unfolding keep using R(1) zR tR' by (auto simp: rb_rep_def)
  moreover have "n_succ (rb_erase z t) = n_succ t1" "n_pred (rb_erase z t) = n_pred t1"
    "rb_begin (rb_erase z t) = rb_begin t1" "rb_size (rb_erase z t) = rb_size t - 1"
    using sd n by (simp_all add: res same_data_def)
  ultimately have "rb_rep (rb_erase z t) R'"
    using fd n R dR by (auto simp: rb_rep_def fixup_done_def)
  moreover have "inorder R' = ls @ rs" using fd by (simp add: fixup_done_def)
  ultimately show "\<exists>R'. rb_rep (rb_erase z t) R' \<and> inorder R' = ls @ rs" by blast
qed

end
