(* ===== verification/Price_Index.thy ===== *)
theory Price_Index
  imports Rb_Erase
begin

text \<open>
  The interface of the price index. \<^verbatim>\<open>OrderBookT\<close> is a template over the index type: it uses
  \<^verbatim>\<open>find\<close>, \<^verbatim>\<open>try_emplace\<close>, \<^verbatim>\<open>erase\<close>, \<^verbatim>\<open>begin\<close> and the iterator's increment, and writes levels
  through iterators. The locale \<open>price_index\<close> states what it relies on; \<open>RBPriceIndex\<close> satisfies it
  with either comparator.

  The theory also shows that the executable validator of \<^verbatim>\<open>rb_price_index.hpp\<close> accepts every
  index that the operations can build.
\<close>

section \<open>The contract\<close>

locale price_index = price_order +
  fixes ok :: "'i \<Rightarrow> nat list \<Rightarrow> bool"
    and key :: "'i \<Rightarrow> nat \<Rightarrow> PriceTick"
    and val :: "'i \<Rightarrow> nat \<Rightarrow> PriceLevel"
    and put :: "nat \<Rightarrow> PriceLevel \<Rightarrow> 'i \<Rightarrow> 'i"
    and find :: "PriceTick \<Rightarrow> 'i \<Rightarrow> nat"
    and emplace :: "PriceTick \<Rightarrow> 'i \<Rightarrow> rb_error + (nat \<times> bool \<times> 'i)"
    and erase :: "nat \<Rightarrow> 'i \<Rightarrow> 'i"
    and begin_it :: "'i \<Rightarrow> nat"
    and next_it :: "'i \<Rightarrow> nat \<Rightarrow> nat"
    and room :: "'i \<Rightarrow> nat"
  assumes iters: "ok t xs \<Longrightarrow> distinct xs \<and> NIL \<notin> set xs"
    and sorted: "ok t xs \<Longrightarrow> sorted_wrt prec (map (key t) xs)"
    and begin_law: "ok t xs \<Longrightarrow> begin_it t = first NIL xs"
    and next_law: "ok t (ls @ i # rs) \<Longrightarrow> next_it t i = first NIL rs"
    and find_law: "ok t xs \<Longrightarrow> find p t \<in> set xs \<and> key t (find p t) = p \<or>
      find p t = NIL \<and> p \<notin> key t ` set xs"
    and emplace_found: "ok t xs \<Longrightarrow> i \<in> set xs \<Longrightarrow> key t i = p \<Longrightarrow> emplace p t = Inr (i, False, t)"
    and emplace_full: "ok t xs \<Longrightarrow> p \<notin> key t ` set xs \<Longrightarrow> room t = 0 \<Longrightarrow> emplace p t = Inl Bad_alloc"
    and emplace_new: "ok t xs \<Longrightarrow> p \<notin> key t ` set xs \<Longrightarrow> room t > 0 \<Longrightarrow>
      \<exists>z t' ls rs. emplace p t = Inr (z, True, t') \<and> xs = ls @ rs \<and> ok t' (ls @ z # rs) \<and>
        z \<notin> set xs \<and> key t' = (key t)(z := p) \<and> val t' = (val t)(z := PriceLevel_init) \<and>
        room t' = room t - 1"
    and erase_law: "ok t (ls @ i # rs) \<Longrightarrow> ok (erase i t) (ls @ rs) \<and> key (erase i t) = key t \<and>
      val (erase i t) = val t \<and> room (erase i t) = room t + 1"
    and put_law: "ok (put i v t) xs \<longleftrightarrow> ok t xs" "key (put i v t) = key t"
      "val (put i v t) = (val t)(i := v)" "room (put i v t) = room t"
begin

text \<open>The first iterator has the best price of all.\<close>

lemma begin_best:
  assumes "ok t xs" "x \<in> set xs"
  shows "begin_it t \<in> set xs" "x = begin_it t \<or> prec (key t (begin_it t)) (key t x)"
  using sorted [OF assms(1)] begin_law [OF assms(1)] assms(2) by (cases xs; auto)+

lemma key_inj:
  assumes "ok t xs" "i \<in> set xs" "j \<in> set xs" "key t i = key t j"
  shows "i = j"
proof -
  have "inj_on (key t) (set xs)"
    using sorted [OF assms(1)] irrefl
    by (auto simp: inj_on_def sorted_wrt_iff_nth_less in_set_conv_nth) (metis nat_neq_iff nth_map)
  with assms show ?thesis by (auto dest: inj_onD)
qed

lemma find_iff:
  assumes "ok t xs" "i \<in> set xs"
  shows "find (key t i) t = i"
  using find_law [OF assms(1), of "key t i"] assms key_inj by (metis imageI)

text \<open>The loop \<^verbatim>\<open>for (it = begin(); it != end(); ++it)\<close> visits the iterators in order.\<close>

lemma iterate: "ok t xs \<Longrightarrow> walk (length xs) (next_it t) (begin_it t) = xs"
proof -
  assume ok: "ok t xs"
  have "walk (length rs) (next_it t) (first NIL rs) = rs" if "xs = ls @ rs" for ls rs
    using that
  proof (induction rs arbitrary: ls)
    case (Cons r rs)
    from Cons.IH [of "ls @ [r]"] Cons.prems have "walk (length rs) (next_it t) (first NIL rs) = rs" by simp
    moreover have "next_it t r = first NIL rs" using ok Cons.prems next_law by simp
    ultimately show ?case by simp
  qed simp
  from this [of "[]" xs] show ?thesis using begin_law [OF ok] by simp
qed

end

section \<open>The red-black index satisfies it\<close>

lemma index_ok_rep:
  assumes "index_ok prec t xs"
  shows "distinct xs" "NIL \<notin> set xs" "rb_begin t = first NIL xs" "rb_size t = length xs"
    "chain (n_succ t) (n_pred t) NIL xs NIL" "length (rb_free t) + length xs = rb_capacity t"
proof -
  from assms obtain R where R: "rb_rep t R" "inorder R = xs" by (auto simp: index_ok_def)
  then show d: "distinct xs" and "rb_begin t = first NIL xs" "rb_size t = length xs"
    "chain (n_succ t) (n_pred t) NIL xs NIL" by (auto simp: rb_rep_def)
  show "NIL \<notin> set xs" using R tree_at_nonnil [of t NIL R] unfolding rb_rep_def by (metis set_inorder)
  have "card (set (rb_free t) \<union> set xs) = rb_capacity t" "set (rb_free t) \<inter> set xs = {}"
    "distinct (rb_free t)" using R by (auto simp: rb_rep_def)
  then show "length (rb_free t) + length xs = rb_capacity t"
    using d by (metis List.finite_set card_Un_disjoint distinct_card)
qed

lemma index_ok_write [simp]: "index_ok prec (set_val i v t) xs \<longleftrightarrow> index_ok prec t xs"
proof -
  have "tree_at (set_val i v t) q R \<longleftrightarrow> tree_at t q R" for q R
    by (rule tree_at_cong) (simp add: same_links_def)
  then show ?thesis by (simp add: index_ok_def rb_rep_def)
qed

lemma index_ok_init: "index_ok prec (rb_init n) []"
proof -
  have "rb_rep (rb_init n) Leaf" by (auto simp: rb_rep_def rb_init_def)
  then show ?thesis by (auto simp: index_ok_def)
qed

lemma index_ok_erase:
  assumes "index_ok prec t (ls @ i # rs)"
  shows "index_ok prec (rb_erase i t) (ls @ rs)"
    "n_key (rb_erase i t) = n_key t" "n_val (rb_erase i t) = n_val t"
    "rb_free (rb_erase i t) = i # rb_free t" "rb_capacity (rb_erase i t) = rb_capacity t"
proof -
  from assms obtain R where R: "rb_rep t R" "inorder R = ls @ i # rs"
    and so: "sorted_wrt prec (map (n_key t) (ls @ i # rs))" by (auto simp: index_ok_def)
  note e = rb_erase_rep [OF R]
  show "n_key (rb_erase i t) = n_key t" "n_val (rb_erase i t) = n_val t"
    "rb_free (rb_erase i t) = i # rb_free t" "rb_capacity (rb_erase i t) = rb_capacity t" using e by auto
  show "index_ok prec (rb_erase i t) (ls @ rs)"
    using e(1,2) so by (auto simp: index_ok_def sorted_wrt_append)
qed

lemma rb_is_price_index:
  assumes "price_order prec"
  shows "price_index prec (index_ok prec) n_key n_val set_val (rb_find prec) (try_emplace prec)
    rb_erase rb_begin rb_next (\<lambda>t. length (rb_free t))"
proof (intro price_index.intro assms price_index_axioms.intro)
  fix t xs p assume ok: "index_ok prec t xs" and new: "p \<notin> n_key t ` set xs"
  note te = price_order.try_emplace_new [OF assms ok new]
  show "length (rb_free t) = 0 \<Longrightarrow> try_emplace prec p t = Inl Bad_alloc" using te(1) by simp
  assume "length (rb_free t) > 0"
  then obtain z fr where "rb_free t = z # fr" by (cases "rb_free t") auto
  from te(2) [OF this] this
  show "\<exists>z t' ls rs. try_emplace prec p t = Inr (z, True, t') \<and> xs = ls @ rs \<and>
      index_ok prec t' (ls @ z # rs) \<and> z \<notin> set xs \<and> n_key t' = (n_key t)(z := p) \<and>
      n_val t' = (n_val t)(z := PriceLevel_init) \<and>
      length (rb_free t') = length (rb_free t) - 1" by force
next
  fix t ls i rs assume ok: "index_ok prec t (ls @ i # rs)"
  show "index_ok prec (rb_erase i t) (ls @ rs) \<and> n_key (rb_erase i t) = n_key t \<and>
      n_val (rb_erase i t) = n_val t \<and> length (rb_free (rb_erase i t)) = length (rb_free t) + 1"
    using index_ok_erase [OF ok] by simp
  show "rb_next t i = first NIL rs"
    using index_ok_rep(5) [OF ok] chain_next(1) by (simp add: rb_next_def)
next
  fix t xs i p assume "index_ok prec t xs" "i \<in> set xs" "n_key t i = p"
  then show "try_emplace prec p t = Inr (i, False, t)"
    using price_order.try_emplace_found [OF assms] by blast
next
  fix t xs p assume "index_ok prec t xs"
  then show "rb_find prec p t \<in> set xs \<and> n_key t (rb_find prec p t) = p \<or>
      rb_find prec p t = NIL \<and> p \<notin> n_key t ` set xs"
    using price_order.rb_find_ok [OF assms] by blast
qed (simp_all add: index_ok_rep, simp_all add: index_ok_def)

interpretation ask_index: price_index "(<)" "index_ok (<)" n_key n_val set_val "rb_find (<)"
  "try_emplace (<)" rb_erase rb_begin rb_next "\<lambda>t. length (rb_free t)"
  by (rule rb_is_price_index) unfold_locales

interpretation bid_index: price_index "(>)" "index_ok (>)" n_key n_val set_val "rb_find (>)"
  "try_emplace (>)" rb_erase rb_begin rb_next "\<lambda>t. length (rb_free t)"
  by (rule rb_is_price_index) unfold_locales

section \<open>Reachable indices and the validator\<close>

text \<open>The calls a client can make, from construction on; \<^verbatim>\<open>erase\<close> and writes go through \<^verbatim>\<open>find\<close>.\<close>

inductive rb_reach :: "(PriceTick \<Rightarrow> PriceTick \<Rightarrow> bool) \<Rightarrow> nat \<Rightarrow> RBPriceIndex \<Rightarrow> bool"
  for prec cap where
  init: "rb_reach prec cap (rb_init cap)"
| emplace: "rb_reach prec cap t \<Longrightarrow> try_emplace prec p t = Inr (i, b, t') \<Longrightarrow> rb_reach prec cap t'"
| erase: "rb_reach prec cap t \<Longrightarrow> rb_reach prec cap (rb_erase (rb_find prec p t) t)"
| put: "rb_reach prec cap t \<Longrightarrow> rb_reach prec cap (set_val (rb_find prec p t) v t)"

lemma index_ok_emplace:
  assumes "price_order prec" "index_ok prec t xs" "try_emplace prec p t = Inr (i, b, t')"
  shows "\<exists>ys. index_ok prec t' ys \<and> rb_capacity t' = rb_capacity t"
proof (cases "p \<in> n_key t ` set xs")
  case True
  then obtain j where "j \<in> set xs" "n_key t j = p" by auto
  from price_order.try_emplace_found [OF assms(1,2) this] assms show ?thesis by auto
next
  case False
  note new = price_order.try_emplace_new [OF assms(1,2) False]
  show ?thesis using assms(3) new(1) new(2) by (cases "rb_free t") fastforce+
qed

lemma rb_reach_ok:
  assumes "price_order prec" "rb_reach prec cap t"
  shows "\<exists>xs. index_ok prec t xs \<and> rb_capacity t = cap"
  using assms(2)
proof induction
  case init
  show ?case using index_ok_init [of prec cap] by (auto simp: rb_init_def)
next
  case (emplace t p i b t')
  then show ?case using index_ok_emplace [OF assms(1)] by metis
next
  case (erase t p)
  then obtain xs where xs: "index_ok prec t xs" "rb_capacity t = cap" by blast
  from price_order.rb_find_ok [OF assms(1) xs(1), of p]
  consider "rb_find prec p t \<in> set xs" | "rb_find prec p t = NIL" by auto
  then show ?case
  proof cases
    case 1
    then obtain ls rs where "xs = ls @ rb_find prec p t # rs" by (meson split_list)
    with index_ok_erase [of prec t ls "rb_find prec p t" rs] xs show ?thesis by auto
  next
    case 2
    then show ?thesis using xs by (auto simp: rb_erase_def)
  qed
next
  case (put t p v)
  then show ?case by auto
qed

lemma check_node_ok:
  assumes "price_order prec" "tree_at t q T" "rbt (n_color t) T" "n_color t NIL = BLACK"
    "sorted_wrt prec (map (n_key t) (inorder T))" "size T < fuel"
  shows "check_node prec t fuel (rt T) = int (bh (n_color t) T) + 1"
  using assms(2-)
proof (induction T arbitrary: q fuel)
  case Leaf
  then show ?case by (cases fuel) auto
next
  case (Node l x r)
  then obtain f where f: "fuel = Suc f" by (cases fuel) auto
  have IH: "check_node prec t f (rt l) = int (bh (n_color t) l) + 1"
    "check_node prec t f (rt r) = int (bh (n_color t) r) + 1"
    using Node f by (auto simp: sorted_wrt_append)
  have "l \<noteq> Leaf \<Longrightarrow> n_parent t (rt l) = x \<and> prec (n_key t (rt l)) (n_key t x)"
    "r \<noteq> Leaf \<Longrightarrow> n_parent t (rt r) = x \<and> prec (n_key t x) (n_key t (rt r))"
    using Node.prems by (cases l; cases r; auto simp: sorted_wrt_append)+
  moreover have "rt l = NIL \<longleftrightarrow> l = Leaf" "rt r = NIL \<longleftrightarrow> r = Leaf"
    using Node.prems(1) by (auto simp: rt_nil)
  ultimately show ?case using Node.prems IH by (auto simp: f Let_def)
qed

lemma validate_walk_ok:
  assumes "chain (n_succ t) (n_pred t) p xs NIL" "NIL \<notin> set xs" "length xs < fuel"
    "sorted_wrt prec (map (n_key t) (if p = NIL then xs else p # xs))"
  shows "validate_walk prec t fuel n (first NIL xs) p = Some (n + length xs)"
  using assms
proof (induction xs arbitrary: p fuel n)
  case Nil
  then show ?case by (cases fuel) auto
next
  case (Cons x xs)
  then obtain f where f: "fuel = Suc f" by (cases fuel) auto
  have "validate_walk prec t f (n + 1) (first NIL xs) x = Some (n + 1 + length xs)"
    using Cons.prems f by (intro Cons.IH) (auto split: if_splits)
  then show ?case using Cons.prems f by (auto split: if_splits)
qed

lemma index_ok_validate:
  assumes po: "price_order prec" and ok: "index_ok prec t xs" and fuel: "length xs < fuel"
  shows "validate prec fuel t"
proof -
  from ok obtain R where R: "rb_rep t R" "inorder R = xs" and so: "sorted_wrt prec (map (n_key t) xs)"
    by (auto simp: index_ok_def)
  note r = index_ok_rep [OF ok]
  have "rt R = NIL \<longleftrightarrow> xs = []" using R rt_nil [of t NIL R] by (cases R) (auto simp: rb_rep_def)
  moreover have "size R < fuel" using fuel R(2) by (metis length_inorder)
  then have "check_node prec t fuel (rt R) \<ge> 0"
    using check_node_ok [OF po, of t NIL R fuel] R so by (auto simp: rb_rep_def)
  moreover have "validate_walk prec t fuel 0 (first NIL xs) NIL = Some (0 + length xs)"
    using r so fuel by (intro validate_walk_ok) auto
  ultimately show ?thesis using R r by (auto simp: validate_def rb_rep_def)
qed

text \<open>Depth: a red-black tree of black height \<open>b\<close> has at least \<open>2\<^sup>b - 1\<close> nodes and at most \<open>2b + 1\<close> levels.\<close>

lemma bh_size: "rbt col T \<Longrightarrow> 2 ^ bh col T \<le> size T + 1"
proof (induction T)
  case (Node l x r)
  then have "2 ^ bh col l \<le> size l + 1" "2 ^ bh col l \<le> size r + 1" by auto
  then show ?case by auto
qed simp

lemma bh_height:
  "rbt col T \<Longrightarrow> height T \<le> 2 * bh col T + (if col (rt T) = RED then 1 else 0)"
proof (induction T)
  case (Node l x r)
  then have "height l \<le> 2 * bh col l + (if col (rt l) = RED then 1 else 0)"
    "height r \<le> 2 * bh col l + (if col (rt r) = RED then 1 else 0)" by auto
  then show ?case using Node.prems by (cases "col x") (auto split: if_splits)
qed simp

lemma rb_rep_depth:
  assumes "rb_rep t R"
  shows "2 ^ (height R div 2) \<le> rb_size t + 1"
proof -
  have "height R div 2 \<le> bh (n_color t) R" using assms bh_height [of "n_color t" R] by (auto simp: rb_rep_def)
  then have "(2::nat) ^ (height R div 2) \<le> 2 ^ bh (n_color t) R" by (intro power_increasing) auto
  also have "\<dots> \<le> size R + 1" using assms bh_size by (auto simp: rb_rep_def)
  finally show ?thesis using assms by (simp add: rb_rep_def)
qed

section \<open>Properties\<close>

text \<open>
  C34. \<^verbatim>\<open>try_emplace\<close> is a find-or-insert on the ordered sequence of levels. A price that is
  there gives its iterator and changes nothing. A new price gets a fresh iterator with an empty
  level at the one place where the keys stay sorted, every other iterator keeps its key and its
  level, and the result is again a red-black tree with its neighbour list. Only when the pool is
  used up does it fail with \<^verbatim>\<open>bad_alloc\<close>, and then nothing is changed.
\<close>

theorem try_emplace_correct:
  assumes "price_order prec" "index_ok prec t xs"
  shows "case try_emplace prec p t of
      Inl e \<Rightarrow> e = Bad_alloc \<and> p \<notin> n_key t ` set xs \<and> length xs = rb_capacity t
    | Inr (i, False, t') \<Rightarrow> t' = t \<and> i \<in> set xs \<and> n_key t i = p
    | Inr (i, True, t') \<Rightarrow> p \<notin> n_key t ` set xs \<and> i \<notin> set xs \<and>
        (\<exists>ls rs. xs = ls @ rs \<and> index_ok prec t' (ls @ i # rs)) \<and>
        n_key t' = (n_key t)(i := p) \<and> n_val t' = (n_val t)(i := PriceLevel_init)"
proof (cases "p \<in> n_key t ` set xs")
  case True
  then obtain i where "i \<in> set xs" "n_key t i = p" by auto
  with price_order.try_emplace_found [OF assms this] show ?thesis by simp
next
  case False
  note new = price_order.try_emplace_new [OF assms False]
  show ?thesis
  proof (cases "rb_free t")
    case Nil
    then show ?thesis using new(1) False index_ok_rep(6) [OF assms(2)] by simp
  next
    case (Cons z fr)
    then show ?thesis using new(2) [OF Cons] False by fastforce
  qed
qed

theorem try_emplace_correct_witness:
  "case try_emplace (<) 100 (rb_init 3) of Inl e \<Rightarrow> False
   | Inr (i, b, t') \<Rightarrow> b \<and> index_ok (<) t' [i] \<and> n_key t' i = 100"
proof -
  have "fst (projr (try_emplace (<) 100 (rb_init 3))) = 1 \<and>
      fst (snd (projr (try_emplace (<) 100 (rb_init 3)))) \<and> isl (try_emplace (<) 100 (rb_init 3)) = False"
    by code_simp
  then show ?thesis
    using try_emplace_correct [OF asks.price_order_axioms index_ok_init, of 100 3]
    by (auto split: sum.splits bool.splits)
qed

text \<open>
  C35. \<^verbatim>\<open>erase\<close> takes exactly the given iterator out of the sequence: the other iterators keep
  their order, their keys and their levels (no iterator is invalidated), the result is again a
  red-black tree with its neighbour list, and the node goes back to the pool.
\<close>

theorem rb_erase_correct:
  assumes "index_ok prec t (ls @ i # rs)"
  shows "index_ok prec (rb_erase i t) (ls @ rs) \<and> n_key (rb_erase i t) = n_key t \<and>
    n_val (rb_erase i t) = n_val t \<and> rb_free (rb_erase i t) = i # rb_free t \<and>
    rb_size (rb_erase i t) = rb_size t - 1"
  using index_ok_erase [OF assms] index_ok_rep(4) [OF assms]
    index_ok_rep(4) [OF index_ok_erase(1) [OF assms]] by simp

theorem rb_erase_correct_witness:
  "\<exists>t i. index_ok (<) t ([] @ i # []) \<and> index_ok (<) (rb_erase i t) [] \<and> rb_size (rb_erase i t) = 0"
proof -
  from asks.try_emplace_new(2) [OF index_ok_init [of "(<)" 3], of 100 1 "[2, 3]"]
  obtain t where t: "index_ok (<) t ([] @ 1 # [])" by (auto simp: rb_init_def upt_rec)
  from rb_erase_correct [OF t] have "index_ok (<) (rb_erase 1 t) [] \<and> rb_size (rb_erase 1 t) = 0"
    using index_ok_rep(4) [OF t] by simp
  with t show ?thesis by blast
qed

text \<open>
  \<^verbatim>\<open>find\<close> returns the iterator of the price if there is one and \<^verbatim>\<open>end()\<close> otherwise, and
  \<^verbatim>\<open>begin()\<close> is the iterator of the best price.
\<close>

theorem rb_find_correct:
  assumes "price_order prec" "index_ok prec t xs"
  shows "(rb_find prec p t = NIL \<longleftrightarrow> p \<notin> n_key t ` set xs) \<and>
    (\<forall>i \<in> set xs. rb_find prec (n_key t i) t = i \<and>
      (i = rb_begin t \<or> prec (n_key t (rb_begin t)) (n_key t i)))"
proof -
  note pi = rb_is_price_index [OF assms(1)]
  have "rb_find prec p t = NIL \<longleftrightarrow> p \<notin> n_key t ` set xs"
    using price_order.rb_find_ok [OF assms, of p] index_ok_rep(2) [OF assms(2)] by (metis imageI)
  then show ?thesis
    using price_index.find_iff [OF pi assms(2)] price_index.begin_best(2) [OF pi assms(2)] by auto
qed

theorem rb_find_correct_witness:
  "\<exists>t. index_ok (<) t [1] \<and> n_key t 1 = 100 \<and> rb_find (<) 100 t = 1 \<and> rb_find (<) 7 t = NIL"
proof -
  from asks.try_emplace_new(2) [OF index_ok_init [of "(<)" 3], of 100 1 "[2, 3]"]
  obtain t where t: "index_ok (<) t [1]" "n_key t 1 = 100" by (auto simp: rb_init_def upt_rec)
  from rb_find_correct [OF asks.price_order_axioms t(1), of 7] t show ?thesis by auto
qed

text \<open>
  C36. Every index that a client can build from construction on passes the source's own validator
  (red-black rules, parent links, key order, neighbour list and size), for any sequence of calls
  that insert, erase and write; in particular all the loops of these calls end.
\<close>

theorem reachable_validates:
  assumes "price_order prec" "rb_reach prec cap t"
  shows "validate prec (Suc cap) t"
proof -
  from rb_reach_ok [OF assms] obtain xs where ok: "index_ok prec t xs" "rb_capacity t = cap" by blast
  have "length xs \<le> cap" using index_ok_rep(6) [OF ok(1)] ok(2) by simp
  then show ?thesis using index_ok_validate [OF assms(1) ok(1)] by simp
qed

theorem reachable_validates_witness:
  "\<exists>t. rb_reach (>) 2 t \<and> rb_size t = 1 \<and> validate (>) 3 t"
proof -
  have "\<exists>i t. try_emplace (>) 5 (rb_init 2) = Inr (i, True, t) \<and> index_ok (>) t [i]"
    using bids.try_emplace_new(2) [OF index_ok_init [of "(>)" 2], of 5 1 "[2]"]
    by (auto simp: rb_init_def upt_rec)
  then obtain i t where t: "try_emplace (>) 5 (rb_init 2) = Inr (i, True, t)" "index_ok (>) t [i]" by blast
  have r: "rb_reach (>) 2 t" using rb_reach.emplace [OF rb_reach.init t(1)] .
  from reachable_validates [OF bids.price_order_axioms r] r index_ok_rep(4) [OF t(2)]
  show ?thesis by (intro exI [of _ t]) (simp add: numeral_3_eq_3 numeral_2_eq_2)
qed

text \<open>
  C37. The depth of the tree, and with it the number of iterations of every search, is at most
  about twice the binary logarithm of the number of levels.
\<close>

theorem reachable_depth:
  assumes "price_order prec" "rb_reach prec cap t"
  shows "\<exists>R. tree_at t NIL R \<and> rb_root t = rt R \<and> 2 ^ (height R div 2) \<le> rb_size t + 1"
proof -
  from rb_reach_ok [OF assms] obtain xs where "index_ok prec t xs" by blast
  then obtain R where "rb_rep t R" by (auto simp: index_ok_def)
  with rb_rep_depth [OF this] show ?thesis by (auto simp: rb_rep_def)
qed

theorem reachable_depth_witness:
  "\<exists>R. tree_at (rb_init 4) NIL R \<and> rb_root (rb_init 4) = rt R \<and>
     2 ^ (height R div 2) \<le> rb_size (rb_init 4) + 1"
  using reachable_depth [OF asks.price_order_axioms rb_reach.init] .

end
