(* ===== verification/Order_Book.thy ===== *)
theory Order_Book
  imports Pin_Node Price_Index
begin

text \<open>
  The limit order book, \<^verbatim>\<open>include/titan/book/order_book.hpp\<close>: a price index per side, a chain of
  PIN nodes per level, a pool of nodes with a free list, and the dense slab that maps an order id
  to the place of the order.

  The two instantiations of the member templates differ in the map they work on; the model gives
  the operations a flag \<open>buy\<close> (the map is \<^verbatim>\<open>bids_\<close> or \<^verbatim>\<open>asks_\<close>). A reference \<^verbatim>\<open>PriceLevel&\<close> is the
  iterator of the level. The vectors \<^verbatim>\<open>nodes_\<close> and \<^verbatim>\<open>locators_\<close> are functions with their sizes, the
  free list is a list whose head is the vector's back. This theory holds the operations;
  \<^verbatim>\<open>Book_Invariant\<close> and \<^verbatim>\<open>Book_Refinement\<close> hold what they satisfy.
\<close>

section \<open>State\<close>

record SlabEntry =
  se_node :: nat
  se_slot :: nat
  se_price :: PriceTick
  se_remaining :: Qty
  se_side :: Side

record OrderBook =
  nodes :: "nat \<Rightarrow> PIN_Node"
  nodes_size :: nat
  locators :: "nat \<Rightarrow> SlabEntry"
  locators_size :: nat
  free_nodes :: "nat list"
  bids :: RBPriceIndex
  asks :: RBPriceIndex
  live_count :: "64 word"

definition Order_zero :: Order where
  "Order_zero = \<lparr>o_id = 0, o_seq = 0, o_price = 0, o_quantity = 0, o_remaining = 0,
     o_side = BUY, o_type = LIMIT\<rparr>"

definition PIN_Node_zero :: PIN_Node where
  "PIN_Node_zero = \<lparr>occupancy_mask = 0, head_slot = 0, tail_slot = 0, next_node = 0, prev_node = 0,
     next_in_time = (\<lambda>_. 0), prev_in_time = (\<lambda>_. 0), slots = (\<lambda>_. Order_zero)\<rparr>"

definition book_init :: "nat \<Rightarrow> nat \<Rightarrow> nat \<Rightarrow> OrderBook" where
  "book_init max_nodes id_capacity level_capacity =
     \<lparr>nodes = (\<lambda>_. PIN_Node_zero), nodes_size = max_nodes,
      locators = (\<lambda>_. \<lparr>se_node = INVALID_INDEX, se_slot = 0, se_price = 0, se_remaining = 0, se_side = BUY\<rparr>),
      locators_size = (if id_capacity \<noteq> 0 then id_capacity else max_nodes * CAPACITY),
      free_nodes = [0..<max_nodes], bids = rb_init level_capacity, asks = rb_init level_capacity,
      live_count = 0\<rparr>"

text \<open>The map that a template member works on, and its comparator.\<close>

definition index_of :: "bool \<Rightarrow> OrderBook \<Rightarrow> RBPriceIndex" where
  "index_of buy b = (if buy then bids b else asks b)"

definition set_index :: "bool \<Rightarrow> RBPriceIndex \<Rightarrow> OrderBook \<Rightarrow> OrderBook" where
  "set_index buy t b = (if buy then b\<lparr>bids := t\<rparr> else b\<lparr>asks := t\<rparr>)"

definition prec_of :: "bool \<Rightarrow> PriceTick \<Rightarrow> PriceTick \<Rightarrow> bool" where
  "prec_of buy p q = (if buy then p > q else p < q)"

definition get_level :: "bool \<Rightarrow> nat \<Rightarrow> OrderBook \<Rightarrow> PriceLevel" where
  "get_level buy i b = n_val (index_of buy b) i"

definition set_level :: "bool \<Rightarrow> nat \<Rightarrow> PriceLevel \<Rightarrow> OrderBook \<Rightarrow> OrderBook" where
  "set_level buy i l b = set_index buy (set_val i l (index_of buy b)) b"

definition set_node :: "nat \<Rightarrow> PIN_Node \<Rightarrow> OrderBook \<Rightarrow> OrderBook" where
  "set_node n pn b = b\<lparr>nodes := (nodes b)(n := pn)\<rparr>"

section \<open>Slab and node pool\<close>

definition clear_slot :: "nat \<Rightarrow> OrderBook \<Rightarrow> OrderBook" where
  "clear_slot i b = b\<lparr>locators := (locators b)(i := (locators b i)\<lparr>se_node := INVALID_INDEX\<rparr>),
     live_count := live_count b - 1\<rparr>"

definition erase_id :: "OrderId \<Rightarrow> OrderBook \<Rightarrow> OrderBook" where
  "erase_id i b =
     (if unat i < locators_size b \<and> se_node (locators b (unat i)) \<noteq> INVALID_INDEX
      then b\<lparr>locators := (locators b)(unat i := (locators b (unat i))\<lparr>se_node := INVALID_INDEX\<rparr>),
             live_count := live_count b - 1\<rparr>
      else b)"

definition note_partial_fill :: "OrderId \<Rightarrow> Qty \<Rightarrow> OrderBook \<Rightarrow> OrderBook" where
  "note_partial_fill i rem b =
     (if unat i < locators_size b
      then b\<lparr>locators := (locators b)(unat i := (locators b (unat i))\<lparr>se_remaining := rem\<rparr>)\<rparr>
      else b)"

definition alloc_node :: "OrderBook \<Rightarrow> nat \<times> OrderBook" where
  "alloc_node b =
     (case free_nodes b of
        [] \<Rightarrow> (INVALID_INDEX, b)
      | i # fr \<Rightarrow> (i, set_node i (pin_reset (nodes b i)) (b\<lparr>free_nodes := fr\<rparr>)))"

definition free_node :: "nat \<Rightarrow> OrderBook \<Rightarrow> OrderBook" where
  "free_node i b = (if i \<ge> nodes_size b then b else b\<lparr>free_nodes := i # free_nodes b\<rparr>)"

section \<open>Adding a resting order\<close>

definition find_or_create_level ::
  "bool \<Rightarrow> PriceTick \<Rightarrow> OrderBook \<Rightarrow> rb_error + (nat option \<times> OrderBook)" where
  "find_or_create_level buy price b =
     (case try_emplace (prec_of buy) price (index_of buy b) of
        Inl e \<Rightarrow> Inl e
      | Inr (it, inserted, t) \<Rightarrow>
          let b = set_index buy t b in
          if inserted then
            let (n, b) = alloc_node b in
            if n = INVALID_INDEX then Inr (None, set_index buy (rb_erase it (index_of buy b)) b)
            else Inr (Some it, set_level buy it
                   ((get_level buy it b)\<lparr>lvl_price := price, lvl_head := n, lvl_tail := n\<rparr>) b)
          else Inr (Some it, b))"

definition ensure_tail_with_space :: "bool \<Rightarrow> nat \<Rightarrow> OrderBook \<Rightarrow> nat \<times> OrderBook" where
  "ensure_tail_with_space buy it b =
     (let t = lvl_tail (get_level buy it b) in
      if t = INVALID_INDEX then
        let (n, b) = alloc_node b in
        if n = INVALID_INDEX then (INVALID_INDEX, b)
        else (n, set_level buy it ((get_level buy it b)\<lparr>lvl_head := n, lvl_tail := n\<rparr>) b)
      else if \<not> pin_full (nodes b t) then (t, b)
      else
        let (n, b) = alloc_node b in
        if n = INVALID_INDEX then (INVALID_INDEX, b)
        else
          let b = set_node n ((nodes b n)\<lparr>prev_node := t\<rparr>) b;
              b = set_node t ((nodes b t)\<lparr>next_node := n\<rparr>) b
          in (n, set_level buy it ((get_level buy it b)\<lparr>lvl_tail := n\<rparr>) b))"

definition add_impl :: "bool \<Rightarrow> Order \<Rightarrow> OrderBook \<Rightarrow> rb_error + (bool \<times> OrderBook)" where
  "add_impl buy o' b =
     (case find_or_create_level buy (o_price o') b of
        Inl e \<Rightarrow> Inl e
      | Inr (None, b) \<Rightarrow> Inr (False, b)
      | Inr (Some lvl, b) \<Rightarrow>
          let (node_idx, b) = ensure_tail_with_space buy lvl b in
          if node_idx = INVALID_INDEX then Inr (False, b)
          else
            let (slot, pn) = pin_insert (nodes b node_idx) o';
                b = set_node node_idx pn b in
            if slot = INVALID_INDEX then Inr (False, b)
            else
              let l = get_level buy lvl b;
                  b = set_level buy lvl (l\<lparr>total_qty := total_qty l + ucast (o_remaining o'),
                        order_count := order_count l + 1\<rparr>) b;
                  b = b\<lparr>locators := (locators b)(unat (o_id o') :=
                        \<lparr>se_node = node_idx, se_slot = slot, se_price = o_price o',
                         se_remaining = o_remaining o', se_side = o_side o'\<rparr>),
                        live_count := live_count b + 1\<rparr>
              in Inr (True, b))"

text \<open>\<^verbatim>\<open>add\<close>: an exception of the price map is caught; it is thrown before any change.\<close>

definition add :: "Order \<Rightarrow> OrderBook \<Rightarrow> bool \<times> OrderBook" where
  "add o' b =
     (if unat (o_id o') \<ge> locators_size b then (False, b)
      else if se_node (locators b (unat (o_id o'))) \<noteq> INVALID_INDEX then (False, b)
      else case add_impl (o_side o' = BUY) o' b of
        Inl e \<Rightarrow> (False, b)
      | Inr r \<Rightarrow> r)"

section \<open>Cancelling\<close>

definition free_level_nodes :: "PriceLevel \<Rightarrow> OrderBook \<Rightarrow> PriceLevel \<times> OrderBook" where
  "free_level_nodes lvl b =
     (let (n, b) = while (\<lambda>(n, b). n \<noteq> INVALID_INDEX)
            (\<lambda>(n, b). ((if n < nodes_size b then next_node (nodes b n) else INVALID_INDEX), free_node n b))
            (lvl_head lvl, b)
      in (lvl\<lparr>lvl_head := INVALID_INDEX, lvl_tail := INVALID_INDEX\<rparr>, b))"

definition update_after_cancel :: "bool \<Rightarrow> PriceTick \<Rightarrow> Qty \<Rightarrow> OrderBook \<Rightarrow> OrderBook" where
  "update_after_cancel buy price rem b =
     (let lit = rb_find (prec_of buy) price (index_of buy b) in
      if lit = NIL then b
      else
        let lvl = get_level buy lit b;
            lvl = (if total_qty lvl \<ge> ucast rem then lvl\<lparr>total_qty := total_qty lvl - ucast rem\<rparr>
                   else lvl\<lparr>total_qty := 0\<rparr>);
            lvl = (if order_count lvl > 0 then lvl\<lparr>order_count := order_count lvl - 1\<rparr> else lvl);
            b = set_level buy lit lvl b in
        if order_count lvl = 0 then
          let (lvl, b) = free_level_nodes lvl b;
              b = set_level buy lit lvl b
          in set_index buy (rb_erase lit (index_of buy b)) b
        else b)"

definition cancel :: "OrderId \<Rightarrow> OrderBook \<Rightarrow> bool \<times> OrderBook" where
  "cancel i b =
     (if unat i \<ge> locators_size b then (False, b)
      else
        let loc = locators b (unat i) in
        if se_node loc = INVALID_INDEX then (False, b)
        else if se_node loc \<ge> nodes_size b then (False, clear_slot (unat i) b)
        else
          let (removed, pn) = pin_remove (nodes b (se_node loc)) (se_slot loc);
              b = set_node (se_node loc) pn b;
              b = clear_slot (unat i) b in
          if \<not> removed then (False, b)
          else (True, update_after_cancel (se_side loc = BUY) (se_price loc) (se_remaining loc) b))"

section \<open>Introspection\<close>

definition best_level :: "bool \<Rightarrow> OrderBook \<Rightarrow> PriceLevel option" where
  "best_level buy b =
     (if rb_empty (index_of buy b) then None else Some (n_val (index_of buy b) (rb_begin (index_of buy b))))"

definition best_bid :: "OrderBook \<Rightarrow> PriceLevel option" where
  "best_bid = best_level True"

definition best_ask :: "OrderBook \<Rightarrow> PriceLevel option" where
  "best_ask = best_level False"

definition active_orders :: "OrderBook \<Rightarrow> nat" where
  "active_orders b = unat (live_count b)"

lemma index_set_simps [simp]:
  "index_of buy (set_index buy t b) = t"
  "index_of buy (set_index (\<not> buy) t b) = index_of buy b"
  "index_of (\<not> buy) (set_index buy t b) = index_of (\<not> buy) b"
  "set_index buy t (set_index buy t' b) = set_index buy t b"
  "nodes (set_index buy t b) = nodes b" "nodes_size (set_index buy t b) = nodes_size b"
  "locators (set_index buy t b) = locators b" "locators_size (set_index buy t b) = locators_size b"
  "free_nodes (set_index buy t b) = free_nodes b" "live_count (set_index buy t b) = live_count b"
  by (simp_all add: set_index_def index_of_def)

lemma index_of_upd [simp]:
  "index_of buy (nodes_update f1 b) = index_of buy b" "index_of buy (locators_update f2 b) = index_of buy b"
  "index_of buy (free_nodes_update f3 b) = index_of buy b" "index_of buy (live_count_update f4 b) = index_of buy b"
  by (simp_all add: index_of_def)

lemma set_level_simps [simp]:
  "index_of buy (set_level buy i l b) = set_val i l (index_of buy b)"
  "index_of buy (set_level (\<not> buy) i l b) = index_of buy b"
  "index_of (\<not> buy) (set_level buy i l b) = index_of (\<not> buy) b"
  "nodes (set_level buy i l b) = nodes b" "nodes_size (set_level buy i l b) = nodes_size b"
  "locators (set_level buy i l b) = locators b" "locators_size (set_level buy i l b) = locators_size b"
  "free_nodes (set_level buy i l b) = free_nodes b" "live_count (set_level buy i l b) = live_count b"
  "get_level buy i (set_level buy i l b) = l"
  by (simp_all add: set_level_def get_level_def)

lemma set_node_simps [simp]:
  "nodes (set_node n pn b) = (nodes b)(n := pn)" "nodes_size (set_node n pn b) = nodes_size b"
  "locators (set_node n pn b) = locators b" "locators_size (set_node n pn b) = locators_size b"
  "free_nodes (set_node n pn b) = free_nodes b" "live_count (set_node n pn b) = live_count b"
  "index_of buy (set_node n pn b) = index_of buy b" "get_level buy i (set_node n pn b) = get_level buy i b"
  by (simp_all add: set_node_def get_level_def)

end
