(* ===== verification/Book_Invariant.thy ===== *)
theory Book_Invariant
  imports Order_Book
begin

text \<open>
  The invariant of the order book. A shape lists, for each side, the iterators of the price
  index with the chain of nodes of each level. The invariant has four parts: the two indices are
  ordered (\<open>idx_ok\<close>); each level's chain is linked, its orders have the level's price and side,
  and its two aggregates are exact (\<open>level_ok\<close>); the chains and the free list share out the pool
  (\<open>pool_ok\<close>); and the slab describes exactly the resting orders (\<open>slab_ok\<close>).

  The bound \<open>nodes_size b * 64 < 2 ^ 32\<close> is the one under which the 32-bit order counts of
  the levels cannot wrap; the 64-bit quantities cannot either then.
\<close>

section \<open>The parts\<close>

type_synonym shape = "bool \<Rightarrow> (nat \<times> nat list) list"

definition level_orders :: "(nat \<Rightarrow> PIN_Node) \<Rightarrow> nat list \<Rightarrow> Order list" where
  "level_orders nd ns = concat (map (\<lambda>n. node_orders (nd n)) ns)"

definition level_ok :: "(nat \<Rightarrow> PIN_Node) \<Rightarrow> bool \<Rightarrow> PriceTick \<Rightarrow> PriceLevel \<Rightarrow> nat list \<Rightarrow> bool" where
  "level_ok nd buy p l ns \<longleftrightarrow>
     dll INVALID_INDEX (\<lambda>n. next_node (nd n)) (\<lambda>n. prev_node (nd n)) (lvl_head l) (lvl_tail l) ns \<and>
     (\<forall>n \<in> set ns. pin_ok (nd n)) \<and> lvl_price l = p \<and>
     order_count l = of_nat (length (level_orders nd ns)) \<and>
     total_qty l = of_nat (open_qty (level_orders nd ns)) \<and>
     (\<forall>o' \<in> set (level_orders nd ns). o_price o' = p \<and> (o_side o' = BUY) = buy)"

definition chain_of :: "shape \<Rightarrow> bool \<Rightarrow> nat list" where
  "chain_of L buy = concat (map snd (L buy))"

definition chains :: "shape \<Rightarrow> nat set" where
  "chains L = set (chain_of L True) \<union> set (chain_of L False)"

definition idx_ok :: "OrderBook \<Rightarrow> shape \<Rightarrow> bool" where
  "idx_ok b L \<longleftrightarrow> (\<forall>buy. index_ok (prec_of buy) (index_of buy b) (map fst (L buy)))"

definition lvls_ok :: "OrderBook \<Rightarrow> shape \<Rightarrow> bool" where
  "lvls_ok b L \<longleftrightarrow> (\<forall>buy. \<forall>(i, ns) \<in> set (L buy).
     level_ok (nodes b) buy (n_key (index_of buy b) i) (get_level buy i b) ns)"

definition pool_ok :: "OrderBook \<Rightarrow> shape \<Rightarrow> bool" where
  "pool_ok b L \<longleftrightarrow> distinct (chain_of L True @ chain_of L False @ free_nodes b) \<and>
     chains L \<union> set (free_nodes b) = {..<nodes_size b} \<and> nodes_size b * 64 < 2 ^ 32"

definition entry_of :: "nat \<Rightarrow> nat \<Rightarrow> Order \<Rightarrow> SlabEntry" where
  "entry_of n s o' = \<lparr>se_node = n, se_slot = s, se_price = o_price o', se_remaining = o_remaining o',
     se_side = o_side o'\<rparr>"

definition slab_ok :: "OrderBook \<Rightarrow> nat set \<Rightarrow> bool" where
  "slab_ok b C \<longleftrightarrow>
     (\<forall>n \<in> C. \<forall>s \<in> set (fifo (nodes b n)). let o' = slots (nodes b n) s in
        unat (o_id o') < locators_size b \<and> locators b (unat (o_id o')) = entry_of n s o') \<and>
     (\<forall>k < locators_size b. se_node (locators b k) \<noteq> INVALID_INDEX \<longrightarrow>
        (\<exists>n \<in> C. \<exists>s \<in> set (fifo (nodes b n)). unat (o_id (slots (nodes b n) s)) = k)) \<and>
     live_count b = of_nat (\<Sum>n \<in> C. length (fifo (nodes b n)))"

definition book_ok :: "OrderBook \<Rightarrow> shape \<Rightarrow> bool" where
  "book_ok b L \<longleftrightarrow> idx_ok b L \<and> lvls_ok b L \<and> pool_ok b L \<and> slab_ok b (chains L)"

text \<open>Between operations no level is empty.\<close>

definition settled :: "OrderBook \<Rightarrow> shape \<Rightarrow> bool" where
  "settled b L \<longleftrightarrow> (\<forall>buy. \<forall>(i, ns) \<in> set (L buy). level_orders (nodes b) ns \<noteq> [])"

section \<open>Elementary facts\<close>

lemma price_order_prec_of: "price_order (prec_of buy)"
  by unfold_locales (auto simp: prec_of_def)

interpretation side_index: price_index "prec_of buy" "index_ok (prec_of buy)" n_key n_val set_val
  "rb_find (prec_of buy)" "try_emplace (prec_of buy)" rb_erase rb_begin rb_next
  "\<lambda>t. length (rb_free t)" for buy
  by (rule rb_is_price_index [OF price_order_prec_of])

lemma level_orders_simps [simp]:
  "level_orders nd [] = []"
  "level_orders nd (n # ns) = node_orders (nd n) @ level_orders nd ns"
  "level_orders nd (ms @ ns) = level_orders nd ms @ level_orders nd ns"
  by (simp_all add: level_orders_def)

lemma level_orders_cong:
  "(\<And>n. n \<in> set ns \<Longrightarrow> nd' n = nd n) \<Longrightarrow> level_orders nd' ns = level_orders nd ns"
  unfolding level_orders_def by (metis (no_types, lifting) map_cong)

lemma level_ok_cong:
  assumes "\<And>n. n \<in> set ns \<Longrightarrow> nd' n = nd n"
  shows "level_ok nd' buy p l ns = level_ok nd buy p l ns"
proof -
  have "dll INVALID_INDEX (\<lambda>n. next_node (nd' n)) (\<lambda>n. prev_node (nd' n)) (lvl_head l) (lvl_tail l) ns =
      dll INVALID_INDEX (\<lambda>n. next_node (nd n)) (\<lambda>n. prev_node (nd n)) (lvl_head l) (lvl_tail l) ns"
    by (rule dll_cong) (simp_all add: assms)
  then show ?thesis using assms level_orders_cong [OF assms] by (simp add: level_ok_def)
qed

lemma chains_alt: "chains L = set (chain_of L buy) \<union> set (chain_of L (\<not> buy))"
  by (cases buy) (auto simp: chains_def)

lemma finite_chains [simp]: "finite (chains L)"
  by (simp add: chains_def)

lemma pool_ok_alt:
  "pool_ok b L \<longleftrightarrow> distinct (chain_of L buy) \<and> distinct (chain_of L (\<not> buy)) \<and> distinct (free_nodes b) \<and>
     set (chain_of L buy) \<inter> set (chain_of L (\<not> buy)) = {} \<and> chains L \<inter> set (free_nodes b) = {} \<and>
     chains L \<union> set (free_nodes b) = {..<nodes_size b} \<and> nodes_size b * 64 < 2 ^ 32"
  by (cases buy) (auto simp: pool_ok_def chains_def)

lemma pool_invalid:
  assumes "pool_ok b L" "n \<in> chains L \<union> set (free_nodes b)"
  shows "n < nodes_size b" "n \<noteq> INVALID_INDEX"
proof -
  show "n < nodes_size b" using assms unfolding pool_ok_def by blast
  with assms(1) show "n \<noteq> INVALID_INDEX" by (auto simp: pool_ok_def INVALID_INDEX_def)
qed

lemma chain_of_upd [simp]:
  "chain_of (L(buy := xs)) buy = concat (map snd xs)"
  "chain_of (L(buy := xs)) (\<not> buy) = chain_of L (\<not> buy)"
  by (simp_all add: chain_of_def)

lemma length_level_orders:
  "length (level_orders nd ns) \<le> 64 * length ns"
proof (induction ns)
  case (Cons n ns)
  then show ?case using length_node_orders [of "nd n"] pin_count_le [of "nd n"] by (simp add: CAPACITY_def)
qed simp

lemma chain_member: "(i, ns) \<in> set (L buy) \<Longrightarrow> set ns \<subseteq> chains L"
  unfolding chains_alt [of L buy] by (force simp: chain_of_def)

lemma level_chain_distinct: "pool_ok b L \<Longrightarrow> (i, ns) \<in> set (L buy) \<Longrightarrow> distinct ns"
  using pool_ok_alt [of b L buy] by (auto simp: chain_of_def distinct_concat_iff)

lemma level_count_exact:
  assumes "pool_ok b L" "(i, ns) \<in> set (L buy)"
  shows "length (level_orders nd ns) < 2 ^ 32"
proof -
  have "set ns \<subseteq> {..<nodes_size b}"
    using chain_member [of i ns L buy, OF assms(2)] pool_invalid(1) [OF assms(1)] by blast
  then have "length ns \<le> nodes_size b" using level_chain_distinct [OF assms]
    by (metis card_lessThan card_mono distinct_card finite_lessThan)
  then show ?thesis using length_level_orders [of nd ns] assms(1) by (auto simp: pool_ok_def)
qed

section \<open>Replacing a level\<close>

text \<open>
  All operations on the book change one level at a time: one is created, changed or taken out.
  The levels \<open>X\<close> (none or one) become \<open>X'\<close>, with the others and their nodes untouched.
\<close>

lemma level_splice:
  assumes ok: "idx_ok b L" "lvls_ok b L" "pool_ok b L"
    and L: "L buy = A @ X @ B" and L': "L' = L(buy := A @ X' @ B)"
    and ix: "index_ok (prec_of buy) (index_of buy b') (map fst (A @ X' @ B))"
      "index_of (\<not> buy) b' = index_of (\<not> buy) b"
    and keep: "\<And>j ms. (j, ms) \<in> set A \<union> set B \<Longrightarrow>
      n_key (index_of buy b') j = n_key (index_of buy b) j \<and> get_level buy j b' = get_level buy j b"
    and lv: "\<And>i ns. (i, ns) \<in> set X' \<Longrightarrow>
      level_ok (nodes b') buy (n_key (index_of buy b') i) (get_level buy i b') ns"
    and frame: "\<And>n. n \<in> chains L \<Longrightarrow> n \<notin> set (concat (map snd X)) \<Longrightarrow> nodes b' n = nodes b n"
    and pool: "distinct (concat (map snd X') @ free_nodes b')"
      "set (concat (map snd X')) \<union> set (free_nodes b') = set (concat (map snd X)) \<union> set (free_nodes b)"
      "nodes_size b' = nodes_size b"
  shows "idx_ok b' L'" "lvls_ok b' L'" "pool_ok b' L'"
proof -
  have side: "s = buy \<or> s = (\<not> buy)" for s by auto
  show "idx_ok b' L'" unfolding idx_ok_def
  proof
    fix s
    have "index_ok (prec_of s) (index_of s b) (map fst (L s))" using ok(1) by (simp add: idx_ok_def)
    then show "index_ok (prec_of s) (index_of s b') (map fst (L' s))"
      using side [of s] ix by (cases "s = buy") (auto simp: L')
  qed
  define a x x' c where "a = concat (map snd A)" "x = concat (map snd X)" "x' = concat (map snd X')"
    "c = concat (map snd B)"
  note sets = a_x_x'_c_def
  have cb: "chain_of L buy = a @ x @ c" "chain_of L' buy = a @ x' @ c" "chain_of L' (\<not> buy) = chain_of L (\<not> buy)"
    by (simp_all add: L L' chain_of_def sets)
  have P: "distinct (chain_of L buy)" "distinct (chain_of L (\<not> buy))"
    "set (chain_of L buy) \<inter> set (chain_of L (\<not> buy)) = {}" "chains L \<inter> set (free_nodes b) = {}"
    "chains L \<union> set (free_nodes b) = {..<nodes_size b}" "nodes_size b * 64 < 2 ^ 32"
    using ok(3) pool_ok_alt [of b L buy] by auto
  have out: "(set a \<union> set c \<union> set (chain_of L (\<not> buy))) \<inter> (set x \<union> set (free_nodes b)) = {}"
    using P(1,3,4) unfolding chains_alt [of L buy] cb by auto
  note pl = pool [folded sets]
  show "pool_ok b' L'"
    unfolding pool_ok_alt [of b' L' buy] chains_alt [of L' buy] cb
  proof (intro conjI)
    show "distinct (a @ x' @ c)" "set (a @ x' @ c) \<inter> set (chain_of L (\<not> buy)) = {}"
      using P(1,3) pl out unfolding cb by auto
    show "(set (a @ x' @ c) \<union> set (chain_of L (\<not> buy))) \<inter> set (free_nodes b') = {}"
      using pl out by auto
    show "set (a @ x' @ c) \<union> set (chain_of L (\<not> buy)) \<union> set (free_nodes b') = {..<nodes_size b'}"
      using pl P(5) unfolding chains_alt [of L buy] cb by auto
  qed (use P pl in auto)
  show "lvls_ok b' L'" unfolding lvls_ok_def
  proof (intro allI ballI, clarify)
    fix s j ms assume m: "(j, ms) \<in> set (L' s)"
    show "level_ok (nodes b') s (n_key (index_of s b') j) (get_level s j b') ms"
    proof (cases "s = buy \<and> (j, ms) \<in> set X'")
      case True
      then show ?thesis using lv by simp
    next
      case False
      have "(j, ms) \<in> set (L s) \<and> set ms \<inter> set x = {} \<and> get_level s j b' = get_level s j b \<and>
          n_key (index_of s b') j = n_key (index_of s b) j"
      proof (cases "s = buy")
        case True
        then have AB: "(j, ms) \<in> set A \<union> set B" using m False by (auto simp: L')
        then have "set ms \<subseteq> set a \<union> set c" unfolding sets by force
        then show ?thesis using AB True L out keep [OF AB] by auto
      next
        case s: False
        then have "(j, ms) \<in> set (L (\<not> buy))" using m side [of s] by (auto simp: L')
        then have "set ms \<subseteq> set (chain_of L (\<not> buy))" by (force simp: chain_of_def)
        then show ?thesis using s m out side [of s] ix(2) by (auto simp: L' get_level_def)
      qed
      then have mL: "(j, ms) \<in> set (L s)" and dx: "set ms \<inter> set x = {}" and
        kl: "get_level s j b' = get_level s j b" "n_key (index_of s b') j = n_key (index_of s b) j" by auto
      have "nodes b' n = nodes b n" if "n \<in> set ms" for n
        using frame [folded sets] that chain_member [of j ms L s, OF mL] dx by blast
      then have "level_ok (nodes b') s p l ms = level_ok (nodes b) s p l ms" for p l
        by (rule level_ok_cong)
      then show ?thesis using ok(2) mL by (auto simp: lvls_ok_def kl)
    qed
  qed
qed

lemma level_replace:
  assumes ok: "idx_ok b L" "lvls_ok b L" "pool_ok b L"
    and L: "L buy = A @ (i, ns) # B" and L': "L' = L(buy := A @ (i, ns') # B)"
    and ix: "index_of buy b' = set_val i l' (index_of buy b)" "index_of (\<not> buy) b' = index_of (\<not> buy) b"
    and lv: "level_ok (nodes b') buy (n_key (index_of buy b) i) l' ns'"
    and frame: "\<And>n. n \<in> chains L \<Longrightarrow> n \<notin> set ns \<Longrightarrow> nodes b' n = nodes b n"
    and pool: "distinct (ns' @ free_nodes b')" "set ns' \<union> set (free_nodes b') = set ns \<union> set (free_nodes b)"
      "nodes_size b' = nodes_size b"
  shows "idx_ok b' L'" "lvls_ok b' L'" "pool_ok b' L'"
proof -
  have io: "index_ok (prec_of buy) (index_of buy b) (map fst (L buy))" using ok(1) by (simp add: idx_ok_def)
  then have "i \<notin> fst ` (set A \<union> set B)" using index_ok_rep(1) [OF io] by (auto simp: L)
  then have keep: "n_key (index_of buy b') j = n_key (index_of buy b) j \<and> get_level buy j b' = get_level buy j b"
    if "(j, ms) \<in> set A \<union> set B" for j ms
    using that ix by (force simp: get_level_def)
  have L2: "L buy = A @ [(i, ns)] @ B" "L' = L(buy := A @ [(i, ns')] @ B)" by (simp_all add: L L')
  note sp = level_splice [OF ok L2, of b']
  show "idx_ok b' L'" "lvls_ok b' L'" "pool_ok b' L'"
    by (rule sp; use io ix L keep lv frame pool in \<open>force simp: get_level_def\<close>)+
qed

section \<open>The slab\<close>

lemma slab_entry:
  assumes "slab_ok b C" "n \<in> C" "s \<in> set (fifo (nodes b n))"
  shows "unat (o_id (slots (nodes b n) s)) < locators_size b"
    "locators b (unat (o_id (slots (nodes b n) s))) = entry_of n s (slots (nodes b n) s)"
  using assms by (auto simp: slab_ok_def Let_def)

lemma slab_live:
  assumes "slab_ok b C" "k < locators_size b" "se_node (locators b k) \<noteq> INVALID_INDEX"
  obtains n s where "n \<in> C" "s \<in> set (fifo (nodes b n))" "unat (o_id (slots (nodes b n) s)) = k"
    "locators b k = entry_of n s (slots (nodes b n) s)"
proof -
  from assms obtain n s where n: "n \<in> C" "s \<in> set (fifo (nodes b n))" "unat (o_id (slots (nodes b n) s)) = k"
    unfolding slab_ok_def by blast
  have "locators b k = entry_of n s (slots (nodes b n) s)"
    using slab_entry(2) [OF assms(1) n(1,2)] unfolding n(3) .
  from that [OF n this] show thesis .
qed

lemma slab_unique:
  assumes "slab_ok b C" "n \<in> C" "s \<in> set (fifo (nodes b n))" "m \<in> C" "r \<in> set (fifo (nodes b m))"
    "unat (o_id (slots (nodes b n) s)) = unat (o_id (slots (nodes b m) r))"
  shows "n = m" "s = r"
proof -
  have "entry_of n s (slots (nodes b n) s) = entry_of m r (slots (nodes b m) r)"
    using slab_entry(2) [OF assms(1,2,3)] slab_entry(2) [OF assms(1,4,5)] unfolding assms(6) by simp
  then show "n = m" "s = r" by (simp_all add: entry_of_def)
qed

lemma slab_transfer:
  assumes ok: "slab_ok b C" and C: "finite C" "finite C'"
    and eq: "locators b' = locators b" "locators_size b' = locators_size b" "live_count b' = live_count b"
    and same: "\<And>n. n \<in> C \<Longrightarrow> n \<in> C' \<Longrightarrow> fifo (nodes b' n) = fifo (nodes b n) \<and> slots (nodes b' n) = slots (nodes b n)"
    and e: "\<And>n. n \<in> C \<Longrightarrow> n \<notin> C' \<Longrightarrow> fifo (nodes b n) = []" "\<And>n. n \<in> C' \<Longrightarrow> n \<notin> C \<Longrightarrow> fifo (nodes b' n) = []"
  shows "slab_ok b' C'"
proof -
  have "(\<Sum>n \<in> C. length (fifo (nodes b n))) = (\<Sum>n \<in> C \<inter> C'. length (fifo (nodes b n)))"
    using C e(1) by (intro sum.mono_neutral_right) auto
  also have "\<dots> = (\<Sum>n \<in> C \<inter> C'. length (fifo (nodes b' n)))" using same by simp
  also have "\<dots> = (\<Sum>n \<in> C'. length (fifo (nodes b' n)))"
    using C e(2) by (intro sum.mono_neutral_left) auto
  finally have "live_count b' = of_nat (\<Sum>n \<in> C'. length (fifo (nodes b' n)))"
    using ok eq by (simp add: slab_ok_def)
  moreover have in1: "n \<in> C \<and> n \<in> C'" if "n \<in> C'" "s \<in> set (fifo (nodes b' n))" for n s
    using that e(2) by force
  moreover have in2: "n \<in> C \<and> n \<in> C'" if "n \<in> C" "s \<in> set (fifo (nodes b n))" for n s
    using that e(1) by force
  ultimately show ?thesis unfolding slab_ok_def eq Let_def
  proof (intro conjI ballI allI impI)
    fix n s assume n: "n \<in> C'" "s \<in> set (fifo (nodes b' n))"
    with in1 same have "n \<in> C" "fifo (nodes b' n) = fifo (nodes b n)" "slots (nodes b' n) = slots (nodes b n)" by metis+
    with slab_entry [OF ok, of n s] n
    show "unat (o_id (slots (nodes b' n) s)) < locators_size b"
      "locators b (unat (o_id (slots (nodes b' n) s))) = entry_of n s (slots (nodes b' n) s)" by simp_all
  next
    fix k assume k: "k < locators_size b" "se_node (locators b k) \<noteq> INVALID_INDEX"
    from slab_live [OF ok k] obtain n s where
      "n \<in> C" "s \<in> set (fifo (nodes b n))" "unat (o_id (slots (nodes b n) s)) = k" by metis
    with in2 same show "\<exists>n \<in> C'. \<exists>s \<in> set (fifo (nodes b' n)). unat (o_id (slots (nodes b' n) s)) = k" by metis
  qed
qed

lemma sum_fifo_upd:
  assumes "finite C" "n \<in> C"
  shows "(\<Sum>m \<in> C. length (fifo ((nd(n := pn)) m))) + length (fifo (nd n)) =
    (\<Sum>m \<in> C. length (fifo (nd m))) + length (fifo pn)"
proof -
  have "(\<Sum>m \<in> C - {n}. length (fifo ((nd(n := pn)) m))) = (\<Sum>m \<in> C - {n}. length (fifo (nd m)))"
    by (rule sum.cong) auto
  then show ?thesis using sum.remove [OF assms, of "\<lambda>m. length (fifo ((nd(n := pn)) m))"]
      sum.remove [OF assms, of "\<lambda>m. length (fifo (nd m))"] by simp
qed

lemma slab_insert:
  assumes ok: "slab_ok b C" and C: "finite C" "n \<in> C"
    and new: "unat (o_id o') < locators_size b" "se_node (locators b (unat (o_id o'))) = INVALID_INDEX"
      "INVALID_INDEX \<notin> C"
    and pn: "fifo pn = fifo (nodes b n) @ [s]" "slots pn = (slots (nodes b n))(s := o')"
      "s \<notin> set (fifo (nodes b n))"
    and b': "nodes b' = (nodes b)(n := pn)" "locators_size b' = locators_size b"
      "locators b' = (locators b)(unat (o_id o') := entry_of n s o')" "live_count b' = live_count b + 1"
  shows "slab_ok b' C"
proof -
  have ids: "unat (o_id (slots (nodes b m) r)) \<noteq> unat (o_id o')" if "m \<in> C" "r \<in> set (fifo (nodes b m))" for m r
    using slab_entry(2) [OF ok that] new that(1) by (auto simp: entry_of_def)
  have "live_count b' = of_nat (\<Sum>m \<in> C. length (fifo (nodes b' m)))"
    using sum_fifo_upd [OF C, of "nodes b" pn] ok pn(1) b'(1,4) by (simp add: slab_ok_def)
  moreover have "unat (o_id (slots (nodes b' m) r)) < locators_size b \<and>
      locators b' (unat (o_id (slots (nodes b' m) r))) = entry_of m r (slots (nodes b' m) r)"
    if "m \<in> C" "r \<in> set (fifo (nodes b' m))" for m r
  proof (cases "m = n \<and> r = s")
    case True
    then show ?thesis using new b' pn by simp
  next
    case False
    with that have r: "r \<in> set (fifo (nodes b m))" "slots (nodes b' m) r = slots (nodes b m) r"
      using b'(1) pn by (auto split: if_splits)
    show ?thesis using slab_entry [OF ok that(1) r(1)] ids [OF that(1) r(1)] by (simp add: r(2) b'(3))
  qed
  moreover have "\<exists>m \<in> C. \<exists>r \<in> set (fifo (nodes b' m)). unat (o_id (slots (nodes b' m) r)) = k"
    if k: "k < locators_size b" "se_node (locators b' k) \<noteq> INVALID_INDEX" for k
  proof (cases "k = unat (o_id o')")
    case True
    then show ?thesis using C(2) b'(1) pn(1,2) by (intro bexI [of _ n] bexI [of _ s]) simp_all
  next
    case False
    with k(2) b'(3) have "se_node (locators b k) \<noteq> INVALID_INDEX" by simp
    from slab_live [OF ok k(1) this] obtain m r where
      m: "m \<in> C" "r \<in> set (fifo (nodes b m))" "unat (o_id (slots (nodes b m) r)) = k" by metis
    then have "r \<in> set (fifo (nodes b' m))" "slots (nodes b' m) r = slots (nodes b m) r"
      using b'(1) pn by (auto split: if_splits)
    with m show ?thesis by metis
  qed
  ultimately show ?thesis unfolding slab_ok_def b'(2) Let_def by blast
qed

lemma slab_remove:
  assumes ok: "slab_ok b C" and C: "finite C" "n \<in> C" and s: "s \<in> set (fifo (nodes b n))"
    and d: "distinct (fifo (nodes b n))"
    and pn: "fifo pn = remove1 s (fifo (nodes b n))" "\<And>r. r \<in> set (fifo pn) \<Longrightarrow> slots pn r = slots (nodes b n) r"
    and k: "k = unat (o_id (slots (nodes b n) s))"
    and b': "nodes b' = (nodes b)(n := pn)" "locators_size b' = locators_size b"
      "locators b' = (locators b)(k := (locators b k)\<lparr>se_node := INVALID_INDEX\<rparr>)"
      "live_count b' = live_count b - 1"
  shows "slab_ok b' C"
proof -
  have "length (fifo (nodes b n)) = Suc (length (fifo pn))"
    using s pn(1) by (simp add: length_remove1) (metis Suc_pred length_pos_if_in_set)
  then have "(\<Sum>m \<in> C. length (fifo (nodes b m))) = Suc (\<Sum>m \<in> C. length (fifo (nodes b' m)))"
    using sum_fifo_upd [OF C, of "nodes b" pn] unfolding b'(1) by simp
  then have "live_count b' = of_nat (\<Sum>m \<in> C. length (fifo (nodes b' m)))"
    using ok b'(4) by (simp add: slab_ok_def)
  moreover have old: "m \<in> C \<Longrightarrow> r \<in> set (fifo (nodes b' m)) \<longleftrightarrow> r \<in> set (fifo (nodes b m)) \<and> (m, r) \<noteq> (n, s)"
    "r \<in> set (fifo (nodes b' m)) \<Longrightarrow> slots (nodes b' m) r = slots (nodes b m) r" for m r
    using b'(1) pn d by auto
  moreover have "unat (o_id (slots (nodes b' m) r)) < locators_size b \<and>
      locators b' (unat (o_id (slots (nodes b' m) r))) = entry_of m r (slots (nodes b' m) r)"
    if m: "m \<in> C" "r \<in> set (fifo (nodes b' m))" for m r
  proof -
    have r: "r \<in> set (fifo (nodes b m))" "(m, r) \<noteq> (n, s)" using old(1) m by auto
    then have "unat (o_id (slots (nodes b m) r)) \<noteq> k"
      using slab_unique [OF ok m(1) r(1) C(2) s] k by auto
    then show ?thesis using slab_entry [OF ok m(1) r(1)] old(2) [OF m(2)] by (simp add: b'(3))
  qed
  moreover have "\<exists>m \<in> C. \<exists>r \<in> set (fifo (nodes b' m)). unat (o_id (slots (nodes b' m) r)) = j"
    if j: "j < locators_size b" "se_node (locators b' j) \<noteq> INVALID_INDEX" for j
  proof -
    have jk: "j \<noteq> k" "se_node (locators b j) \<noteq> INVALID_INDEX" using j(2) b'(3) by (auto split: if_splits)
    from slab_live [OF ok j(1) jk(2)] obtain m r where
      m: "m \<in> C" "r \<in> set (fifo (nodes b m))" "unat (o_id (slots (nodes b m) r)) = j" by metis
    with jk(1) k have "(m, r) \<noteq> (n, s)" by auto
    with m old show ?thesis by metis
  qed
  ultimately show ?thesis unfolding slab_ok_def b'(2) Let_def by blast
qed

lemma slab_partial:
  assumes ok: "slab_ok b C" and C: "finite C" "n \<in> C" and s: "s \<in> set (fifo (nodes b n))"
    and pn: "fifo pn = fifo (nodes b n)"
      "slots pn = (slots (nodes b n))(s := (slots (nodes b n) s)\<lparr>o_remaining := q\<rparr>)"
    and k: "k = unat (o_id (slots (nodes b n) s))"
    and b': "nodes b' = (nodes b)(n := pn)" "locators_size b' = locators_size b"
      "locators b' = (locators b)(k := (locators b k)\<lparr>se_remaining := q\<rparr>)" "live_count b' = live_count b"
  shows "slab_ok b' C"
proof -
  have "live_count b' = of_nat (\<Sum>m \<in> C. length (fifo (nodes b' m)))"
    using sum_fifo_upd [OF C, of "nodes b" pn] ok pn(1) b'(1,4) by (simp add: slab_ok_def)
  moreover have old: "fifo (nodes b' m) = fifo (nodes b m)" "o_id (slots (nodes b' m) r) = o_id (slots (nodes b m) r)"
    for m r using b'(1) pn by auto
  moreover have "unat (o_id (slots (nodes b' m) r)) < locators_size b \<and>
      locators b' (unat (o_id (slots (nodes b' m) r))) = entry_of m r (slots (nodes b' m) r)"
    if m: "m \<in> C" "r \<in> set (fifo (nodes b' m))" for m r
  proof (cases "(m, r) = (n, s)")
    case True
    then show ?thesis using slab_entry [OF ok C(2) s] pn b' k by (simp add: entry_of_def)
  next
    case False
    have r: "r \<in> set (fifo (nodes b m))" using m(2) old by simp
    then have "unat (o_id (slots (nodes b m) r)) \<noteq> k"
      using slab_unique [OF ok m(1) r C(2) s] k False by auto
    moreover have "slots (nodes b' m) r = slots (nodes b m) r" using False b'(1) pn(2) by auto
    ultimately show ?thesis using slab_entry [OF ok m(1) r] by (simp add: b'(3))
  qed
  moreover have "se_node (locators b' j) = se_node (locators b j)" for j by (simp add: b'(3))
  ultimately show ?thesis using ok unfolding slab_ok_def b'(2) Let_def by simp
qed

end
