(* ===== verification/Book_Refinement.thy ===== *)
theory Book_Refinement
  imports Book_Invariant
begin

text \<open>
  What the book's operations do, seen as operations on two lists of price levels, each a price with
  its queue of orders, best price first. \<open>add\<close> puts an order at the end of its price's queue,
  \<open>cancel\<close> takes one order out, and both keep the invariant; a refused operation changes neither list.
\<close>

section \<open>The abstract book\<close>

type_synonym side_book = "(PriceTick \<times> Order list) list"

fun enqueue :: "(PriceTick \<Rightarrow> PriceTick \<Rightarrow> bool) \<Rightarrow> Order \<Rightarrow> side_book \<Rightarrow> side_book" where
  "enqueue prec o' [] = [(o_price o', [o'])]"
| "enqueue prec o' ((p, q) # r) =
     (if o_price o' = p then (p, q @ [o']) # r
      else if prec (o_price o') p then (o_price o', [o']) # (p, q) # r
      else (p, q) # enqueue prec o' r)"

definition dequeue :: "OrderId \<Rightarrow> side_book \<Rightarrow> side_book" where
  "dequeue i sb = filter (\<lambda>(p, q). q \<noteq> []) (map (\<lambda>(p, q). (p, filter (\<lambda>o'. o_id o' \<noteq> i) q)) sb)"

definition all_orders :: "side_book \<Rightarrow> Order list" where
  "all_orders sb = concat (map snd sb)"

lemma enqueue_existing:
  assumes "price_order prec" "\<forall>(q, os) \<in> set A. prec q (o_price o')"
  shows "enqueue prec o' (A @ (o_price o', os) # B) = A @ (o_price o', os @ [o']) # B"
  using assms(2)
proof (induction A)
  case (Cons a A)
  then show ?case using price_order.asym [OF assms(1)] price_order.irrefl [OF assms(1)]
    by (cases a) force
qed simp

lemma enqueue_new:
  assumes "price_order prec" "\<forall>(q, os) \<in> set A. prec q (o_price o')" "\<forall>(q, os) \<in> set B. prec (o_price o') q"
  shows "enqueue prec o' (A @ B) = A @ (o_price o', [o']) # B"
  using assms(2)
proof (induction A)
  case Nil
  show ?case
  proof (cases B)
    case (Cons c C)
    then show ?thesis using assms(3) price_order.irrefl [OF assms(1)] by (cases c) auto
  qed simp
next
  case (Cons a A)
  then show ?case using price_order.asym [OF assms(1)] price_order.irrefl [OF assms(1)]
    by (cases a) force
qed

lemma enqueue_nonempty:
  "\<forall>(p, q) \<in> set sb. q \<noteq> [] \<Longrightarrow> (p, q) \<in> set (enqueue prec o' sb) \<Longrightarrow> q \<noteq> []"
  by (induction prec o' sb rule: enqueue.induct) (auto split: if_splits)

section \<open>The view of a book\<close>

definition level_view :: "OrderBook \<Rightarrow> bool \<Rightarrow> nat \<times> nat list \<Rightarrow> PriceTick \<times> Order list" where
  "level_view b buy = (\<lambda>(i, ns). (n_key (index_of buy b) i, level_orders (nodes b) ns))"

definition side_view :: "OrderBook \<Rightarrow> shape \<Rightarrow> bool \<Rightarrow> side_book" where
  "side_view b L buy = map (level_view b buy) (L buy)"

text \<open>
  The same view read off the data structure alone: iterate over the index, and for each
  level follow the chain of nodes.
\<close>

fun node_chain :: "(nat \<Rightarrow> PIN_Node) \<Rightarrow> nat \<Rightarrow> nat \<Rightarrow> nat list" where
  "node_chain nd 0 n = []"
| "node_chain nd (Suc fuel) n = (if n = INVALID_INDEX then [] else n # node_chain nd fuel (next_node (nd n)))"

definition book_side :: "OrderBook \<Rightarrow> bool \<Rightarrow> side_book" where
  "book_side b buy =
     (let t = index_of buy b in
      map (\<lambda>i. (n_key t i, level_orders (nodes b) (node_chain (nodes b) (nodes_size b) (lvl_head (n_val t i)))))
        (walk (rb_size t) (rb_next t) (rb_begin t)))"

definition book_inv :: "OrderBook \<Rightarrow> bool" where
  "book_inv b \<longleftrightarrow> (\<exists>L. book_ok b L \<and> settled b L)"

lemma node_chain_dll:
  assumes "chain (\<lambda>n. next_node (nd n)) pv p ns INVALID_INDEX" "INVALID_INDEX \<notin> set ns" "length ns \<le> k"
  shows "node_chain nd k (first INVALID_INDEX ns) = ns"
  using assms
proof (induction ns arbitrary: k p)
  case Nil
  then show ?case by (cases k) auto
next
  case (Cons n ns)
  then show ?case by (cases k) auto
qed

lemma book_okD:
  assumes "book_ok b L"
  shows "idx_ok b L" "lvls_ok b L" "pool_ok b L" "slab_ok b (chains L)"
    "index_ok (prec_of buy) (index_of buy b) (map fst (L buy))"
    "(i, ns) \<in> set (L buy) \<Longrightarrow> level_ok (nodes b) buy (n_key (index_of buy b) i) (get_level buy i b) ns"
  using assms by (auto simp: book_ok_def idx_ok_def lvls_ok_def)

lemma book_side_view:
  assumes ok: "book_ok b L"
  shows "book_side b buy = side_view b L buy"
proof -
  let ?t = "index_of buy b"
  note ix = book_okD(5) [OF ok, of buy]
  have "walk (rb_size ?t) (rb_next ?t) (rb_begin ?t) = map fst (L buy)"
    using side_index.iterate [OF ix] index_ok_rep(4) [OF ix] by simp
  moreover have "node_chain (nodes b) (nodes_size b) (lvl_head (n_val ?t i)) = ns" if "(i, ns) \<in> set (L buy)" for i ns
  proof -
    have "set ns \<subseteq> {..<nodes_size b}"
      using chain_member [of i ns L buy, OF that] pool_invalid(1) [OF book_okD(3) [OF ok]] by blast
    then have "length ns \<le> nodes_size b" using level_chain_distinct [OF book_okD(3) [OF ok] that]
      by (metis card_lessThan card_mono distinct_card finite_lessThan)
    with book_okD(6) [OF ok that] show ?thesis
      using node_chain_dll [of "nodes b"] by (auto simp: level_ok_def dll_def get_level_def)
  qed
  ultimately show ?thesis by (force simp: book_side_def side_view_def level_view_def Let_def)
qed

lemma side_view_split:
  "L buy = A @ x # B \<Longrightarrow> side_view b L buy = map (level_view b buy) A @ level_view b buy x # map (level_view b buy) B"
  by (simp add: side_view_def)

text \<open>A level's view depends on its key and its nodes only.\<close>

lemma level_views_cong:
  assumes "\<And>i ns. (i, ns) \<in> set X \<Longrightarrow> n_key (index_of buy b') i = n_key (index_of buy b) i"
    "\<And>i ns n. (i, ns) \<in> set X \<Longrightarrow> n \<in> set ns \<Longrightarrow> nodes b' n = nodes b n"
  shows "map (level_view b' buy) X = map (level_view b buy) X"
proof (rule map_cong [OF refl])
  fix x assume x: "x \<in> set X"
  obtain i ns where i: "x = (i, ns)" by force
  have "level_orders (nodes b') ns = level_orders (nodes b) ns"
    using assms(2) x i by (intro level_orders_cong) blast
  then show "level_view b' buy x = level_view b buy x"
    using assms(1) x i by (simp add: level_view_def)
qed

lemma other_levels:
  assumes ok: "pool_ok b L" and L: "L buy = A @ (i, ns) # B" and x: "(j, ms) \<in> set A \<union> set B \<or> (j, ms) \<in> set (L (\<not> buy))"
  shows "set ms \<inter> set ns = {}" "set ms \<subseteq> chains L"
proof -
  have "set ms \<subseteq> set (concat (map snd A)) \<union> set (concat (map snd B)) \<union> set (chain_of L (\<not> buy))"
    using x by (force simp: chain_of_def)
  moreover have "chain_of L buy = concat (map snd A) @ ns @ concat (map snd B)" by (simp add: L chain_of_def)
  moreover have "distinct (chain_of L buy)" "set (chain_of L buy) \<inter> set (chain_of L (\<not> buy)) = {}"
    using ok pool_ok_alt [of b L buy] by auto
  ultimately show "set ms \<inter> set ns = {}" "set ms \<subseteq> chains L"
    unfolding chains_alt [of L buy] by (simp_all only: distinct_append set_append) blast+
qed

text \<open>The views after one level has been replaced.\<close>

lemma side_view_replace:
  assumes ok: "pool_ok b L" and L: "L buy = A @ (i, ns) # B" and L': "L' = L(buy := A @ (i, ns') # B)"
    and key: "\<And>s. n_key (index_of s b') = n_key (index_of s b)"
    and frame: "\<And>n. n \<in> chains L \<Longrightarrow> n \<notin> set ns \<Longrightarrow> nodes b' n = nodes b n"
  shows "side_view b' L' buy = map (level_view b buy) A @ level_view b' buy (i, ns') # map (level_view b buy) B"
    "side_view b' L' (\<not> buy) = side_view b L (\<not> buy)"
proof -
  have nd: "nodes b' n = nodes b n"
    if "(j, ms) \<in> set A \<union> set B \<or> (j, ms) \<in> set (L (\<not> buy))" "n \<in> set ms" for j ms n
    using other_levels [OF ok L that(1)] frame that(2) by blast
  have "map (level_view b' buy) A = map (level_view b buy) A" "map (level_view b' buy) B = map (level_view b buy) B"
    "map (level_view b' (\<not> buy)) (L (\<not> buy)) = map (level_view b (\<not> buy)) (L (\<not> buy))"
    using nd by (intro level_views_cong; force simp: key)+
  then show "side_view b' L' buy = map (level_view b buy) A @ level_view b' buy (i, ns') # map (level_view b buy) B"
    "side_view b' L' (\<not> buy) = side_view b L (\<not> buy)"
    by (simp_all add: side_view_def L')
qed

section \<open>Finding or creating a level\<close>

lemma set_index_id [simp]: "set_index buy (index_of buy b) b = b"
  by (simp add: set_index_def index_of_def)

lemma get_level_other [simp]: "get_level buy i (set_index (\<not> buy) t b) = get_level buy i b"
  by (simp add: get_level_def)

definition slab_same :: "OrderBook \<Rightarrow> OrderBook \<Rightarrow> bool" where
  "slab_same b b' \<longleftrightarrow> locators b' = locators b \<and> locators_size b' = locators_size b \<and>
     live_count b' = live_count b \<and> nodes_size b' = nodes_size b"

lemma slab_same_refl [simp]: "slab_same b b"
  by (simp add: slab_same_def)

lemma foc_existing:
  assumes "book_ok b L" "(i, ns) \<in> set (L buy)" "n_key (index_of buy b) i = p"
  shows "find_or_create_level buy p b = Inr (Some i, b)"
proof -
  have "i \<in> set (map fst (L buy))" using assms(2) by force
  from side_index.emplace_found [OF book_okD(5) [OF assms(1)] this assms(3)]
  show ?thesis by (simp add: find_or_create_level_def)
qed

lemma foc_no_room:
  assumes "book_ok b L" "p \<notin> n_key (index_of buy b) ` fst ` set (L buy)" "rb_free (index_of buy b) = []"
  shows "find_or_create_level buy p b = Inl Bad_alloc"
  using side_index.emplace_full [OF book_okD(5) [OF assms(1)], of p] assms(2,3)
  by (simp add: find_or_create_level_def image_image)

lemma emplace_book:
  assumes ok: "book_ok b L" and new: "p \<notin> n_key (index_of buy b) ` fst ` set (L buy)"
    and room: "rb_free (index_of buy b) \<noteq> []"
  obtains z t1 A B where "try_emplace (prec_of buy) p (index_of buy b) = Inr (z, True, t1)" "L buy = A @ B"
    "index_ok (prec_of buy) t1 (map fst A @ z # map fst B)" "z \<notin> fst ` set (L buy)"
    "n_key t1 = (n_key (index_of buy b))(z := p)" "n_val t1 = (n_val (index_of buy b))(z := PriceLevel_init)"
proof -
  have "p \<notin> n_key (index_of buy b) ` set (map fst (L buy))" using new by simp
  from side_index.emplace_new [OF book_okD(5) [OF ok, of buy] this] room obtain z t1 ls rs where
    e: "try_emplace (prec_of buy) p (index_of buy b) = Inr (z, True, t1)" "map fst (L buy) = ls @ rs"
    "index_ok (prec_of buy) t1 (ls @ z # rs)" "z \<notin> set (map fst (L buy))"
    "n_key t1 = (n_key (index_of buy b))(z := p)" "n_val t1 = (n_val (index_of buy b))(z := PriceLevel_init)"
    by blast
  from e(2) obtain A B where "L buy = A @ B" "ls = map fst A" "rs = map fst B"
    by (auto simp: map_eq_append_conv)
  with e show thesis by (intro that [of z t1 A B]) auto
qed

text \<open>A fresh level whose node cannot be had is taken out again.\<close>

lemma foc_no_node:
  assumes ok: "book_ok b L" and new: "p \<notin> n_key (index_of buy b) ` fst ` set (L buy)"
    and room: "rb_free (index_of buy b) \<noteq> []" and fr: "free_nodes b = []"
  shows "\<exists>b'. find_or_create_level buy p b = Inr (None, b') \<and> book_ok b' L \<and>
    side_view b' L = side_view b L \<and> slab_same b b' \<and> nodes b' = nodes b"
proof -
  let ?t = "index_of buy b"
  from emplace_book [OF ok new room] obtain z t1 A B where
    e: "try_emplace (prec_of buy) p ?t = Inr (z, True, t1)" "L buy = A @ B"
    "index_ok (prec_of buy) t1 (map fst A @ z # map fst B)" "z \<notin> fst ` set (L buy)"
    "n_key t1 = (n_key ?t)(z := p)" "n_val t1 = (n_val ?t)(z := PriceLevel_init)" by metis
  define t2 b' where "t2 = rb_erase z t1" and "b' = set_index buy t2 b"
  note er = index_ok_erase [OF e(3), folded t2_def]
  have res: "find_or_create_level buy p b = Inr (None, b')"
    using e(1) fr by (simp add: find_or_create_level_def alloc_node_def Let_def t2_def b'_def)
  have kv: "n_key t2 j = n_key ?t j" "n_val t2 j = n_val ?t j" if "(j, ms) \<in> set (L buy)" for j ms
  proof -
    have "j \<noteq> z" using that e(4) by force
    then show "n_key t2 j = n_key ?t j" "n_val t2 j = n_val ?t j" using er e by simp_all
  qed
  have L2: "L buy = [] @ L buy @ []" "L = L(buy := [] @ L buy @ [])" by simp_all
  have P: "distinct (chain_of L buy)" "set (chain_of L buy) \<inter> set (free_nodes b) = {}"
    using book_okD(3) [OF ok] pool_ok_alt [of b L buy] chains_alt [of L buy] by auto
  have "idx_ok b' L" "lvls_ok b' L" "pool_ok b' L"
    by (rule level_splice [OF book_okD(1-3) [OF ok] L2];
        use er(1) e(2) kv book_okD(6) [OF ok] P fr in \<open>auto simp: b'_def get_level_def chain_of_def\<close>)+
  moreover have "slab_ok b' (chains L)"
    by (rule slab_transfer [OF book_okD(4) [OF ok]]) (simp_all add: b'_def)
  moreover have "side_view b' L s = side_view b L s" for s
    unfolding side_view_def by (rule level_views_cong) (use kv in \<open>cases "s = buy"; force simp: b'_def\<close>)+
  ultimately show ?thesis using res by (auto simp: book_ok_def slab_same_def b'_def)
qed

lemma pin_reset_node: "pin_ok (pin_reset n)" "node_orders (pin_reset n) = []" "fifo (pin_reset n) = []"
  using pin_rep_reset [of n] by (auto simp: pin_rep_iff)

lemma foc_new:
  assumes ok: "book_ok b L" and new: "p \<notin> n_key (index_of buy b) ` fst ` set (L buy)"
    and room: "rb_free (index_of buy b) \<noteq> []" and fr: "free_nodes b = n # fr"
  shows "\<exists>b' i A B. find_or_create_level buy p b = Inr (Some i, b') \<and> L buy = A @ B \<and>
    book_ok b' (L(buy := A @ (i, [n]) # B)) \<and> n_key (index_of buy b') i = p \<and> level_orders (nodes b') [n] = [] \<and>
    map (level_view b' buy) A = map (level_view b buy) A \<and> map (level_view b' buy) B = map (level_view b buy) B \<and>
    side_view b' (L(buy := A @ (i, [n]) # B)) (\<not> buy) = side_view b L (\<not> buy) \<and> slab_same b b'"
proof -
  let ?t = "index_of buy b"
  from emplace_book [OF ok new room] obtain z t1 A B where
    e: "try_emplace (prec_of buy) p ?t = Inr (z, True, t1)" "L buy = A @ B"
    "index_ok (prec_of buy) t1 (map fst A @ z # map fst B)" "z \<notin> fst ` set (L buy)"
    "n_key t1 = (n_key ?t)(z := p)" "n_val t1 = (n_val ?t)(z := PriceLevel_init)" by metis
  note AB = e(2)
  define L' where "L' = L(buy := A @ (z, [n]) # B)"
  define l where "l = PriceLevel_init\<lparr>lvl_price := p, lvl_head := n, lvl_tail := n\<rparr>"
  define b' where "b' = set_level buy z l (set_node n (pin_reset (nodes b n)) ((set_index buy t1 b)\<lparr>free_nodes := fr\<rparr>))"
  have nf: "n \<in> set (free_nodes b)" using fr by simp
  then have nn: "n \<noteq> INVALID_INDEX" "n < nodes_size b" using pool_invalid [OF book_okD(3) [OF ok]] by auto
  have nc: "n \<notin> chains L" using book_okD(3) [OF ok] pool_ok_alt [of b L buy] nf by auto
  have ix': "index_of buy b' = set_val z l t1" "index_of (\<not> buy) b' = index_of (\<not> buy) b"
    "nodes b' = (nodes b)(n := pin_reset (nodes b n))" "free_nodes b' = fr" "slab_same b b'"
    "nodes_size b' = nodes_size b"
    by (simp_all add: b'_def slab_same_def)
  have res: "find_or_create_level buy p b = Inr (Some z, b')"
    using e(1) fr nn e(6) by (simp add: find_or_create_level_def alloc_node_def Let_def b'_def l_def get_level_def)
  have kv: "n_key (index_of buy b') j = n_key ?t j" "get_level buy j b' = get_level buy j b"
    if "(j, ms) \<in> set A \<union> set B" for j ms
  proof -
    have "j \<noteq> z" using that e(4) AB by force
    then show "n_key (index_of buy b') j = n_key ?t j" "get_level buy j b' = get_level buy j b"
      using e by (simp_all add: ix' get_level_def)
  qed
  have fd: "distinct (n # fr)" using book_okD(3) [OF ok] fr by (simp add: pool_ok_def)
  have L2: "L buy = A @ [] @ B" "L' = L(buy := A @ [(z, [n])] @ B)" by (simp_all add: AB L'_def)
  have lz: "level_ok (nodes b') buy p l [n]"
    using nn by (simp add: level_ok_def l_def ix' dll_def PriceLevel_init_def pin_reset_node)
  have "idx_ok b' L'" "lvls_ok b' L'" "pool_ok b' L'"
    by (rule level_splice [OF book_okD(1-3) [OF ok] L2];
        use e(3,5) AB kv lz nc fd fr in \<open>auto simp: ix' get_level_def\<close>)+
  moreover have ch: "chains L' = insert n (chains L)"
    unfolding chains_alt [of L' buy] chains_alt [of L buy] by (auto simp: L'_def chain_of_def AB)
  have "slab_ok b' (chains L')"
    by (rule slab_transfer [OF book_okD(4) [OF ok]]; use ix'(5) nc ch in \<open>auto simp: ix'(3) slab_same_def pin_reset_node\<close>)
  moreover have fr': "nodes b' m = nodes b m" if "(j, ms) \<in> set (L s)" "m \<in> set ms" for j ms m s
    using chain_member [of j ms L s, OF that(1)] that(2) nc ix'(3) by auto
  have "map (level_view b' buy) A = map (level_view b buy) A" "map (level_view b' buy) B = map (level_view b buy) B"
    by (rule level_views_cong; use kv fr' [of _ _ buy] AB in \<open>fastforce\<close>)+
  moreover have "map (level_view b' (\<not> buy)) (L (\<not> buy)) = map (level_view b (\<not> buy)) (L (\<not> buy))"
    by (rule level_views_cong; use fr' [of _ _ "\<not> buy"] ix'(2) in fastforce)
  ultimately show ?thesis using res e(5) ix' AB
    by (intro exI [of _ b'] exI [of _ z] exI [of _ A] exI [of _ B])
      (auto simp: book_ok_def L'_def side_view_def pin_reset_node)
qed

section \<open>Room at the tail\<close>

lemma pin_link_upd [simp]:
  "fifo (n\<lparr>next_node := x\<rparr>) = fifo n" "fifo (n\<lparr>prev_node := x\<rparr>) = fifo n"
  "node_orders (n\<lparr>next_node := x\<rparr>) = node_orders n" "node_orders (n\<lparr>prev_node := x\<rparr>) = node_orders n"
  "pin_ok (n\<lparr>next_node := x\<rparr>) = pin_ok n" "pin_ok (n\<lparr>prev_node := x\<rparr>) = pin_ok n"
  by (simp_all add: fifo_def node_orders_def pin_ok_def pin_rep_def pin_count_def)

lemma level_tail:
  assumes ok: "book_ok b L" and L: "L buy = A @ (i, ns) # B" and ns: "ns \<noteq> []"
  shows "lvl_tail (get_level buy i b) = last ns" "last ns \<noteq> INVALID_INDEX" "last ns \<in> set ns" "pin_ok (nodes b (last ns))"
proof -
  have m: "(i, ns) \<in> set (L buy)" by (simp add: L)
  note lo = book_okD(6) [OF ok m]
  show l: "last ns \<in> set ns" using ns by simp
  with lo ns show "lvl_tail (get_level buy i b) = last ns" "pin_ok (nodes b (last ns))"
    by (auto simp: level_ok_def dll_def final_def)
  show "last ns \<noteq> INVALID_INDEX" using lo l by (metis dll_def level_ok_def)
qed

lemma tail_room:
  assumes "book_ok b L" "L buy = A @ (i, ns) # B" "ns \<noteq> []" "\<not> pin_full (nodes b (last ns))"
  shows "ensure_tail_with_space buy i b = (last ns, b)"
  using level_tail [OF assms(1-3)] assms(4) by (simp add: ensure_tail_with_space_def)

lemma tail_no_node:
  assumes "book_ok b L" "L buy = A @ (i, ns) # B" "ns \<noteq> []" "pin_full (nodes b (last ns))" "free_nodes b = []"
  shows "ensure_tail_with_space buy i b = (INVALID_INDEX, b)"
  using level_tail [OF assms(1-3)] assms(4,5) by (simp add: ensure_tail_with_space_def alloc_node_def)

lemma tail_grow:
  assumes ok: "book_ok b L" and L: "L buy = A @ (i, ns) # B" and ns: "ns \<noteq> []"
    and full: "pin_full (nodes b (last ns))" and fr: "free_nodes b = n # fr"
  defines "L' \<equiv> L(buy := A @ (i, ns @ [n]) # B)"
  shows "\<exists>b'. ensure_tail_with_space buy i b = (n, b') \<and> book_ok b' L' \<and> side_view b' L' = side_view b L \<and>
    slab_same b b' \<and> node_orders (nodes b' n) = [] \<and> index_of (\<not> buy) b' = index_of (\<not> buy) b \<and>
    n_key (index_of buy b') = n_key (index_of buy b)"
proof -
  note T = level_tail [OF ok L ns]
  let ?t = "last ns" and ?l = "get_level buy i b"
  define b' where "b' = set_level buy i (?l\<lparr>lvl_tail := n\<rparr>) ((b\<lparr>free_nodes := fr,
      nodes := (nodes b)(n := (pin_reset (nodes b n))\<lparr>prev_node := ?t\<rparr>, ?t := (nodes b ?t)\<lparr>next_node := n\<rparr>)\<rparr>))"
  have m: "(i, ns) \<in> set (L buy)" by (simp add: L)
  have nf: "n \<in> set (free_nodes b)" using fr by simp
  then have nn: "n \<noteq> INVALID_INDEX" "n \<notin> chains L" "n \<notin> set ns"
    using pool_invalid [OF book_okD(3) [OF ok]] book_okD(3) [OF ok] pool_ok_alt [of b L buy]
      chain_member [of i ns L buy, OF m] by auto
  have tn: "?t \<noteq> n" using nn(3) T(3) by auto
  have res: "ensure_tail_with_space buy i b = (n, b')"
    using T full fr nn(1) tn
    by (simp add: ensure_tail_with_space_def alloc_node_def Let_def b'_def set_node_def get_level_def fun_upd_twist)
  have nd: "nodes b' = (nodes b)(n := (pin_reset (nodes b n))\<lparr>prev_node := ?t\<rparr>, ?t := (nodes b ?t)\<lparr>next_node := n\<rparr>)"
    "slab_same b b'" "free_nodes b' = fr" "nodes_size b' = nodes_size b"
    "index_of buy b' = set_val i (?l\<lparr>lvl_tail := n\<rparr>) (index_of buy b)" "index_of (\<not> buy) b' = index_of (\<not> buy) b"
    by (simp_all add: b'_def slab_same_def)
  have each: "node_orders (nodes b' k) = node_orders (nodes b k)" "fifo (nodes b' k) = fifo (nodes b k)"
    "slots (nodes b' k) = slots (nodes b k)" if "k \<noteq> n" for k
    using that by (simp_all add: nd(1))
  have lo: "level_orders (nodes b') ns = level_orders (nodes b) ns"
    using each nn(3) unfolding level_orders_def by (metis (no_types, lifting) map_cong)
  have empty: "node_orders (nodes b' n) = []" "fifo (nodes b' n) = []"
    using tn by (simp_all add: nd(1) pin_reset_node)
  have lv: "level_ok (nodes b') buy (n_key (index_of buy b) i) (?l\<lparr>lvl_tail := n\<rparr>) (ns @ [n])"
  proof -
    note lk = book_okD(6) [OF ok m]
    have ch: "chain (\<lambda>k. next_node (nodes b k)) (\<lambda>k. prev_node (nodes b k)) INVALID_INDEX (ns @ []) INVALID_INDEX"
      and dn: "distinct (ns @ [])" "INVALID_INDEX \<notin> set ns" "lvl_head ?l = first INVALID_INDEX ns"
      using lk by (auto simp: level_ok_def dll_def)
    have ft: "final INVALID_INDEX ns = ?t" using ns by (simp add: final_def)
    have "chain (\<lambda>k. next_node (nodes b' k)) (\<lambda>k. prev_node (nodes b' k)) INVALID_INDEX (ns @ n # []) INVALID_INDEX"
      by (rule chain_insert [OF ch dn(1)]) (use tn ft nn(3) ns in \<open>auto simp: nd(1)\<close>)
    moreover have "lvl_head ?l = first INVALID_INDEX (ns @ [n])" using dn(3) ns by (cases ns) auto
    moreover have "\<forall>k \<in> set (ns @ [n]). pin_ok (nodes b' k)"
      using lk tn by (auto simp: level_ok_def nd(1) pin_reset_node)
    ultimately show ?thesis using lk lo empty(1) nn dn by (auto simp: level_ok_def dll_def)
  qed
  have frame: "nodes b' k = nodes b k" if "k \<in> chains L" "k \<notin> set ns" for k
    using that T(3) nn(2) by (auto simp: nd(1))
  have fd: "distinct (n # fr)" "set ns \<inter> set (n # fr) = {}" "distinct ns"
    using book_okD(3) [OF ok] pool_ok_alt [of b L buy] fr chain_member [of i ns L buy, OF m]
      level_chain_distinct [OF book_okD(3) [OF ok] m] by auto
  have "idx_ok b' L'" "lvls_ok b' L'" "pool_ok b' L'" unfolding L'_def
    by (rule level_replace [OF book_okD(1-3) [OF ok] L refl nd(5,6) lv frame]; use fd fr nd nn in auto)+
  moreover have ch: "chains L' = insert n (chains L)"
    unfolding chains_alt [of L' buy] chains_alt [of L buy] by (auto simp: L'_def chain_of_def L)
  have "slab_ok b' (chains L')"
    by (rule slab_transfer [OF book_okD(4) [OF ok]]; use nd(2) nn ch each empty in \<open>force simp: slab_same_def\<close>)
  moreover have "side_view b' L' s = side_view b L s" for s
  proof -
    have key: "n_key (index_of r b') = n_key (index_of r b)" for r using nd(5,6) by (cases "r = buy") auto
    note sv = side_view_replace [OF book_okD(3) [OF ok] L refl key frame, of "ns @ [n]", folded L'_def]
    have "level_view b' buy (i, ns @ [n]) = level_view b buy (i, ns)"
      using lo empty key by (simp add: level_view_def)
    then show ?thesis using sv L by (cases "s = buy") (auto simp: side_view_def)
  qed
  ultimately show ?thesis using res nd empty by (auto simp: book_ok_def)
qed

section \<open>Putting the order in\<close>

lemma slab_same_trans: "slab_same a b \<Longrightarrow> slab_same b c \<Longrightarrow> slab_same a c"
  by (simp add: slab_same_def)

definition put_order :: "bool \<Rightarrow> nat \<Rightarrow> nat \<Rightarrow> Order \<Rightarrow> OrderBook \<Rightarrow> OrderBook" where
  "put_order buy i n o' b =
     (let (s, pn) = pin_insert (nodes b n) o'; l = get_level buy i b in
      (set_level buy i (l\<lparr>total_qty := total_qty l + ucast (o_remaining o'), order_count := order_count l + 1\<rparr>)
        (set_node n pn b))\<lparr>locators := (locators b)(unat (o_id o') := entry_of n s o'),
        live_count := live_count b + 1\<rparr>)"

lemma put_order_ok:
  assumes ok: "book_ok b L" and L: "L buy = A @ (i, ns) # B" and ns: "ns \<noteq> []"
    and room: "\<not> pin_full (nodes b (last ns))"
    and o': "o_price o' = n_key (index_of buy b) i" "(o_side o' = BUY) = buy"
    and new: "unat (o_id o') < locators_size b" "se_node (locators b (unat (o_id o'))) = INVALID_INDEX"
  defines "b' \<equiv> put_order buy i (last ns) o' b"
  shows "book_ok b' L" "side_view b' L buy = map (level_view b buy) A @
      (o_price o', level_orders (nodes b) ns @ [o']) # map (level_view b buy) B"
    "side_view b' L (\<not> buy) = side_view b L (\<not> buy)" "fst (pin_insert (nodes b (last ns)) o') \<noteq> INVALID_INDEX"
proof -
  note T = level_tail [OF ok L ns]
  let ?n = "last ns" and ?l = "get_level buy i b" and ?ms = "butlast ns"
  obtain s pn where ins: "pin_insert (nodes b ?n) o' = (s, pn)" by force
  have r: "pin_rep (nodes b ?n) (fifo (nodes b ?n))" using T(4) by (simp add: pin_ok_def)
  note I = pin_insert_rep [OF r room ins]
  have f: "fifo pn = fifo (nodes b ?n) @ [s]" using pin_rep_fifo [OF I(1)] .
  have no: "node_orders pn = node_orders (nodes b ?n) @ [o']" using I(3,4) f by (simp add: node_orders_def)
  show "fst (pin_insert (nodes b (last ns)) o') \<noteq> INVALID_INDEX"
    using I(2) ins by (simp add: CAPACITY_def INVALID_INDEX_def)
  let ?l' = "?l\<lparr>total_qty := total_qty ?l + ucast (o_remaining o'), order_count := order_count ?l + 1\<rparr>"
  have b': "nodes b' = (nodes b)(?n := pn)" "index_of buy b' = set_val i ?l' (index_of buy b)"
    "index_of (\<not> buy) b' = index_of (\<not> buy) b" "free_nodes b' = free_nodes b" "nodes_size b' = nodes_size b"
    "locators b' = (locators b)(unat (o_id o') := entry_of ?n s o')" "locators_size b' = locators_size b"
    "live_count b' = live_count b + 1"
    by (simp_all add: b'_def put_order_def ins Let_def)
  have m: "(i, ns) \<in> set (L buy)" by (simp add: L)
  note lk = book_okD(6) [OF ok m]
  have split: "ns = ?ms @ [?n]" using ns by simp
  have dn: "distinct ns" using lk by (simp add: level_ok_def dll_def)
  then have nm: "?n \<notin> set ?ms" using split by (metis distinct_append not_distinct_conv_prefix)
  have "level_orders (nodes b') ?ms = level_orders (nodes b) ?ms"
    using nm by (intro level_orders_cong) (auto simp: b'(1))
  then have lo: "level_orders (nodes b') ns = level_orders (nodes b) ns @ [o']"
    using no b'(1) by (subst (1 2) split) (simp only: level_orders_simps, simp)
  have "dll INVALID_INDEX (\<lambda>k. next_node (nodes b' k)) (\<lambda>k. prev_node (nodes b' k)) (lvl_head ?l) (lvl_tail ?l) ns"
    using lk dll_cong [of ns "\<lambda>k. next_node (nodes b' k)" "\<lambda>k. next_node (nodes b k)"
        "\<lambda>k. prev_node (nodes b' k)" "\<lambda>k. prev_node (nodes b k)"] I(5,6)
    by (auto simp: level_ok_def b'(1))
  moreover have "\<forall>k \<in> set ns. pin_ok (nodes b' k)"
    using lk I(1) f by (auto simp: level_ok_def b'(1) pin_rep_iff)
  moreover have "ucast (o_remaining o') = (of_nat (unat (o_remaining o')) :: 64 word)" by simp
  ultimately have lv: "level_ok (nodes b') buy (n_key (index_of buy b) i) ?l' ns"
    using lk o' by (auto simp: level_ok_def lo)
  have frame: "nodes b' k = nodes b k" if "k \<in> chains L" "k \<notin> set ns" for k
    using that T(3) by (auto simp: b'(1))
  have nsf: "set ns \<inter> set (free_nodes b) = {}" "distinct (free_nodes b)"
    using book_okD(3) [OF ok] pool_ok_alt [of b L buy] chain_member [of i ns L buy, OF m] by auto
  have L': "L = L(buy := A @ (i, ns) # B)" by (simp add: L [symmetric])
  have "idx_ok b' L" "lvls_ok b' L" "pool_ok b' L"
    by (rule level_replace [OF book_okD(1-3) [OF ok] L L' b'(2,3) lv frame]; use nsf dn b' in auto)+
  moreover have "slab_ok b' (chains L)"
    by (rule slab_insert [OF book_okD(4) [OF ok] _ _ new _ f I(4,3) b'(1,7,6,8)])
      (use T(3) chain_member [of i ns L buy, OF m] pool_invalid(2) [OF book_okD(3) [OF ok]] in auto)
  ultimately show "book_ok b' L" by (simp add: book_ok_def)
  have key: "n_key (index_of r b') = n_key (index_of r b)" for r using b'(2,3) by (cases "r = buy") auto
  note sv = side_view_replace [OF book_okD(3) [OF ok] L L' key frame]
  show "side_view b' L buy = map (level_view b buy) A @
      (o_price o', level_orders (nodes b) ns @ [o']) # map (level_view b buy) B"
    "side_view b' L (\<not> buy) = side_view b L (\<not> buy)"
    using sv lo o'(1) key by (simp_all add: level_view_def)
qed

section \<open>Adding refines enqueueing\<close>

lemma settled_view: "settled b L \<longleftrightarrow> (\<forall>buy. \<forall>(p, q) \<in> set (side_view b L buy). q \<noteq> [])"
  by (force simp: settled_def side_view_def level_view_def)

lemma view_sorted:
  assumes "book_ok b L"
  shows "sorted_wrt (prec_of buy) (map fst (side_view b L buy))"
proof -
  have "map fst (side_view b L buy) = map (n_key (index_of buy b)) (map fst (L buy))"
    by (auto simp: side_view_def level_view_def)
  then show ?thesis using side_index.sorted [OF book_okD(5) [OF assms]] by simp
qed

lemma put_order_add_impl:
  assumes "find_or_create_level buy (o_price o') b = Inr (Some i, b1)"
    "ensure_tail_with_space buy i b1 = (n, b2)" "n \<noteq> INVALID_INDEX"
    "fst (pin_insert (nodes b2 n) o') \<noteq> INVALID_INDEX"
  shows "add_impl buy o' b = Inr (True, put_order buy i n o' b2)"
  using assms by (auto simp: add_impl_def put_order_def entry_of_def Let_def split_beta)

text \<open>The levels around the place where an order goes.\<close>

lemma enqueue_at:
  assumes ok: "book_ok b L" and L: "L buy = A @ (i, ns) # B" and p: "n_key (index_of buy b) i = o_price o'"
  shows "enqueue (prec_of buy) o' (map (level_view b buy) A @ (o_price o', q) # map (level_view b buy) B) =
      map (level_view b buy) A @ (o_price o', q @ [o']) # map (level_view b buy) B"
    "enqueue (prec_of buy) o' (map (level_view b buy) A @ map (level_view b buy) B) =
      map (level_view b buy) A @ (o_price o', [o']) # map (level_view b buy) B"
proof -
  have so: "sorted_wrt (prec_of buy) (map fst (map (level_view b buy) A @ level_view b buy (i, ns) # map (level_view b buy) B))"
    using view_sorted [OF ok, of buy] L by (simp add: side_view_def)
  then have "\<forall>(r, x) \<in> set (map (level_view b buy) A). prec_of buy r (o_price o')"
    "\<forall>(r, x) \<in> set (map (level_view b buy) B). prec_of buy (o_price o') r"
    by (auto simp: sorted_wrt_append level_view_def p)
  then show "enqueue (prec_of buy) o' (map (level_view b buy) A @ (o_price o', q) # map (level_view b buy) B) =
      map (level_view b buy) A @ (o_price o', q @ [o']) # map (level_view b buy) B"
    "enqueue (prec_of buy) o' (map (level_view b buy) A @ map (level_view b buy) B) =
      map (level_view b buy) A @ (o_price o', [o']) # map (level_view b buy) B"
    using enqueue_existing [OF price_order_prec_of] enqueue_new [OF price_order_prec_of] by blast+
qed

definition added :: "OrderBook \<Rightarrow> shape \<Rightarrow> Order \<Rightarrow> bool \<Rightarrow> OrderBook \<Rightarrow> shape \<Rightarrow> bool" where
  "added b L o' ok b' L' \<longleftrightarrow> (let buy = (o_side o' = BUY) in book_ok b' L' \<and> settled b' L' \<and>
     side_view b' L' buy = (if ok then enqueue (prec_of buy) o' (side_view b L buy) else side_view b L buy) \<and>
     side_view b' L' (\<not> buy) = side_view b L (\<not> buy) \<and> locators_size b' = locators_size b)"

lemma pin_empty_room: "pin_ok n \<Longrightarrow> node_orders n = [] \<Longrightarrow> \<not> pin_full n"
  using pin_full_iff [of n "fifo n"] by (auto simp: pin_ok_def node_orders_def CAPACITY_def)

lemma settledI:
  assumes "settled b L" "\<And>p q. (p, q) \<in> set (side_view b' L' buy) \<Longrightarrow> q \<noteq> []"
    "side_view b' L' (\<not> buy) = side_view b L (\<not> buy)"
  shows "settled b' L'"
  unfolding settled_view
proof
  fix s
  show "\<forall>(p, q) \<in> set (side_view b' L' s). q \<noteq> []"
  proof (cases "s = buy")
    case True
    then show ?thesis using assms(2) by auto
  next
    case False
    then have "s = (\<not> buy)" by auto
    then show ?thesis using assms(1,3) by (simp add: settled_view)
  qed
qed

text \<open>The level of the order is there: the order joins its queue, unless a node is needed and none is free.\<close>

lemma add_existing:
  assumes ok: "book_ok b L" "settled b L" and L: "L (o_side o' = BUY) = A @ (i, ns) # B"
    and p: "n_key (index_of (o_side o' = BUY) b) i = o_price o'"
    and new: "unat (o_id o') < locators_size b" "se_node (locators b (unat (o_id o'))) = INVALID_INDEX"
  shows "\<exists>r b' L'. add_impl (o_side o' = BUY) o' b = Inr (r, b') \<and> added b L o' r b' L' \<and>
    (r \<or> free_nodes b = [])"
proof -
  define buy where "buy = (o_side o' = BUY)"
  note L = L [folded buy_def] and p = p [folded buy_def]
  have m: "(i, ns) \<in> set (L buy)" by (simp add: L)
  have q: "level_orders (nodes b) ns \<noteq> []" using ok(2) m by (force simp: settled_def)
  then have ns: "ns \<noteq> []" by auto
  note foc = foc_existing [OF ok(1) m p]
  note eq = enqueue_at(1) [OF ok(1) L p]
  have sv: "side_view b L buy = map (level_view b buy) A @ (o_price o', level_orders (nodes b) ns) # map (level_view b buy) B"
    using L p by (simp add: side_view_def level_view_def)
  have put: "added b L o' True (put_order buy i (last ns') o' b2) L2 \<and>
      add_impl buy o' b = Inr (True, put_order buy i (last ns') o' b2)"
    if b2: "ensure_tail_with_space buy i b = (last ns', b2)" "book_ok b2 L2" "L2 buy = A @ (i, ns') # B"
      "side_view b2 L2 = side_view b L" "slab_same b b2" "ns' \<noteq> []" "\<not> pin_full (nodes b2 (last ns'))" for b2 L2 ns'
  proof -
    have view: "map (level_view b2 buy) A @ level_view b2 buy (i, ns') # map (level_view b2 buy) B =
        map (level_view b buy) A @ (o_price o', level_orders (nodes b) ns) # map (level_view b buy) B"
      using b2(4) sv side_view_split [of L2 buy, OF b2(3), of b2] by metis
    then have v: "map (level_view b2 buy) A = map (level_view b buy) A" "map (level_view b2 buy) B = map (level_view b buy) B"
      "n_key (index_of buy b2) i = o_price o'" "level_orders (nodes b2) ns' = level_orders (nodes b) ns"
      by (auto simp: level_view_def)
    note po = put_order_ok [OF b2(2,3,6,7) v(3) [symmetric] buy_def [symmetric]]
    have new2: "unat (o_id o') < locators_size b2" "se_node (locators b2 (unat (o_id o'))) = INVALID_INDEX"
      using new b2(5) by (simp_all add: slab_same_def)
    note po = po [OF new2]
    have sv': "side_view (put_order buy i (last ns') o' b2) L2 buy = enqueue (prec_of buy) o' (side_view b L buy)"
      using po(2) v eq by (simp add: sv)
    moreover have so: "side_view (put_order buy i (last ns') o' b2) L2 (\<not> buy) = side_view b L (\<not> buy)"
      using po(3) b2(4) by simp
    moreover have "settled (put_order buy i (last ns') o' b2) L2"
    proof (rule settledI [OF ok(2) _ so])
      show "q \<noteq> []" if "(r, q) \<in> set (side_view (put_order buy i (last ns') o' b2) L2 buy)" for r q
        using that enqueue_nonempty [of "side_view b L buy"] ok(2) unfolding sv' settled_view by blast
    qed
    moreover have "last ns' \<noteq> INVALID_INDEX" using level_tail(2) [OF b2(2,3,6)] .
    ultimately show ?thesis
      using po(1,4) put_order_add_impl [OF foc b2(1)] b2(5)
      by (simp add: added_def Let_def buy_def [symmetric] put_order_def split_beta slab_same_def)
  qed
  show ?thesis unfolding buy_def [symmetric]
  proof (cases "pin_full (nodes b (last ns))")
    case False
    from put [OF tail_room [OF ok(1) L ns False] ok(1) L refl slab_same_refl ns False]
    show "\<exists>r b' L'. add_impl buy o' b = Inr (r, b') \<and> added b L o' r b' L' \<and> (r \<or> free_nodes b = [])" by blast
  next
    case True
    show "\<exists>r b' L'. add_impl buy o' b = Inr (r, b') \<and> added b L o' r b' L' \<and> (r \<or> free_nodes b = [])"
    proof (cases "free_nodes b")
      case Nil
      have "add_impl buy o' b = Inr (False, b)"
        using foc tail_no_node [OF ok(1) L ns True Nil] by (simp add: add_impl_def)
      moreover have "added b L o' False b L" using ok by (simp add: added_def Let_def)
      ultimately show ?thesis using Nil by blast
    next
      case (Cons n fr)
      from tail_grow [OF ok(1) L ns True Cons] obtain b2 where
        b2: "ensure_tail_with_space buy i b = (n, b2)" "book_ok b2 (L(buy := A @ (i, ns @ [n]) # B))"
        "side_view b2 (L(buy := A @ (i, ns @ [n]) # B)) = side_view b L" "slab_same b b2" "node_orders (nodes b2 n) = []"
        by blast
      have L2: "(L(buy := A @ (i, ns @ [n]) # B)) buy = A @ (i, ns @ [n]) # B" by simp
      have "\<not> pin_full (nodes b2 (last (ns @ [n])))"
        using pin_empty_room level_tail(4) [OF b2(2) L2] b2(5) by simp
      with put [of "ns @ [n]" b2] b2 L2 show ?thesis by fastforce
    qed
  qed
qed

text \<open>A new price: the order opens a level, unless the index or the node pool is used up.\<close>

lemma add_new:
  assumes ok: "book_ok b L" "settled b L"
    and p: "o_price o' \<notin> n_key (index_of (o_side o' = BUY) b) ` fst ` set (L (o_side o' = BUY))"
    and new: "unat (o_id o') < locators_size b" "se_node (locators b (unat (o_id o'))) = INVALID_INDEX"
  shows "add_impl (o_side o' = BUY) o' b = Inl Bad_alloc \<and> rb_free (index_of (o_side o' = BUY) b) = [] \<or>
    (\<exists>r b' L'. add_impl (o_side o' = BUY) o' b = Inr (r, b') \<and> added b L o' r b' L' \<and> (r \<or> free_nodes b = []))"
proof -
  define buy where "buy = (o_side o' = BUY)"
  note p = p [folded buy_def]
  show ?thesis unfolding buy_def [symmetric]
  proof (cases "rb_free (index_of buy b) = []")
    case True
    then show "add_impl buy o' b = Inl Bad_alloc \<and> rb_free (index_of buy b) = [] \<or>
      (\<exists>r b' L'. add_impl buy o' b = Inr (r, b') \<and> added b L o' r b' L' \<and> (r \<or> free_nodes b = []))"
      using foc_no_room [OF ok(1) p True] by (simp add: add_impl_def)
  next
    case room: False
    have "\<exists>r b' L'. add_impl buy o' b = Inr (r, b') \<and> added b L o' r b' L' \<and> (r \<or> free_nodes b = [])"
    proof (cases "free_nodes b")
      case Nil
      from foc_no_node [OF ok(1) p room Nil] obtain b' where
        b': "find_or_create_level buy (o_price o') b = Inr (None, b')" "book_ok b' L" "side_view b' L = side_view b L"
        "slab_same b b'" by blast
      then have "add_impl buy o' b = Inr (False, b')" by (simp add: add_impl_def)
      moreover have "added b L o' False b' L"
        using b' ok(2) by (simp add: added_def Let_def settled_view slab_same_def)
      ultimately show ?thesis using Nil by blast
    next
      case (Cons n fr)
      from foc_new [OF ok(1) p room Cons] obtain b1 i A B where
        foc: "find_or_create_level buy (o_price o') b = Inr (Some i, b1)" and AB: "L buy = A @ B"
        and b1: "book_ok b1 (L(buy := A @ (i, [n]) # B))" "n_key (index_of buy b1) i = o_price o'"
          "level_orders (nodes b1) [n] = []" "map (level_view b1 buy) A = map (level_view b buy) A"
          "map (level_view b1 buy) B = map (level_view b buy) B"
          "side_view b1 (L(buy := A @ (i, [n]) # B)) (\<not> buy) = side_view b L (\<not> buy)" "slab_same b b1" by blast
      define L' where "L' = L(buy := A @ (i, [n]) # B)"
      note b1 = b1 [folded L'_def]
      have L': "L' buy = A @ (i, [n]) # B" by (simp add: L'_def)
      note T = level_tail [OF b1(1) L', simplified]
      have room1: "\<not> pin_full (nodes b1 (last [n]))" using pin_empty_room T b1(3) by simp
      note tr = tail_room [OF b1(1) L' _ room1, simplified]
      have new1: "unat (o_id o') < locators_size b1" "se_node (locators b1 (unat (o_id o'))) = INVALID_INDEX"
        using new b1(7) by (simp_all add: slab_same_def)
      note po = put_order_ok [OF b1(1) L' _ room1 b1(2) [symmetric] buy_def [symmetric] new1, simplified]
      let ?b = "put_order buy i n o' b1"
      have sv: "side_view ?b L' buy = enqueue (prec_of buy) o' (side_view b L buy)"
        using po(2) enqueue_at(2) [OF b1(1) L' b1(2), unfolded b1(4,5)] b1(3-5) by (simp add: side_view_def AB)
      have so: "side_view ?b L' (\<not> buy) = side_view b L (\<not> buy)" using po(3) b1(6) by simp
      have "settled ?b L'"
      proof (rule settledI [OF ok(2) _ so])
        show "q \<noteq> []" if "(r, q) \<in> set (side_view ?b L' buy)" for r q
          using that enqueue_nonempty [of "side_view b L buy"] ok(2) unfolding sv settled_view by blast
      qed
      then have "added b L o' True ?b L'"
        using po(1) sv so b1(7)
        by (simp add: added_def Let_def buy_def [symmetric] put_order_def split_beta slab_same_def)
      moreover have "add_impl buy o' b = Inr (True, ?b)"
        using put_order_add_impl [OF foc tr] T(2) po(4) by simp
      ultimately show ?thesis by blast
    qed
    then show "add_impl buy o' b = Inl Bad_alloc \<and> rb_free (index_of buy b) = [] \<or>
      (\<exists>r b' L'. add_impl buy o' b = Inr (r, b') \<and> added b L o' r b' L' \<and> (r \<or> free_nodes b = []))" by blast
  qed
qed

lemma add_ok:
  assumes ok: "book_ok b L" "settled b L" and a: "add o' b = (r, b')"
  shows "\<exists>L'. added b L o' r b' L'"
    "r \<Longrightarrow> unat (o_id o') < locators_size b \<and> se_node (locators b (unat (o_id o'))) = INVALID_INDEX"
    "\<not> r \<Longrightarrow> unat (o_id o') \<ge> locators_size b \<or> se_node (locators b (unat (o_id o'))) \<noteq> INVALID_INDEX \<or>
      free_nodes b = [] \<or> rb_free (index_of (o_side o' = BUY) b) = []"
proof -
  let ?buy = "o_side o' = BUY"
  have refl: "added b L o' False b L" using ok by (simp add: added_def Let_def)
  have all: "(\<exists>L'. added b L o' r b' L') \<and>
    (r \<longrightarrow> unat (o_id o') < locators_size b \<and> se_node (locators b (unat (o_id o'))) = INVALID_INDEX) \<and>
    (\<not> r \<longrightarrow> unat (o_id o') \<ge> locators_size b \<or> se_node (locators b (unat (o_id o'))) \<noteq> INVALID_INDEX \<or>
      free_nodes b = [] \<or> rb_free (index_of ?buy b) = [])"
  proof (cases "unat (o_id o') < locators_size b \<and> se_node (locators b (unat (o_id o'))) = INVALID_INDEX")
    case False
    then have "r = False \<and> b' = b" using a by (auto simp: add_def split: if_splits)
    with False refl show ?thesis by auto
  next
    case True
    then have new: "unat (o_id o') < locators_size b" "se_node (locators b (unat (o_id o'))) = INVALID_INDEX" by auto
    have "add_impl ?buy o' b = Inl Bad_alloc \<and> rb_free (index_of ?buy b) = [] \<or>
      (\<exists>r b' L'. add_impl ?buy o' b = Inr (r, b') \<and> added b L o' r b' L' \<and> (r \<or> free_nodes b = []))"
    proof (cases "o_price o' \<in> n_key (index_of ?buy b) ` fst ` set (L ?buy)")
      case True
      then obtain i ns where "(i, ns) \<in> set (L ?buy)" "n_key (index_of ?buy b) i = o_price o'" by force
      then show ?thesis using add_existing [OF ok _ _ new] by (metis split_list)
    next
      case False
      from add_new [OF ok False new] show ?thesis .
    qed
    moreover have "(r, b') = (case add_impl ?buy o' b of Inl e \<Rightarrow> (False, b) | Inr x \<Rightarrow> x)"
      using a True by (simp add: add_def)
    ultimately show ?thesis using True refl by fastforce
  qed
  then show "\<exists>L'. added b L o' r b' L'" by blast
  from all show "r \<Longrightarrow> unat (o_id o') < locators_size b \<and> se_node (locators b (unat (o_id o'))) = INVALID_INDEX"
    "\<not> r \<Longrightarrow> unat (o_id o') \<ge> locators_size b \<or> se_node (locators b (unat (o_id o'))) \<noteq> INVALID_INDEX \<or>
      free_nodes b = [] \<or> rb_free (index_of ?buy b) = []" by blast+
qed

end
