(* ===== verification/Book_Cancel.thy ===== *)
theory Book_Cancel
  imports Book_Refinement
begin

text \<open>
  Taking orders out of the book: the two steps that cancellation and matching share (an order
  leaves its level, an empty level leaves the index) and the refinement of \<^verbatim>\<open>cancel\<close>.
\<close>

section \<open>Identifiers are unique\<close>

lemma distinct_map_disjoint: "distinct (map f (xs @ ys)) \<Longrightarrow> x \<in> set xs \<Longrightarrow> f x \<notin> f ` set ys"
  by auto

lemma side_view_orders: "all_orders (side_view b L buy) = level_orders (nodes b) (chain_of L buy)"
proof -
  have "concat (map snd (map (level_view b buy) xs)) = level_orders (nodes b) (concat (map snd xs))" for xs
    by (induction xs) (auto simp: level_view_def)
  then show ?thesis by (simp add: all_orders_def side_view_def chain_of_def)
qed

definition positions :: "(nat \<Rightarrow> PIN_Node) \<Rightarrow> nat list \<Rightarrow> (nat \<times> nat) list" where
  "positions nd ns = concat (map (\<lambda>n. map (Pair n) (fifo (nd n))) ns)"

lemma positions_orders: "level_orders nd ns = map (\<lambda>(n, s). slots (nd n) s) (positions nd ns)"
  by (induction ns) (simp_all add: positions_def node_orders_def)

lemma positions_set: "set (positions nd ns) = {(n, s). n \<in> set ns \<and> s \<in> set (fifo (nd n))}"
  by (auto simp: positions_def)

lemma positions_distinct:
  "distinct ns \<Longrightarrow> \<forall>n \<in> set ns. distinct (fifo (nd n)) \<Longrightarrow> distinct (positions nd ns)"
  by (induction ns) (auto simp: positions_def distinct_map inj_on_def)

lemma book_node_ok:
  assumes "book_ok b L" "n \<in> chains L"
  shows "pin_ok (nodes b n)" "distinct (fifo (nodes b n))"
proof -
  obtain buy i ns where m: "(i, ns) \<in> set (L buy)" "n \<in> set ns"
    using assms(2) by (auto simp: chains_def chain_of_def)
  with book_okD(6) [OF assms(1) m(1)] show "pin_ok (nodes b n)" by (auto simp: level_ok_def)
  then show "distinct (fifo (nodes b n))" by (auto simp: pin_ok_def pin_rep_def dll_def)
qed

lemma ids_distinct:
  assumes ok: "book_ok b L"
  shows "distinct (map o_id (all_orders (side_view b L buy) @ all_orders (side_view b L (\<not> buy))))"
proof -
  let ?ns = "chain_of L buy @ chain_of L (\<not> buy)" and ?ps = "positions (nodes b) (chain_of L buy @ chain_of L (\<not> buy))"
  have ns: "set ?ns = chains L" "distinct ?ns"
    using book_okD(3) [OF ok] pool_ok_alt [of b L buy] chains_alt [of L buy] by auto
  have "distinct ?ps" using positions_distinct [OF ns(2)] book_node_ok(2) [OF ok] ns(1) by blast
  moreover have "inj_on (\<lambda>(n, s). o_id (slots (nodes b n) s)) (set ?ps)"
  proof (rule inj_onI, clarify)
    fix n s m r
    assume "(n, s) \<in> set ?ps" "(m, r) \<in> set ?ps" and e: "o_id (slots (nodes b n) s) = o_id (slots (nodes b m) r)"
    then have p: "n \<in> chains L" "s \<in> set (fifo (nodes b n))" "m \<in> chains L" "r \<in> set (fifo (nodes b m))"
      unfolding positions_set ns(1) by auto
    have "unat (o_id (slots (nodes b n) s)) = unat (o_id (slots (nodes b m) r))" using e by simp
    from slab_unique [OF book_okD(4) [OF ok] p(1,2,3,4) this] show "n = m \<and> s = r" by simp
  qed
  ultimately have "distinct (map (\<lambda>(n, s). o_id (slots (nodes b n) s)) ?ps)" by (simp add: distinct_map)
  moreover have "map (\<lambda>(n, s). o_id (slots (nodes b n) s)) ?ps = map o_id (level_orders (nodes b) ?ns)"
    by (simp add: positions_orders case_prod_unfold)
  ultimately have "distinct (map o_id (level_orders (nodes b) ?ns))" by metis
  then show ?thesis by (simp only: side_view_orders level_orders_simps)
qed

text \<open>The slab holds an id exactly when an order with this id rests.\<close>

lemma live_iff:
  assumes ok: "book_ok b L"
  shows "unat i < locators_size b \<and> se_node (locators b (unat i)) \<noteq> INVALID_INDEX \<longleftrightarrow>
    (\<exists>buy. i \<in> o_id ` set (all_orders (side_view b L buy)))"
proof
  note sl = book_okD(4) [OF ok]
  assume a: "unat i < locators_size b \<and> se_node (locators b (unat i)) \<noteq> INVALID_INDEX"
  then obtain n s where n: "n \<in> chains L" "s \<in> set (fifo (nodes b n))" "unat (o_id (slots (nodes b n) s)) = unat i"
    using slab_live [OF sl] by metis
  then obtain buy where "n \<in> set (chain_of L buy)" by (auto simp: chains_def)
  with n(2) have "slots (nodes b n) s \<in> set (all_orders (side_view b L buy))"
    unfolding side_view_orders positions_orders set_map positions_set by force
  moreover have "o_id (slots (nodes b n) s) = i" using n(3) by (simp add: word_unat_eq_iff)
  ultimately show "\<exists>buy. i \<in> o_id ` set (all_orders (side_view b L buy))" by blast
next
  note sl = book_okD(4) [OF ok]
  assume "\<exists>buy. i \<in> o_id ` set (all_orders (side_view b L buy))"
  then obtain buy n s where n: "n \<in> set (chain_of L buy)" "s \<in> set (fifo (nodes b n))" "i = o_id (slots (nodes b n) s)"
    unfolding side_view_orders positions_orders set_map positions_set by auto
  then have "n \<in> chains L" unfolding chains_alt [of L buy] by blast
  with slab_entry [OF sl this n(2)] pool_invalid(2) [OF book_okD(3) [OF ok]] n(3)
  show "unat i < locators_size b \<and> se_node (locators b (unat i)) \<noteq> INVALID_INDEX"
    by (simp add: entry_of_def)
qed

section \<open>An order leaves its level\<close>

lemma node_orders_remove:
  assumes "pin_ok n" "s \<in> set (fifo n)" "fifo pn = remove1 s (fifo n)" "\<And>r. r \<in> set (fifo pn) \<Longrightarrow> slots pn r = slots n r"
  shows "\<exists>X Y. node_orders n = X @ slots n s # Y \<and> node_orders pn = X @ Y \<and> (head_slot n = s \<longrightarrow> X = [])"
proof -
  obtain xs ys where f: "fifo n = xs @ s # ys" "s \<notin> set xs" using assms(2) by (meson split_list_first)
  have "fifo pn = xs @ ys" using f assms(3) by (simp add: remove1_append)
  moreover have "map (slots pn) (xs @ ys) = map (slots n) (xs @ ys)"
    using assms(4) calculation by (intro map_cong) auto
  moreover have "head_slot n = s \<longrightarrow> xs = []"
    using assms(1) f by (cases xs) (auto simp: pin_ok_def pin_rep_def dll_def)
  ultimately show ?thesis
    using f(1) by (intro exI [of _ "map (slots n) xs"] exI [of _ "map (slots n) ys"]) (auto simp: node_orders_def)
qed

lemma take_order:
  assumes ok: "book_ok b L" and L: "L buy = A @ (i, ns) # B" and n: "ns = ms @ n # ks"
    and s: "s \<in> set (fifo (nodes b n))" and k: "k = unat (o_id (slots (nodes b n) s))"
    and pn: "pin_ok pn" "fifo pn = remove1 s (fifo (nodes b n))"
      "\<And>r. r \<in> set (fifo pn) \<Longrightarrow> slots pn r = slots (nodes b n) r"
      "next_node pn = next_node (nodes b n)" "prev_node pn = prev_node (nodes b n)"
    and l': "l' = (get_level buy i b)\<lparr>total_qty := total_qty (get_level buy i b) - ucast (o_remaining (slots (nodes b n) s)),
      order_count := order_count (get_level buy i b) - 1\<rparr>"
    and b': "nodes b' = (nodes b)(n := pn)" "index_of buy b' = set_val i l' (index_of buy b)"
      "index_of (\<not> buy) b' = index_of (\<not> buy) b" "free_nodes b' = free_nodes b" "nodes_size b' = nodes_size b"
      "locators b' = (locators b)(k := (locators b k)\<lparr>se_node := INVALID_INDEX\<rparr>)"
      "locators_size b' = locators_size b" "live_count b' = live_count b - 1"
  shows "book_ok b' L \<and> side_view b' L (\<not> buy) = side_view b L (\<not> buy) \<and>
    (\<exists>X Y. level_orders (nodes b) ns = X @ slots (nodes b n) s # Y \<and> level_orders (nodes b') ns = X @ Y \<and>
      (ms = [] \<and> head_slot (nodes b n) = s \<longrightarrow> X = []) \<and>
      side_view b' L buy = map (level_view b buy) A @ (n_key (index_of buy b) i, X @ Y) # map (level_view b buy) B)"
proof -
  let ?o = "slots (nodes b n) s" and ?l = "get_level buy i b"
  have m: "(i, ns) \<in> set (L buy)" by (simp add: L)
  note lk = book_okD(6) [OF ok m]
  have nns: "n \<in> set ns" using n by simp
  have nC: "n \<in> chains L" using chain_member [of i ns L buy, OF m] nns by blast
  from node_orders_remove [OF book_node_ok(1) [OF ok nC] s pn(2,3)] obtain X Y where
    XY: "node_orders (nodes b n) = X @ ?o # Y" "node_orders pn = X @ Y" "head_slot (nodes b n) = s \<longrightarrow> X = []" by blast
  have dn: "distinct ns" using lk by (simp add: level_ok_def dll_def)
  then have out: "level_orders (nodes b') ms = level_orders (nodes b) ms" "level_orders (nodes b') ks = level_orders (nodes b) ks"
    using n by (auto intro!: level_orders_cong simp: b'(1))
  let ?X = "level_orders (nodes b) ms @ X" and ?Y = "Y @ level_orders (nodes b) ks"
  have lo: "level_orders (nodes b) ns = ?X @ ?o # ?Y" "level_orders (nodes b') ns = ?X @ ?Y"
    using out XY by (simp_all add: n b'(1))
  have "dll INVALID_INDEX (\<lambda>k. next_node (nodes b' k)) (\<lambda>k. prev_node (nodes b' k)) (lvl_head ?l) (lvl_tail ?l) ns"
    using lk dll_cong [of ns "\<lambda>k. next_node (nodes b' k)" "\<lambda>k. next_node (nodes b k)"
        "\<lambda>k. prev_node (nodes b' k)" "\<lambda>k. prev_node (nodes b k)"] pn(4,5)
    by (auto simp: level_ok_def b'(1))
  moreover have "\<forall>k \<in> set ns. pin_ok (nodes b' k)" using lk pn(1) by (auto simp: level_ok_def b'(1))
  moreover have "order_count l' = of_nat (length (?X @ ?Y))" "total_qty l' = of_nat (open_qty (?X @ ?Y))"
    using lk by (simp_all add: level_ok_def l' lo(1))
  ultimately have lv: "level_ok (nodes b') buy (n_key (index_of buy b) i) l' ns"
    using lk by (auto simp: level_ok_def lo l')
  have frame: "nodes b' k = nodes b k" if "k \<in> chains L" "k \<notin> set ns" for k
    using that nns by (auto simp: b'(1))
  have nsf: "set ns \<inter> set (free_nodes b) = {}" "distinct (free_nodes b)"
    using book_okD(3) [OF ok] pool_ok_alt [of b L buy] chain_member [of i ns L buy, OF m] by auto
  have L': "L = L(buy := A @ (i, ns) # B)" by (simp add: L [symmetric])
  have "idx_ok b' L" "lvls_ok b' L" "pool_ok b' L"
    by (rule level_replace [OF book_okD(1-3) [OF ok] L L' b'(2,3) lv frame]; use nsf dn b' in auto)+
  moreover have "slab_ok b' (chains L)"
    by (rule slab_remove [OF book_okD(4) [OF ok] finite_chains nC s book_node_ok(2) [OF ok nC] pn(2,3) k b'(1,7,6,8)])
  ultimately have okb: "book_ok b' L" by (simp add: book_ok_def)
  have key: "n_key (index_of r b') = n_key (index_of r b)" for r using b'(2,3) by (cases "r = buy") auto
  note sv = side_view_replace [OF book_okD(3) [OF ok] L L' key frame]
  have "side_view b' L buy = map (level_view b buy) A @ (n_key (index_of buy b) i, ?X @ ?Y) # map (level_view b buy) B"
    using sv(1) lo(2) key by (simp add: level_view_def)
  then show ?thesis using okb sv(2) lo XY(3) by (intro conjI exI [of _ ?X] exI [of _ ?Y]) auto
qed

section \<open>An empty level leaves the index\<close>

lemma free_level_loop:
  assumes "chain (\<lambda>n. next_node (nodes b n)) pv p ns INVALID_INDEX" "INVALID_INDEX \<notin> set ns" "set ns \<subseteq> {..<nodes_size b}"
  shows "while (\<lambda>(n, b). n \<noteq> INVALID_INDEX)
      (\<lambda>(n, b). ((if n < nodes_size b then next_node (nodes b n) else INVALID_INDEX), free_node n b))
      (first INVALID_INDEX ns, b) = (INVALID_INDEX, b\<lparr>free_nodes := rev ns @ free_nodes b\<rparr>)"
  using assms
proof (induction ns arbitrary: p b)
  case Nil
  then show ?case by (simp add: while_unfold)
next
  case (Cons n ns)
  let ?b = "b\<lparr>free_nodes := n # free_nodes b\<rparr>"
  have n: "n < nodes_size b" "n \<noteq> INVALID_INDEX" "next_node (nodes b n) = first INVALID_INDEX ns" using Cons.prems by auto
  then have "free_node n b = ?b" by (simp add: free_node_def)
  with n have step: "while (\<lambda>(n, b). n \<noteq> INVALID_INDEX)
      (\<lambda>(n, b). ((if n < nodes_size b then next_node (nodes b n) else INVALID_INDEX), free_node n b))
      (first INVALID_INDEX (n # ns), b) =
    while (\<lambda>(n, b). n \<noteq> INVALID_INDEX)
      (\<lambda>(n, b). ((if n < nodes_size b then next_node (nodes b n) else INVALID_INDEX), free_node n b))
      (first INVALID_INDEX ns, ?b)"
    by (subst while_unfold) simp
  have "chain (\<lambda>n. next_node (nodes ?b n)) pv n ns INVALID_INDEX" using Cons.prems by simp
  from Cons.IH [OF this] Cons.prems show ?case unfolding step by simp
qed

lemma free_level_nodes_ok:
  assumes "level_ok (nodes b) buy p l ns" "set ns \<subseteq> {..<nodes_size b}"
  shows "free_level_nodes l b = (l\<lparr>lvl_head := INVALID_INDEX, lvl_tail := INVALID_INDEX\<rparr>,
    b\<lparr>free_nodes := rev ns @ free_nodes b\<rparr>)"
proof -
  have "lvl_head l = first INVALID_INDEX ns" using assms(1) by (simp add: level_ok_def dll_def)
  moreover have "while (\<lambda>(n, b). n \<noteq> INVALID_INDEX)
      (\<lambda>(n, b). ((if n < nodes_size b then next_node (nodes b n) else INVALID_INDEX), free_node n b))
      (first INVALID_INDEX ns, b) = (INVALID_INDEX, b\<lparr>free_nodes := rev ns @ free_nodes b\<rparr>)"
    by (rule free_level_loop) (use assms in \<open>auto simp: level_ok_def dll_def\<close>)
  ultimately show ?thesis by (simp add: free_level_nodes_def)
qed

definition drop_level :: "bool \<Rightarrow> nat \<Rightarrow> OrderBook \<Rightarrow> OrderBook" where
  "drop_level buy i b =
     (let (lvl, b) = free_level_nodes (get_level buy i b) b;
          b = set_level buy i lvl b
      in set_index buy (rb_erase i (index_of buy b)) b)"

lemma drop_level_ok:
  assumes ok: "book_ok b L" and L: "L buy = A @ (i, ns) # B" and e: "level_orders (nodes b) ns = []"
  defines "L' \<equiv> L(buy := A @ B)" and "b' \<equiv> drop_level buy i b"
  shows "book_ok b' L'" "side_view b' L' buy = map (level_view b buy) A @ map (level_view b buy) B"
    "side_view b' L' (\<not> buy) = side_view b L (\<not> buy)" "slab_same b b'"
proof -
  have m: "(i, ns) \<in> set (L buy)" by (simp add: L)
  note lk = book_okD(6) [OF ok m]
  have nsC: "set ns \<subseteq> chains L" using chain_member [of i ns L buy, OF m] .
  then have "set ns \<subseteq> {..<nodes_size b}" using pool_invalid(1) [OF book_okD(3) [OF ok]] by blast
  note fl = free_level_nodes_ok [OF lk this]
  let ?l = "(get_level buy i b)\<lparr>lvl_head := INVALID_INDEX, lvl_tail := INVALID_INDEX\<rparr>"
  let ?t = "set_val i ?l (index_of buy b)"
  have b': "index_of buy b' = rb_erase i ?t" "index_of (\<not> buy) b' = index_of (\<not> buy) b" "nodes b' = nodes b"
    "free_nodes b' = rev ns @ free_nodes b" "nodes_size b' = nodes_size b" "slab_same b b'"
    by (simp_all add: b'_def drop_level_def fl Let_def slab_same_def)
  then show "slab_same b b'" by simp
  have ix: "index_ok (prec_of buy) ?t (map fst A @ i # map fst B)" using book_okD(5) [OF ok, of buy] by (simp add: L)
  note er = index_ok_erase [OF ix]
  have keep: "n_key (index_of buy b') j = n_key (index_of buy b) j \<and> get_level buy j b' = get_level buy j b"
    if "(j, x) \<in> set A \<union> set B" for j x
  proof -
    have "j \<noteq> i" using that index_ok_rep(1) [OF ix] by force
    then show ?thesis using er by (simp add: b' get_level_def)
  qed
  have L2: "L buy = A @ [(i, ns)] @ B" "L' = L(buy := A @ [] @ B)" by (simp_all add: L L'_def)
  have d: "distinct (free_nodes b)" "set ns \<inter> set (free_nodes b) = {}" "distinct ns"
    using book_okD(3) [OF ok] pool_ok_alt [of b L buy] nsC level_chain_distinct [OF book_okD(3) [OF ok] m] by auto
  have ok': "idx_ok b' L'" "lvls_ok b' L'" "pool_ok b' L'"
    by (rule level_splice [OF book_okD(1-3) [OF ok] L2]; use er(1) keep d in \<open>auto simp: b'\<close>)+
  have cl: "chain_of L buy = concat (map snd A) @ ns @ concat (map snd B)"
    "chain_of L' buy = concat (map snd A) @ concat (map snd B)" "chain_of L' (\<not> buy) = chain_of L (\<not> buy)"
    by (simp_all add: L L'_def chain_of_def)
  have sub: "chains L' \<subseteq> chains L" "n \<in> chains L \<Longrightarrow> n \<notin> chains L' \<Longrightarrow> n \<in> set ns" for n
    unfolding chains_alt [of L' buy] chains_alt [of L buy] cl by auto
  have "fifo (nodes b n) = []" if "n \<in> set ns" for n
    using e that by (auto simp: level_orders_def node_orders_def)
  then have "slab_ok b' (chains L')"
    using b'(6) sub by (intro slab_transfer [OF book_okD(4) [OF ok]]) (auto simp: b'(3) slab_same_def)
  then show "book_ok b' L'" using ok' by (simp add: book_ok_def)
  have "map (level_view b' buy) A = map (level_view b buy) A" "map (level_view b' buy) B = map (level_view b buy) B"
    by (rule level_views_cong; use keep in \<open>force simp: b'(3)\<close>)+
  then show "side_view b' L' buy = map (level_view b buy) A @ map (level_view b buy) B" by (simp add: side_view_def L'_def)
  show "side_view b' L' (\<not> buy) = side_view b L (\<not> buy)"
    by (simp add: side_view_def L'_def level_view_def b'(2,3))
qed

section \<open>The aggregates of a level\<close>

lemma unat_ucast_32_64: "unat (ucast (q :: 32 word) :: 64 word) = unat q"
proof -
  have "unat q < 2 ^ 32" using unsigned_less [of q, where ?'a = nat] by simp
  then show ?thesis by (simp add: unsigned_ucast_eq take_bit_nat_eq_self)
qed

lemma level_words:
  assumes "level_ok nd buy p l ns" "length (level_orders nd ns) < 2 ^ 32"
  shows "order_count l = 0 \<longleftrightarrow> level_orders nd ns = []"
    "unat (order_count l) = length (level_orders nd ns)" "unat (total_qty l) = open_qty (level_orders nd ns)"
    "o' \<in> set (level_orders nd ns) \<Longrightarrow> q \<le> o_remaining o' \<Longrightarrow> total_qty l \<ge> ucast q"
proof -
  let ?os = "level_orders nd ns"
  show c: "unat (order_count l) = length ?os"
    using assms by (simp add: level_ok_def unat_of_nat take_bit_nat_eq_self)
  then show "order_count l = 0 \<longleftrightarrow> ?os = []" by (metis length_0_conv unat_eq_0)
  have "open_qty ?os \<le> length ?os * (2 ^ 32 - 1)" by (rule open_qty_bound)
  also have "\<dots> \<le> (2 ^ 32 - 1) * (2 ^ 32 - 1)" using assms(2) by (intro mult_right_mono) auto
  also have "\<dots> < 2 ^ 64" by simp
  finally show t: "unat (total_qty l) = open_qty ?os"
    using assms by (simp add: level_ok_def unat_of_nat take_bit_nat_eq_self)
  assume "o' \<in> set ?os" and q: "q \<le> o_remaining o'"
  then have "unat (o_remaining o') \<le> open_qty ?os" by (auto simp: open_qty_def intro: member_le_sum_list)
  then show "total_qty l \<ge> ucast q" using t q by (simp add: word_le_nat_alt unat_ucast_32_64)
qed

section \<open>Cancelling refines dequeueing\<close>

lemma dequeue_absent:
  assumes "i \<notin> o_id ` set (all_orders sb)" "\<forall>(p, q) \<in> set sb. q \<noteq> []"
  shows "dequeue i sb = sb"
  using assms
proof (induction sb)
  case (Cons a sb)
  obtain p q where a: "a = (p, q)" by force
  have "filter (\<lambda>o'. o_id o' \<noteq> i) q = q" using Cons.prems(1) a by (intro filter_True) (auto simp: all_orders_def)
  then show ?case using Cons a by (auto simp: dequeue_def all_orders_def)
qed (simp add: dequeue_def)

lemma dequeue_append: "dequeue i (A @ B) = dequeue i A @ dequeue i B"
  by (simp add: dequeue_def)

lemma dequeue_at:
  assumes "distinct (map o_id (all_orders (A @ (p, X @ o' # Y) # B)))" "\<forall>(p, q) \<in> set (A @ B). q \<noteq> []"
  shows "dequeue (o_id o') (A @ (p, X @ o' # Y) # B) = A @ (if X @ Y = [] then [] else [(p, X @ Y)]) @ B"
proof -
  have d: "o_id o' \<notin> o_id ` set (all_orders A)" "o_id o' \<notin> o_id ` set (all_orders B)"
    "o_id o' \<notin> o_id ` set (X @ Y)"
    using assms(1) by (auto simp: all_orders_def)
  have "filter (\<lambda>x. o_id x \<noteq> o_id o') X = X" "filter (\<lambda>x. o_id x \<noteq> o_id o') Y = Y"
    using d(3) by (auto simp: image_Un intro!: filter_True) (metis imageI)+
  then have "dequeue (o_id o') [(p, X @ o' # Y)] = (if X @ Y = [] then [] else [(p, X @ Y)])"
    by (simp add: dequeue_def)
  moreover have "dequeue (o_id o') A = A" "dequeue (o_id o') B = B"
    using dequeue_absent d assms(2) by auto
  ultimately show ?thesis
    using dequeue_append [of _ A "[(p, X @ o' # Y)] @ B"] dequeue_append [of _ "[(p, X @ o' # Y)]" B] by simp
qed

lemma book_position:
  assumes ok: "book_ok b L" and n: "n \<in> chains L" "s \<in> set (fifo (nodes b n))"
  obtains buy A i ns B ms ks where "L buy = A @ (i, ns) # B" "ns = ms @ n # ks"
    "slots (nodes b n) s \<in> set (level_orders (nodes b) ns)"
    "o_price (slots (nodes b n) s) = n_key (index_of buy b) i" "(o_side (slots (nodes b n) s) = BUY) = buy"
proof -
  obtain buy i ns where m: "(i, ns) \<in> set (L buy)" "n \<in> set ns"
    using n(1) by (auto simp: chains_def chain_of_def)
  moreover have o: "slots (nodes b n) s \<in> set (level_orders (nodes b) ns)"
    using m(2) n(2) unfolding positions_orders set_map positions_set by force
  moreover note book_okD(6) [OF ok m(1)]
  moreover obtain A B where "L buy = A @ (i, ns) # B" using m(1) by (meson split_list)
  moreover obtain ms ks where "ns = ms @ n # ks" using m(2) by (meson split_list)
  ultimately show thesis using that by (auto simp: level_ok_def)
qed

lemma cancel_live:
  assumes ok: "book_ok b L" "settled b L" and n: "n \<in> chains L" "s \<in> set (fifo (nodes b n))"
    and i: "i = o_id (slots (nodes b n) s)"
  shows "\<exists>b' L'. cancel i b = (True, b') \<and> book_ok b' L' \<and> settled b' L' \<and> locators_size b' = locators_size b \<and>
    (\<forall>buy. side_view b' L' buy = dequeue i (side_view b L buy))"
proof -
  let ?o = "slots (nodes b n) s"
  from book_position [OF ok(1) n] obtain buy A j ns B ms ks where
    L: "L buy = A @ (j, ns) # B" and ns: "ns = ms @ n # ks" and om: "?o \<in> set (level_orders (nodes b) ns)"
    and op: "o_price ?o = n_key (index_of buy b) j" "(o_side ?o = BUY) = buy" by metis
  have m: "(j, ns) \<in> set (L buy)" by (simp add: L)
  note sl = slab_entry [OF book_okD(4) [OF ok(1)] n]
  note ni = pool_invalid [OF book_okD(3) [OF ok(1)], of n]
  have nn: "n < nodes_size b" "n \<noteq> INVALID_INDEX" using ni n(1) by auto
  have r: "pin_rep (nodes b n) (fifo (nodes b n))" using book_node_ok(1) [OF ok(1) n(1)] by (simp add: pin_ok_def)
  obtain xs ys where f: "fifo (nodes b n) = xs @ s # ys" "s \<notin> set xs" using n(2) by (meson split_list_first)
  obtain rem pn where rm: "pin_remove (nodes b n) s = (rem, pn)" by force
  note R = pin_remove_rep [OF r [unfolded f(1)] rm]
  have pn: "pin_ok pn" "fifo pn = remove1 s (fifo (nodes b n))" "slots pn = slots (nodes b n)"
    "next_node pn = next_node (nodes b n)" "prev_node pn = prev_node (nodes b n)"
    using R pin_rep_fifo [OF R(2)] f by (auto simp: pin_rep_iff remove1_append)
  let ?l = "get_level buy j b"
  define l' where "l' = ?l\<lparr>total_qty := total_qty ?l - ucast (o_remaining ?o), order_count := order_count ?l - 1\<rparr>"
  define b1 where "b1 = clear_slot (unat i) (set_node n pn b)"
  define b2 where "b2 = set_level buy j l' b1"
  have t: "book_ok b2 L \<and> side_view b2 L (\<not> buy) = side_view b L (\<not> buy) \<and>
    (\<exists>X Y. level_orders (nodes b) ns = X @ ?o # Y \<and> level_orders (nodes b2) ns = X @ Y \<and>
      (ms = [] \<and> head_slot (nodes b n) = s \<longrightarrow> X = []) \<and>
      side_view b2 L buy = map (level_view b buy) A @ (n_key (index_of buy b) j, X @ Y) # map (level_view b buy) B)"
    by (rule take_order [OF ok(1) L ns n(2) refl pn(1,2) _ pn(4,5) l'_def])
      (simp_all add: b2_def b1_def clear_slot_def pn(3) i)
  then obtain X Y where b2: "book_ok b2 L" "side_view b2 L (\<not> buy) = side_view b L (\<not> buy)"
    and XY: "level_orders (nodes b) ns = X @ ?o # Y" "level_orders (nodes b2) ns = X @ Y"
      "side_view b2 L buy = map (level_view b buy) A @ (o_price ?o, X @ Y) # map (level_view b buy) B"
    using op(1) by auto
  note lw = level_words [OF book_okD(6) [OF ok(1) m] level_count_exact [OF book_okD(3) [OF ok(1)] m]]
  note lw2 = level_words [OF book_okD(6) [OF b2(1) m] level_count_exact [OF book_okD(3) [OF b2(1)] m]]
  have ge: "total_qty ?l \<ge> ucast (o_remaining ?o)" using lw(4) [OF om order_refl] .
  have ne: "order_count ?l \<noteq> 0" using lw(1) XY(1) by simp
  have gl: "get_level buy j b2 = l'" by (simp add: b2_def)
  have find: "rb_find (prec_of buy) (o_price ?o) (index_of buy b1) = j"
  proof -
    have "j \<in> set (map fst (L buy))" using m by force
    from side_index.find_iff [OF book_okD(5) [OF ok(1)] this] show ?thesis
      by (simp add: op(1) b1_def clear_slot_def)
  qed
  have jn: "j \<noteq> NIL" using index_ok_rep(2) [OF book_okD(5) [OF ok(1), of buy]] m by force
  have upd: "update_after_cancel buy (o_price ?o) (o_remaining ?o) b1 =
      (if X @ Y = [] then drop_level buy j b2 else b2)"
  proof -
    have c: "order_count l' = 0 \<longleftrightarrow> X @ Y = []" using lw2(1) XY(2) gl by simp
    have g1: "get_level buy j b1 = ?l" by (simp add: b1_def clear_slot_def get_level_def)
    define l1 where "l1 = ?l\<lparr>total_qty := total_qty ?l - ucast (o_remaining ?o)\<rparr>"
    have l1: "(if ucast (o_remaining ?o) \<le> total_qty ?l then ?l\<lparr>total_qty := total_qty ?l - ucast (o_remaining ?o)\<rparr>
        else ?l\<lparr>total_qty := 0\<rparr>) = l1" using ge by (simp add: l1_def)
    have l2: "(if 0 < order_count l1 then l1\<lparr>order_count := order_count l1 - 1\<rparr> else l1) = l'"
      using ne by (simp add: l1_def l'_def word_neq_0_conv)
    show ?thesis
      unfolding update_after_cancel_def Let_def find g1 l1 l2 b2_def [symmetric] drop_level_def gl using jn c by simp
  qed
  have "cancel i b = (True, update_after_cancel buy (o_price ?o) (o_remaining ?o) b1)"
    using sl nn op(2) rm R(1) by (simp add: cancel_def i entry_of_def Let_def b1_def not_le)
  then have res: "cancel i b = (True, if X @ Y = [] then drop_level buy j b2 else b2)" using upd by simp
  have sv: "side_view b L buy = map (level_view b buy) A @ (o_price ?o, X @ ?o # Y) # map (level_view b buy) B"
    using L XY(1) op(1) by (simp add: side_view_def level_view_def)
  have dist: "distinct (map o_id (all_orders (side_view b L buy) @ all_orders (side_view b L (\<not> buy))))"
    using ids_distinct [OF ok(1)] .
  have nonempty: "\<forall>(p, q) \<in> set (side_view b L s'). q \<noteq> []" for s' using ok(2) by (simp add: settled_view)
  have deq: "dequeue i (side_view b L buy) =
      map (level_view b buy) A @ (if X @ Y = [] then [] else [(o_price ?o, X @ Y)]) @ map (level_view b buy) B"
    unfolding i sv
  proof (rule dequeue_at)
    show "distinct (map o_id (all_orders (map (level_view b buy) A @ (o_price ?o, X @ ?o # Y) # map (level_view b buy) B)))"
      using dist unfolding sv map_append by (rule distinct_append [THEN iffD1, THEN conjunct1])
    show "\<forall>(p, q) \<in> set (map (level_view b buy) A @ map (level_view b buy) B). q \<noteq> []"
      using nonempty [of buy] unfolding sv by auto
  qed
  have "?o \<in> set (all_orders (side_view b L buy))" by (simp add: sv all_orders_def)
  then have "i \<notin> o_id ` set (all_orders (side_view b L (\<not> buy)))"
    unfolding i by (rule distinct_map_disjoint [OF dist])
  then have oth: "dequeue i (side_view b L (\<not> buy)) = side_view b L (\<not> buy)"
    using dequeue_absent [OF _ nonempty] by blast
  have A0: "map (level_view b2 buy) A = map (level_view b buy) A" "map (level_view b2 buy) B = map (level_view b buy) B"
    using XY(3) L by (auto simp: side_view_def dest: map_eq_imp_length_eq)
  have sz: "locators_size b2 = locators_size b" by (simp add: b2_def b1_def clear_slot_def)
  have fin: "\<exists>b' L'. cancel i b = (True, b') \<and> book_ok b' L' \<and> locators_size b' = locators_size b \<and>
    side_view b' L' buy = dequeue i (side_view b L buy) \<and> side_view b' L' (\<not> buy) = side_view b L (\<not> buy)"
  proof (cases "X @ Y = []")
    case True
    note dr = drop_level_ok [OF b2(1) L XY(2) [unfolded True]]
    show ?thesis using res True dr A0 b2(2) deq sz
      by (intro exI [of _ "drop_level buy j b2"] exI [of _ "L(buy := A @ B)"]) (simp add: slab_same_def)
  next
    case False
    then have "cancel i b = (True, b2)" "side_view b2 L buy = dequeue i (side_view b L buy)"
      using res XY(3) deq by (simp_all only: if_False append_Cons append_Nil)
    then show ?thesis using b2 sz by blast
  qed
  then obtain b' L' where b': "cancel i b = (True, b')" "book_ok b' L'" "locators_size b' = locators_size b"
    "side_view b' L' buy = dequeue i (side_view b L buy)" "side_view b' L' (\<not> buy) = side_view b L (\<not> buy)" by blast
  have "settled b' L'"
    by (rule settledI [OF ok(2) _ b'(5)]) (auto simp: b'(4) dequeue_def)
  moreover have "side_view b' L' s' = dequeue i (side_view b L s')" for s'
    using b'(4,5) oth by (cases "s' = buy") auto
  ultimately show ?thesis using b' by blast
qed

lemma cancel_ok:
  assumes ok: "book_ok b L" "settled b L" and c: "cancel i b = (r, b')"
  shows "\<exists>L'. book_ok b' L' \<and> settled b' L' \<and> (\<forall>buy. side_view b' L' buy = dequeue i (side_view b L buy))"
    "r \<longleftrightarrow> (\<exists>buy. i \<in> o_id ` set (all_orders (side_view b L buy)))" "\<not> r \<Longrightarrow> b' = b"
    "locators_size b' = locators_size b"
proof -
  let ?live = "unat i < locators_size b \<and> se_node (locators b (unat i)) \<noteq> INVALID_INDEX"
  note lv = live_iff [OF ok(1), of i]
  have "(\<exists>L'. book_ok b' L' \<and> settled b' L' \<and> (\<forall>buy. side_view b' L' buy = dequeue i (side_view b L buy))) \<and>
    r = ?live \<and> (\<not> r \<longrightarrow> b' = b) \<and> locators_size b' = locators_size b"
  proof (cases ?live)
    case True
    then obtain n s where n: "n \<in> chains L" "s \<in> set (fifo (nodes b n))" "unat (o_id (slots (nodes b n) s)) = unat i"
      using slab_live [OF book_okD(4) [OF ok(1)]] by metis
    then have "i = o_id (slots (nodes b n) s)" by (simp add: word_unat_eq_iff)
    from cancel_live [OF ok n(1,2) this] True c show ?thesis by auto
  next
    case False
    then have rb: "r = False" "b' = b" using c by (auto simp: cancel_def split: if_splits)
    have "dequeue i (side_view b L buy) = side_view b L buy" for buy
      using False lv ok(2) by (intro dequeue_absent) (auto simp: settled_view)
    then show ?thesis using rb False ok by auto
  qed
  then show "\<exists>L'. book_ok b' L' \<and> settled b' L' \<and> (\<forall>buy. side_view b' L' buy = dequeue i (side_view b L buy))"
    "r \<longleftrightarrow> (\<exists>buy. i \<in> o_id ` set (all_orders (side_view b L buy)))" "\<not> r \<Longrightarrow> b' = b"
    "locators_size b' = locators_size b"
    using lv by auto
qed

end
