(* ===== verification/Matcher.thy ===== *)
theory Matcher
  imports Book_Cancel
begin

text \<open>
  The matching state machine, \<^verbatim>\<open>include/titan/book/matcher.hpp\<close>. A function of the class that changes
  the book, the incoming order, the sink and the result takes and returns the tuple of these four.
  The sink is the list of the events it has accepted: \<^verbatim>\<open>emit\<close> spins until the sink takes
  the event, so that each call adds exactly one. The exception handler of \<^verbatim>\<open>submit\<close> is
  not modelled: none of the calls it guards throws (\<^verbatim>\<open>add\<close> catches what the index throws itself).

  This theory holds the operations. \<^verbatim>\<open>Matcher_Refinement\<close> relates them to matching on lists.
\<close>

record MatchResult =
  filled :: Qty
  residual :: Qty
  trades :: "32 word"
  rested :: bool
  rejected :: bool
  canceled :: bool

definition MatchResult_init :: MatchResult where
  "MatchResult_init = \<lparr>filled = 0, residual = 0, trades = 0, rested = False, rejected = False, canceled = False\<rparr>"

type_synonym mstate = "OrderBook \<times> Order \<times> TradeEvent list \<times> MatchResult"

definition fill_event :: "Order \<Rightarrow> bool \<Rightarrow> Order \<times> Qty \<Rightarrow> TradeEvent" where
  "fill_event taker taker_buy = (\<lambda>(maker, qty).
     \<lparr>te_taker_id = o_id taker, te_maker_id = o_id maker, te_price = o_price maker, te_feed_seq = o_seq taker,
      te_quantity = qty, te_taker_side = (if taker_buy then BUY else SELL), te_status = TRADE_STATUS_FILL\<rparr>)"

definition emit :: "Order \<Rightarrow> Order \<Rightarrow> bool \<Rightarrow> Qty \<Rightarrow> TradeEvent list \<times> MatchResult \<Rightarrow> TradeEvent list \<times> MatchResult" where
  "emit maker taker taker_buy qty = (\<lambda>(sink, r).
     (sink @ [fill_event taker taker_buy (maker, qty)], r\<lparr>trades := trades r + 1\<rparr>))"

definition reject_event :: "Order \<Rightarrow> TradeEvent" where
  "reject_event o' = \<lparr>te_taker_id = o_id o', te_maker_id = 0, te_price = o_price o', te_feed_seq = o_seq o',
     te_quantity = 0, te_taker_side = o_side o', te_status = TRADE_STATUS_REJECTED\<rparr>"

definition emit_reject :: "Order \<Rightarrow> TradeEvent list \<times> MatchResult \<Rightarrow> TradeEvent list \<times> MatchResult" where
  "emit_reject o' = (\<lambda>(sink, r).
     if rejected r then (sink, r) else (sink @ [reject_event o'], r\<lparr>rejected := True\<rparr>))"

text \<open>
  \<^verbatim>\<open>front_node\<close>: the loop drops empty leading nodes; after it the head is no node, an index out of
  range, or a node with an order.
\<close>

definition front_node_step :: "bool \<Rightarrow> nat \<Rightarrow> OrderBook \<Rightarrow> OrderBook" where
  "front_node_step buy it b =
     (let lvl = get_level buy it b;
          nxt = next_node (nodes b (lvl_head lvl));
          b = free_node (lvl_head lvl) b;
          lvl = lvl\<lparr>lvl_head := nxt\<rparr> in
      if nxt \<noteq> INVALID_INDEX
      then set_level buy it lvl (set_node nxt ((nodes b nxt)\<lparr>prev_node := INVALID_INDEX\<rparr>) b)
      else set_level buy it (lvl\<lparr>lvl_tail := INVALID_INDEX\<rparr>) b)"

definition front_node :: "bool \<Rightarrow> nat \<Rightarrow> OrderBook \<Rightarrow> nat option \<times> OrderBook" where
  "front_node buy it b =
     (let b = while (\<lambda>b. lvl_head (get_level buy it b) \<noteq> INVALID_INDEX \<and>
                  lvl_head (get_level buy it b) < nodes_size b \<and>
                  pin_empty (nodes b (lvl_head (get_level buy it b))))
                (front_node_step buy it) b;
          lvl = get_level buy it b in
      if lvl_head lvl = INVALID_INDEX then (None, b)
      else if lvl_head lvl \<ge> nodes_size b
      then (None, set_level buy it (lvl\<lparr>lvl_head := INVALID_INDEX, lvl_tail := INVALID_INDEX\<rparr>) b)
      else (Some (lvl_head lvl), b))"

text \<open>The removal of a filled maker, which the source writes out twice.\<close>

definition drop_maker :: "bool \<Rightarrow> nat \<Rightarrow> nat \<Rightarrow> nat \<Rightarrow> OrderId \<Rightarrow> OrderBook \<Rightarrow> OrderBook" where
  "drop_maker buy it n slot i b =
     (let b = erase_id i b;
          b = set_node n (snd (pin_remove (nodes b n) slot)) b;
          lvl = get_level buy it b
      in if order_count lvl \<noteq> 0 then set_level buy it (lvl\<lparr>order_count := order_count lvl - 1\<rparr>) b else b)"

text \<open>One iteration of the loop in \<^verbatim>\<open>sweep_level\<close>; the first component says that the loop was left by \<^verbatim>\<open>break\<close>.\<close>

definition sweep_step :: "bool \<Rightarrow> nat \<Rightarrow> bool \<Rightarrow> bool \<times> mstate \<Rightarrow> bool \<times> mstate" where
  "sweep_step buy it taker_buy = (\<lambda>(stop, b, inc, sink, r).
     case front_node buy it b of
       (None, b) \<Rightarrow> (True, b, inc, sink, r)
     | (Some n, b) \<Rightarrow>
         let slot = head_slot (nodes b n) in
         if slot = NIL_SLOT then (True, b, inc, sink, r)
         else
           let maker = slots (nodes b n) slot in
           if o_remaining maker = 0 then (False, drop_maker buy it n slot (o_id maker) b, inc, sink, r)
           else
             let fill = (if o_remaining inc < o_remaining maker then o_remaining inc else o_remaining maker);
                 inc = inc\<lparr>o_remaining := o_remaining inc - fill\<rparr>;
                 maker = maker\<lparr>o_remaining := o_remaining maker - fill\<rparr>;
                 b = set_node n ((nodes b n)\<lparr>slots := (slots (nodes b n))(slot := maker)\<rparr>) b;
                 lvl = get_level buy it b;
                 b = set_level buy it (lvl\<lparr>total_qty :=
                       (if total_qty lvl \<ge> ucast fill then total_qty lvl - ucast fill else 0)\<rparr>) b;
                 (sink, r) = emit maker inc taker_buy fill (sink, r);
                 b = (if o_remaining maker = 0 then drop_maker buy it n slot (o_id maker) b
                      else note_partial_fill (o_id maker) (o_remaining maker) b)
             in (False, b, inc, sink, r))"

definition sweep_level :: "bool \<Rightarrow> nat \<Rightarrow> bool \<Rightarrow> mstate \<Rightarrow> mstate" where
  "sweep_level buy it taker_buy st =
     snd (while (\<lambda>(stop, b, inc, sink, r). \<not> stop \<and> o_remaining inc \<noteq> 0) (sweep_step buy it taker_buy) (False, st))"

definition crosses :: "Order \<Rightarrow> bool \<Rightarrow> PriceTick \<Rightarrow> bool" where
  "crosses inc taker_buy p =
     (if o_type inc = MARKET then True
      else if taker_buy then o_price inc \<ge> p else o_price inc \<le> p)"

text \<open>One iteration of the loop in \<^verbatim>\<open>cross\<close>, on the map \<open>opp\<close> (\<open>True\<close>: the bids).\<close>

definition cross_step :: "bool \<Rightarrow> bool \<Rightarrow> bool \<times> mstate \<Rightarrow> bool \<times> mstate" where
  "cross_step opp taker_buy = (\<lambda>(stop, b, inc, sink, r).
     let it = rb_begin (index_of opp b) in
     if \<not> crosses inc taker_buy (lvl_price (get_level opp it b)) then (True, b, inc, sink, r)
     else
       let (b, inc, sink, r) = sweep_level opp it taker_buy (b, inc, sink, r) in
       if order_count (get_level opp it b) = 0 then
         let (lvl, b) = free_level_nodes (get_level opp it b) b;
             b = set_level opp it lvl b;
             b = set_index opp (rb_erase it (index_of opp b)) b
         in (False, b, inc, sink, r)
       else (False, b, inc, sink, r))"

definition cross :: "bool \<Rightarrow> bool \<Rightarrow> mstate \<Rightarrow> mstate" where
  "cross opp taker_buy st =
     snd (while (\<lambda>(stop, b, inc, sink, r). \<not> stop \<and> o_remaining inc \<noteq> 0 \<and> \<not> rb_empty (index_of opp b))
       (cross_step opp taker_buy) (False, st))"

definition submit :: "Order \<Rightarrow> OrderBook \<times> TradeEvent list \<Rightarrow> MatchResult \<times> OrderBook \<times> TradeEvent list" where
  "submit inc = (\<lambda>(b, sink).
     let r = MatchResult_init in
     if o_type inc = CANCEL then
       let (c, b) = cancel (o_id inc) b in (r\<lparr>canceled := c\<rparr>, b, sink)
     else if \<not> is_admissible inc then
       let r = r\<lparr>residual := o_remaining inc\<rparr>;
           (sink, r) = emit_reject inc (sink, r)
       in (r, b, sink)
     else
       let original = o_remaining inc;
           (b, inc, sink, r) =
             (if o_remaining inc \<noteq> 0 then
                if o_side inc = BUY then cross False True (b, inc, sink, r)
                else cross True False (b, inc, sink, r)
              else (b, inc, sink, r));
           r = r\<lparr>filled := original - o_remaining inc, residual := o_remaining inc\<rparr> in
       if o_remaining inc \<noteq> 0 \<and> o_type inc = LIMIT then
         let (ok, b) = add inc b;
             r = r\<lparr>rested := ok\<rparr>;
             (sink, r) = (if \<not> ok then emit_reject inc (sink, r) else (sink, r))
         in (r, b, sink)
       else (r, b, sink))"

end
