(* ===== verification/Matcher_Refinement.thy ===== *)
theory Matcher_Refinement
  imports Matcher
begin

text \<open>
  Matching refines matching on lists: the incoming order takes from the queues of the opposite
  side, best price first and oldest order first, until it is filled or the price no longer crosses.
\<close>

section \<open>Matching on lists\<close>

text \<open>\<open>take_queue q os\<close>: what is left of a quantity \<open>q\<close>, the fills, and what is left of the queue.\<close>

fun take_queue :: "Qty \<Rightarrow> Order list \<Rightarrow> Qty \<times> (Order \<times> Qty) list \<times> Order list" where
  "take_queue q [] = (q, [], [])"
| "take_queue q (m # ms) =
     (if q = 0 then (q, [], m # ms)
      else if q < o_remaining m then (0, [(m, q)], m\<lparr>o_remaining := o_remaining m - q\<rparr> # ms)
      else let (q', fs, ms') = take_queue (q - o_remaining m) ms in (q', (m, o_remaining m) # fs, ms'))"

fun match_side :: "(PriceTick \<Rightarrow> bool) \<Rightarrow> Qty \<Rightarrow> side_book \<Rightarrow> Qty \<times> (Order \<times> Qty) list \<times> side_book" where
  "match_side cr q [] = (q, [], [])"
| "match_side cr q ((p, os) # sb) =
     (if q = 0 \<or> \<not> cr p then (q, [], (p, os) # sb)
      else let (q1, f1, os1) = take_queue q os in
        if os1 = [] then let (q2, f2, sb2) = match_side cr q1 sb in (q2, f1 @ f2, sb2)
        else (q1, f1, (p, os1) # sb))"

lemma take_queue_rest: "take_queue q os = (q', fs, os') \<Longrightarrow> os' \<noteq> [] \<Longrightarrow> q' = 0"
  by (induction q os arbitrary: q' fs os' rule: take_queue.induct) (auto split: if_splits prod.splits)

section \<open>Dropping an empty node at the head\<close>

lemma pop_head:
  assumes ok: "book_ok b L" and L: "L buy = A @ (i, n # ks) # B" and e: "node_orders (nodes b n) = []"
  defines "b' \<equiv> front_node_step buy i b" and "L' \<equiv> L(buy := A @ (i, ks) # B)"
  shows "book_ok b' L'" "side_view b' L' = side_view b L" "slab_same b b'"
    "n_key (index_of buy b') = n_key (index_of buy b)" "level_orders (nodes b') ks = level_orders (nodes b) (n # ks)"
proof -
  let ?l = "get_level buy i b"
  have m: "(i, n # ks) \<in> set (L buy)" by (simp add: L)
  note lk = book_okD(6) [OF ok m]
  have sub: "set (n # ks) \<subseteq> chains L" using chain_member [of i "n # ks" L buy, OF m] .
  have ni: "n < nodes_size b" "n \<noteq> INVALID_INDEX" "INVALID_INDEX \<notin> set ks"
    using pool_invalid [OF book_okD(3) [OF ok]] sub by auto
  have ch: "chain (\<lambda>k. next_node (nodes b k)) (\<lambda>k. prev_node (nodes b k)) INVALID_INDEX (n # ks) INVALID_INDEX"
    and hd: "lvl_head ?l = n" "lvl_tail ?l = final n ks" and d: "distinct (n # ks)"
    using lk by (auto simp: level_ok_def dll_def)
  have nx: "next_node (nodes b n) = first INVALID_INDEX ks" using ch by simp
  have nxi: "first INVALID_INDEX ks = INVALID_INDEX \<longleftrightarrow> ks = []" using ni(3) by (rule first_eq_sentinel)
  define l' where "l' = (if ks = [] then ?l\<lparr>lvl_head := first INVALID_INDEX ks, lvl_tail := INVALID_INDEX\<rparr>
      else ?l\<lparr>lvl_head := first INVALID_INDEX ks\<rparr>)"
  have g: "get_level buy i (b\<lparr>free_nodes := n # free_nodes b\<rparr>) = ?l" by (simp add: get_level_def)
  have b': "nodes b' = (if ks = [] then nodes b
        else (nodes b)(first INVALID_INDEX ks := (nodes b (first INVALID_INDEX ks))\<lparr>prev_node := INVALID_INDEX\<rparr>))"
    "index_of buy b' = set_val i l' (index_of buy b)" "index_of (\<not> buy) b' = index_of (\<not> buy) b"
    "free_nodes b' = n # free_nodes b" "nodes_size b' = nodes_size b" "slab_same b b'"
    using ni(1) nxi by (auto simp: b'_def front_node_step_def hd(1) nx free_node_def Let_def l'_def slab_same_def)
  show "slab_same b b'" using b'(6) .
  have each: "node_orders (nodes b' k) = node_orders (nodes b k)" "fifo (nodes b' k) = fifo (nodes b k)"
    "slots (nodes b' k) = slots (nodes b k)" "pin_ok (nodes b' k) = pin_ok (nodes b k)" for k
    by (simp_all add: b'(1))
  have lo: "level_orders (nodes b') ns = level_orders (nodes b) ns" for ns
    using each by (simp add: level_orders_def)
  show "level_orders (nodes b') ks = level_orders (nodes b) (n # ks)" using e by (simp add: lo)
  have "chain (\<lambda>k. next_node (nodes b' k)) (\<lambda>k. prev_node (nodes b' k)) INVALID_INDEX ks INVALID_INDEX"
  proof (cases ks)
    case (Cons k ks')
    have "chain (\<lambda>k. next_node (nodes b' k)) (\<lambda>k. prev_node (nodes b' k)) k ks' INVALID_INDEX =
        chain (\<lambda>k. next_node (nodes b k)) (\<lambda>k. prev_node (nodes b k)) k ks' INVALID_INDEX"
      by (rule chain_cong) (use d Cons in \<open>auto simp: b'(1)\<close>)
    then show ?thesis using ch Cons by (simp add: b'(1))
  qed simp
  moreover have "lvl_tail l' = final INVALID_INDEX ks" using hd(2) by (cases ks) (auto simp: l'_def)
  ultimately have lv: "level_ok (nodes b') buy (n_key (index_of buy b) i) l' ks"
    using lk d ni e by (auto simp: level_ok_def dll_def l'_def lo each)
  have frame: "nodes b' k = nodes b k" if "k \<in> chains L" "k \<notin> set (n # ks)" for k
    using that first_in_set [of ks INVALID_INDEX] by (auto simp: b'(1))
  have nsf: "set (n # ks) \<inter> set (free_nodes b) = {}" "distinct (free_nodes b)"
    using book_okD(3) [OF ok] pool_ok_alt [of b L buy] sub by auto
  have ok': "idx_ok b' L'" "lvls_ok b' L'" "pool_ok b' L'" unfolding L'_def
    by (rule level_replace [OF book_okD(1-3) [OF ok] L refl b'(2,3) lv frame]; use nsf d b' in auto)+
  have cl: "chain_of L buy = concat (map snd A) @ (n # ks) @ concat (map snd B)"
    "chain_of L' buy = concat (map snd A) @ ks @ concat (map snd B)" "chain_of L' (\<not> buy) = chain_of L (\<not> buy)"
    by (simp_all add: L L'_def chain_of_def)
  have chs: "k \<in> chains L \<Longrightarrow> k \<notin> chains L' \<Longrightarrow> k = n" "k \<in> chains L' \<Longrightarrow> k \<in> chains L" for k
    unfolding chains_alt [of L' buy] chains_alt [of L buy] cl by auto
  have "fifo (nodes b n) = []" using e by (simp add: node_orders_def)
  then have "slab_ok b' (chains L')"
    using b'(6) chs by (intro slab_transfer [OF book_okD(4) [OF ok]]) (auto simp: each slab_same_def)
  then show "book_ok b' L'" using ok' by (simp add: book_ok_def)
  have key: "n_key (index_of r b') = n_key (index_of r b)" for r using b'(2,3) by (cases "r = buy") auto
  then show "n_key (index_of buy b') = n_key (index_of buy b)" .
  have "level_view b' r x = level_view b r x" for r x using key lo by (cases x) (simp add: level_view_def)
  then have vw: "level_view b' r = level_view b r" for r by blast
  have "level_view b buy (i, ks) = level_view b buy (i, n # ks)" using e by (simp add: level_view_def)
  then have "side_view b' L' s = side_view b L s" for s
    by (cases "s = buy") (simp_all add: side_view_def vw L L'_def)
  then show "side_view b' L' = side_view b L" by blast
qed

lemma pin_empty_orders: "pin_ok n \<Longrightarrow> pin_empty n \<longleftrightarrow> node_orders n = []"
  using pin_empty_iff [of n "fifo n"] by (simp add: pin_ok_def node_orders_def)

lemma front_node_ok:
  assumes "book_ok b L" "L buy = A @ (i, ns) # B"
  shows "\<exists>b' ns'. front_node buy i b = ((if ns' = [] then None else Some (hd ns')), b') \<and>
    book_ok b' (L(buy := A @ (i, ns') # B)) \<and> side_view b' (L(buy := A @ (i, ns') # B)) = side_view b L \<and>
    slab_same b b' \<and> n_key (index_of buy b') = n_key (index_of buy b) \<and>
    level_orders (nodes b') ns' = level_orders (nodes b) ns \<and>
    (ns' \<noteq> [] \<longrightarrow> node_orders (nodes b' (hd ns')) \<noteq> [])"
  using assms
proof (induction ns arbitrary: b L)
  case Nil
  have "lvl_head (get_level buy i b) = INVALID_INDEX"
    using book_okD(6) [OF Nil.prems(1), of i "[]" buy] Nil.prems(2) by (simp add: level_ok_def)
  then have "front_node buy i b = (None, b)" by (simp add: front_node_def while_unfold Let_def)
  moreover have "L(buy := A @ (i, []) # B) = L" using Nil.prems(2) by auto
  ultimately show ?case using Nil.prems(1) by (intro exI [of _ b] exI [of _ "[]"]) simp
next
  case (Cons n ns)
  let ?c = "\<lambda>b. lvl_head (get_level buy i b) \<noteq> INVALID_INDEX \<and> lvl_head (get_level buy i b) < nodes_size b \<and>
      pin_empty (nodes b (lvl_head (get_level buy i b)))"
  have m: "(i, n # ns) \<in> set (L buy)" by (simp add: Cons.prems(2))
  note lk = book_okD(6) [OF Cons.prems(1) m]
  have h: "lvl_head (get_level buy i b) = n" and pk: "pin_ok (nodes b n)" using lk by (auto simp: level_ok_def dll_def)
  have ni: "n < nodes_size b" "n \<noteq> INVALID_INDEX"
    using pool_invalid [OF book_okD(3) [OF Cons.prems(1)]] chain_member [of i "n # ns" L buy, OF m] by auto
  show ?case
  proof (cases "node_orders (nodes b n) = []")
    case False
    then have "\<not> ?c b" using h pk pin_empty_orders by simp
    then have "front_node buy i b = (Some n, b)" using h ni by (simp add: front_node_def while_unfold Let_def not_le)
    moreover have "L(buy := A @ (i, n # ns) # B) = L" using Cons.prems(2) by auto
    ultimately show ?thesis using Cons.prems(1) False by (intro exI [of _ b] exI [of _ "n # ns"]) simp
  next
    case True
    then have "?c b" using h pk pin_empty_orders ni by simp
    then have "while ?c (front_node_step buy i) b = while ?c (front_node_step buy i) (front_node_step buy i b)"
      by (subst while_unfold) simp
    then have eq: "front_node buy i b = front_node buy i (front_node_step buy i b)" by (simp add: front_node_def)
    note pop = pop_head [OF Cons.prems True]
    have "(L(buy := A @ (i, ns) # B)) buy = A @ (i, ns) # B" by simp
    from Cons.IH [OF pop(1) this, unfolded fun_upd_upd] obtain b' ns' where
      "front_node buy i (front_node_step buy i b) = ((if ns' = [] then None else Some (hd ns')), b')"
      "book_ok b' (L(buy := A @ (i, ns') # B))"
      "side_view b' (L(buy := A @ (i, ns') # B)) = side_view (front_node_step buy i b) (L(buy := A @ (i, ns) # B))"
      "slab_same (front_node_step buy i b) b'" "n_key (index_of buy b') = n_key (index_of buy (front_node_step buy i b))"
      "level_orders (nodes b') ns' = level_orders (nodes (front_node_step buy i b)) ns"
      "ns' \<noteq> [] \<longrightarrow> node_orders (nodes b' (hd ns')) \<noteq> []" by blast
    then show ?thesis using pop(2-5) slab_same_trans unfolding eq
      by (intro exI [of _ b'] exI [of _ ns']) (metis)
  qed
qed

section \<open>Filling the oldest order\<close>

lemma front_order:
  assumes "pin_ok n" "node_orders n \<noteq> []"
  shows "head_slot n \<noteq> NIL_SLOT" "head_slot n \<in> set (fifo n)" "fifo n = head_slot n # tl (fifo n)"
    "node_orders n = slots n (head_slot n) # map (slots n) (tl (fifo n))"
proof -
  obtain s ss where f: "fifo n = s # ss" using assms(2) by (cases "fifo n") (auto simp: node_orders_def)
  have "dll NIL_SLOT (next_in_time n) (prev_in_time n) (head_slot n) (tail_slot n) (s # ss)"
    using assms(1) f by (simp add: pin_ok_def pin_rep_def)
  then have "head_slot n = s" "s \<noteq> NIL_SLOT" by (auto simp: dll_def)
  with f show "head_slot n \<noteq> NIL_SLOT" "head_slot n \<in> set (fifo n)" "fifo n = head_slot n # tl (fifo n)"
    "node_orders n = slots n (head_slot n) # map (slots n) (tl (fifo n))" by (simp_all add: node_orders_def)
qed

lemma pin_slots_upd [simp]:
  "fifo (n\<lparr>slots := f\<rparr>) = fifo n" "pin_ok (n\<lparr>slots := f\<rparr>) = pin_ok n" "pin_rep (n\<lparr>slots := f\<rparr>) ss = pin_rep n ss"
  by (simp_all add: fifo_def pin_ok_def pin_rep_def pin_count_def)

lemma fill_event_upd [simp]:
  "fill_event (inc\<lparr>o_remaining := x\<rparr>) tb = fill_event inc tb"
  "fill_event inc tb (m\<lparr>o_remaining := x\<rparr>, q) = fill_event inc tb (m, q)"
  by (auto simp: fill_event_def)

lemma unat_diff_word: "(q :: 'a::len word) \<le> p \<Longrightarrow> unat (p - q) = unat p - unat q"
  by (simp add: unat_sub word_le_nat_alt)

lemma partial_fill:
  assumes ok: "book_ok b L" and L: "L buy = A @ (i, n # ks) # B" and ne: "node_orders (nodes b n) \<noteq> []"
    and s: "s = head_slot (nodes b n)" and mk: "maker = slots (nodes b n) s" and q: "q \<le> o_remaining maker"
    and m': "m' = maker\<lparr>o_remaining := o_remaining maker - q\<rparr>"
    and b': "b' = note_partial_fill (o_id maker) (o_remaining m')
      (set_level buy i ((get_level buy i b)\<lparr>total_qty := total_qty (get_level buy i b) - ucast q\<rparr>)
        (set_node n ((nodes b n)\<lparr>slots := (slots (nodes b n))(s := m')\<rparr>) b))"
  shows "book_ok b' L" "side_view b' L (\<not> buy) = side_view b L (\<not> buy)" "locators_size b' = locators_size b"
    "n_key (index_of buy b') = n_key (index_of buy b)"
    "\<exists>Y. level_orders (nodes b) (n # ks) = maker # Y \<and> level_orders (nodes b') (n # ks) = m' # Y \<and>
      side_view b' L buy = map (level_view b buy) A @ (n_key (index_of buy b) i, m' # Y) # map (level_view b buy) B"
proof -
  let ?l = "get_level buy i b"
  have m: "(i, n # ks) \<in> set (L buy)" by (simp add: L)
  note lk = book_okD(6) [OF ok m]
  have sub: "set (n # ks) \<subseteq> chains L" using chain_member [of i "n # ks" L buy, OF m] .
  then have nC: "n \<in> chains L" by simp
  note fr = front_order [OF book_node_ok(1) [OF ok nC] ne, folded s]
  note sl = slab_entry [OF book_okD(4) [OF ok] nC fr(2), folded mk]
  define pn where "pn = (nodes b n)\<lparr>slots := (slots (nodes b n))(s := m')\<rparr>"
  define l' where "l' = ?l\<lparr>total_qty := total_qty ?l - ucast q\<rparr>"
  have f: "nodes b' = (nodes b)(n := pn)" "index_of buy b' = set_val i l' (index_of buy b)"
    "index_of (\<not> buy) b' = index_of (\<not> buy) b" "free_nodes b' = free_nodes b" "nodes_size b' = nodes_size b"
    "locators b' = (locators b)(unat (o_id maker) := (locators b (unat (o_id maker)))\<lparr>se_remaining := o_remaining m'\<rparr>)"
    "locators_size b' = locators_size b" "live_count b' = live_count b"
    using sl(1) by (simp_all add: b' note_partial_fill_def pn_def l'_def)
  show "locators_size b' = locators_size b" "n_key (index_of buy b') = n_key (index_of buy b)" using f by simp_all
  have d: "distinct (n # ks)" "distinct (fifo (nodes b n))"
    using lk book_node_ok(2) [OF ok nC] by (simp_all add: level_ok_def dll_def)
  let ?r = "map (slots (nodes b n)) (tl (fifo (nodes b n)))"
  have sn: "s \<notin> set (tl (fifo (nodes b n)))" using d(2) fr(3) by (metis distinct.simps(2))
  have "node_orders pn = map (slots pn) (s # tl (fifo (nodes b n)))" using fr(3) by (simp add: node_orders_def pn_def)
  then have no: "node_orders pn = m' # ?r" using sn by (simp add: pn_def)
  have ks: "level_orders (nodes b') ks = level_orders (nodes b) ks" using d(1) by (auto intro!: level_orders_cong simp: f(1))
  let ?Y = "?r @ level_orders (nodes b) ks"
  have lo: "level_orders (nodes b) (n # ks) = maker # ?Y" "level_orders (nodes b') (n # ks) = m' # ?Y"
    using fr(4) no ks mk by (simp_all add: f(1))
  have "dll INVALID_INDEX (\<lambda>k. next_node (nodes b' k)) (\<lambda>k. prev_node (nodes b' k)) (lvl_head ?l) (lvl_tail ?l) (n # ks)"
    using lk dll_cong [of "n # ks" "\<lambda>k. next_node (nodes b' k)" "\<lambda>k. next_node (nodes b k)"
        "\<lambda>k. prev_node (nodes b' k)" "\<lambda>k. prev_node (nodes b k)"]
    by (auto simp: level_ok_def f(1) pn_def)
  moreover have "\<forall>k \<in> set (n # ks). pin_ok (nodes b' k)" using lk by (auto simp: level_ok_def f(1) pn_def)
  moreover have "total_qty l' = of_nat (open_qty (m' # ?Y))"
  proof -
    have "total_qty ?l = of_nat (open_qty (maker # ?Y))" using lk unfolding level_ok_def lo by blast
    moreover have "open_qty (maker # ?Y) = unat q + open_qty (m' # ?Y)"
      using q by (simp add: m' unat_diff_word word_le_nat_alt)
    ultimately show ?thesis by (simp add: l'_def del: open_qty_simps)
  qed
  moreover have "order_count l' = of_nat (length (m' # ?Y))" using lk lo(1) by (simp add: level_ok_def l'_def)
  moreover have "\<forall>x \<in> set (m' # ?Y). o_price x = n_key (index_of buy b) i \<and> (o_side x = BUY) = buy"
    using lk unfolding level_ok_def lo(1) by (auto simp: m')
  ultimately have lv: "level_ok (nodes b') buy (n_key (index_of buy b) i) l' (n # ks)"
    unfolding level_ok_def lo(2) using lk by (simp add: l'_def level_ok_def)
  have frame: "nodes b' k = nodes b k" if "k \<in> chains L" "k \<notin> set (n # ks)" for k using that by (auto simp: f(1))
  have nsf: "set (n # ks) \<inter> set (free_nodes b) = {}" "distinct (free_nodes b)"
    using book_okD(3) [OF ok] pool_ok_alt [of b L buy] sub by auto
  have L': "L = L(buy := A @ (i, n # ks) # B)" by (simp add: L [symmetric])
  have "idx_ok b' L" "lvls_ok b' L" "pool_ok b' L"
    by (rule level_replace [OF book_okD(1-3) [OF ok] L L' f(2,3) lv frame]; use nsf d f in auto)+
  moreover have "slab_ok b' (chains L)"
    by (rule slab_partial [OF book_okD(4) [OF ok] finite_chains nC fr(2), of pn "o_remaining m'" "unat (o_id maker)"])
      (use f in \<open>simp_all add: pn_def mk m'\<close>)
  ultimately show "book_ok b' L" by (simp add: book_ok_def)
  have key: "n_key (index_of r b') = n_key (index_of r b)" for r using f(2,3) by (cases "r = buy") auto
  note sv = side_view_replace [OF book_okD(3) [OF ok] L L' key frame]
  show "side_view b' L (\<not> buy) = side_view b L (\<not> buy)" using sv(2) .
  have "side_view b' L buy = map (level_view b buy) A @ (n_key (index_of buy b) i, m' # ?Y) # map (level_view b buy) B"
    using sv(1) lo(2) key by (simp add: level_view_def)
  then show "\<exists>Y. level_orders (nodes b) (n # ks) = maker # Y \<and> level_orders (nodes b') (n # ks) = m' # Y \<and>
      side_view b' L buy = map (level_view b buy) A @ (n_key (index_of buy b) i, m' # Y) # map (level_view b buy) B"
    using lo by blast
qed

lemma full_fill:
  assumes ok: "book_ok b L" and L: "L buy = A @ (i, n # ks) # B" and ne: "node_orders (nodes b n) \<noteq> []"
    and s: "s = head_slot (nodes b n)" and mk: "maker = slots (nodes b n) s"
    and m': "m' = maker\<lparr>o_remaining := 0\<rparr>"
    and b': "b' = drop_maker buy i n s (o_id maker)
      (set_level buy i ((get_level buy i b)\<lparr>total_qty := total_qty (get_level buy i b) - ucast (o_remaining maker)\<rparr>)
        (set_node n ((nodes b n)\<lparr>slots := (slots (nodes b n))(s := m')\<rparr>) b))"
  shows "book_ok b' L" "side_view b' L (\<not> buy) = side_view b L (\<not> buy)" "locators_size b' = locators_size b"
    "n_key (index_of buy b') = n_key (index_of buy b)"
    "\<exists>Y. level_orders (nodes b) (n # ks) = maker # Y \<and> level_orders (nodes b') (n # ks) = Y \<and>
      side_view b' L buy = map (level_view b buy) A @ (n_key (index_of buy b) i, Y) # map (level_view b buy) B"
proof -
  let ?l = "get_level buy i b"
  have m: "(i, n # ks) \<in> set (L buy)" by (simp add: L)
  have nC: "n \<in> chains L" using chain_member [of i "n # ks" L buy, OF m] by auto
  note fr = front_order [OF book_node_ok(1) [OF ok nC] ne, folded s]
  note sl = slab_entry [OF book_okD(4) [OF ok] nC fr(2), folded mk]
  define p0 where "p0 = (nodes b n)\<lparr>slots := (slots (nodes b n))(s := m')\<rparr>"
  obtain rem pn where rm: "pin_remove p0 s = (rem, pn)" by force
  have r: "pin_rep p0 ([] @ s # tl (fifo (nodes b n)))"
    using book_node_ok(1) [OF ok nC] fr(3) by (simp add: p0_def pin_ok_def) 
  note R = pin_remove_rep [OF r rm]
  have sn: "s \<notin> set (tl (fifo (nodes b n)))" using book_node_ok(2) [OF ok nC] fr(3) by (metis distinct.simps(2))
  have f0: "fifo pn = tl (fifo (nodes b n))" using pin_rep_fifo [OF R(2)] by simp
  have "remove1 s (fifo (nodes b n)) = tl (fifo (nodes b n))" by (subst fr(3)) simp
  then have pn: "pin_ok pn" "fifo pn = remove1 s (fifo (nodes b n))"
    "\<And>r. r \<in> set (fifo pn) \<Longrightarrow> slots pn r = slots (nodes b n) r"
    "next_node pn = next_node (nodes b n)" "prev_node pn = prev_node (nodes b n)"
    using R f0 sn by (auto simp: pin_rep_iff p0_def)
  have inv: "n \<noteq> INVALID_INDEX" using pool_invalid(2) [OF book_okD(3) [OF ok]] nC by auto
  note lw = level_words [OF book_okD(6) [OF ok m] level_count_exact [OF book_okD(3) [OF ok] m]]
  have oc: "order_count ?l \<noteq> 0" using lw(1) ne by simp
  define l' where "l' = ?l\<lparr>total_qty := total_qty ?l - ucast (o_remaining (slots (nodes b n) s)), order_count := order_count ?l - 1\<rparr>"
  have f: "nodes b' = (nodes b)(n := pn)" "index_of buy b' = set_val i l' (index_of buy b)"
    "index_of (\<not> buy) b' = index_of (\<not> buy) b" "free_nodes b' = free_nodes b" "nodes_size b' = nodes_size b"
    "locators b' = (locators b)(unat (o_id maker) := (locators b (unat (o_id maker)))\<lparr>se_node := INVALID_INDEX\<rparr>)"
    "locators_size b' = locators_size b" "live_count b' = live_count b - 1"
    using sl inv rm oc
    by (simp_all add: b' drop_maker_def erase_id_def entry_of_def Let_def p0_def [symmetric] l'_def mk get_level_def)
  have t: "book_ok b' L \<and> side_view b' L (\<not> buy) = side_view b L (\<not> buy) \<and>
    (\<exists>X Y. level_orders (nodes b) (n # ks) = X @ slots (nodes b n) s # Y \<and> level_orders (nodes b') (n # ks) = X @ Y \<and>
      ([] = ([] :: nat list) \<and> head_slot (nodes b n) = s \<longrightarrow> X = []) \<and>
      side_view b' L buy = map (level_view b buy) A @ (n_key (index_of buy b) i, X @ Y) # map (level_view b buy) B)"
    by (rule take_order [OF ok L _ fr(2) _ pn l'_def f(1-6)]) (simp_all add: f mk)
  then show "book_ok b' L" "side_view b' L (\<not> buy) = side_view b L (\<not> buy)" by blast+
  show "locators_size b' = locators_size b" "n_key (index_of buy b') = n_key (index_of buy b)" using f by simp_all
  from t s mk show "\<exists>Y. level_orders (nodes b) (n # ks) = maker # Y \<and> level_orders (nodes b') (n # ks) = Y \<and>
      side_view b' L buy = map (level_view b buy) A @ (n_key (index_of buy b) i, Y) # map (level_view b buy) B"
    by force
qed

section \<open>Sweeping a level\<close>

text \<open>What a sweep does to a state; \<open>os'\<close> is what is left of the level's queue.\<close>

definition swept ::
  "OrderBook \<Rightarrow> shape \<Rightarrow> bool \<Rightarrow> (nat \<times> nat list) list \<Rightarrow> nat \<Rightarrow> (nat \<times> nat list) list \<Rightarrow> Order list \<Rightarrow> OrderBook \<Rightarrow> nat list \<Rightarrow> bool"
  where
  "swept b L buy A i B os' b' ns' \<longleftrightarrow>
     book_ok b' (L(buy := A @ (i, ns') # B)) \<and> level_orders (nodes b') ns' = os' \<and>
     side_view b' (L(buy := A @ (i, ns') # B)) buy =
       map (level_view b buy) A @ (n_key (index_of buy b) i, os') # map (level_view b buy) B \<and>
     side_view b' (L(buy := A @ (i, ns') # B)) (\<not> buy) = side_view b L (\<not> buy) \<and>
     locators_size b' = locators_size b \<and> n_key (index_of buy b') i = n_key (index_of buy b) i"

lemma sweptI:
  assumes "book_ok b' L'" "L' = L(buy := A @ (i, ns') # B)" "L buy = A @ (i, ns) # B" "side_view b' L' = side_view b L"
    "locators_size b' = locators_size b" "n_key (index_of buy b') i = n_key (index_of buy b) i"
    "level_orders (nodes b') ns' = level_orders (nodes b) ns"
  shows "swept b L buy A i B (level_orders (nodes b) ns) b' ns'"
proof -
  have "side_view b L buy = map (level_view b buy) A @ level_view b buy (i, ns) # map (level_view b buy) B"
    using side_view_split [of L buy, OF assms(3)] .
  then show ?thesis using assms by (simp add: swept_def level_view_def [of b buy])
qed

lemma swept_trans:
  assumes 1: "swept b L buy A i B os1 b1 ns1" and 2: "swept b1 (L(buy := A @ (i, ns1) # B)) buy A i B os2 b2 ns2"
  shows "swept b L buy A i B os2 b2 ns2"
proof -
  have "map (level_view b1 buy) A @ level_view b1 buy (i, ns1) # map (level_view b1 buy) B =
      map (level_view b buy) A @ (n_key (index_of buy b) i, os1) # map (level_view b buy) B"
    using 1 by (simp add: swept_def side_view_def)
  then have "map (level_view b1 buy) A = map (level_view b buy) A" "map (level_view b1 buy) B = map (level_view b buy) B"
    by (auto dest: map_eq_imp_length_eq)
  then show ?thesis using 1 2 by (simp add: swept_def)
qed

lemma sweep_ok:
  assumes "book_ok b L" "L buy = A @ (i, ns) # B" "\<forall>x \<in> set (level_orders (nodes b) ns). o_remaining x \<noteq> 0"
    "take_queue (o_remaining inc) (level_orders (nodes b) ns) = (q', fs, os')"
  shows "\<exists>b' ns'. sweep_level buy i tb (b, inc, sink, r) = (b', inc\<lparr>o_remaining := q'\<rparr>,
      sink @ map (fill_event inc tb) fs, r\<lparr>trades := trades r + of_nat (length fs)\<rparr>) \<and>
    swept b L buy A i B os' b' ns'"
  using assms
proof (induction "level_orders (nodes b) ns" arbitrary: b L ns inc sink r fs)
  case Nil
  have e: "level_orders (nodes b) ns = []" using Nil.hyps by simp
  from front_node_ok [OF Nil.prems(1,2)] obtain b' ns' where
    fn: "front_node buy i b = ((if ns' = [] then None else Some (hd ns')), b')"
    and b': "book_ok b' (L(buy := A @ (i, ns') # B))" "side_view b' (L(buy := A @ (i, ns') # B)) = side_view b L"
      "slab_same b b'" "n_key (index_of buy b') = n_key (index_of buy b)"
      "level_orders (nodes b') ns' = level_orders (nodes b) ns" "ns' \<noteq> [] \<longrightarrow> node_orders (nodes b' (hd ns')) \<noteq> []" by blast
  have ns': "ns' = []" using b'(5,6) e by (cases ns') auto
  have sw': "swept b L buy A i B [] b' ns'"
    using sweptI [OF b'(1) refl Nil.prems(2) b'(2) _ _ b'(5)] b'(3,4) e by (simp add: slab_same_def)
  have sw0: "swept b L buy A i B [] b ns"
  proof -
    have "L(buy := A @ (i, ns) # B) = L" using Nil.prems(2) by auto
    then show ?thesis using sweptI [of b L L buy A i ns B ns b] Nil.prems(1,2) e by simp
  qed
  have q: "q' = o_remaining inc" "fs = []" "os' = []" using Nil.prems(4) e by auto
  show ?case
  proof (cases "o_remaining inc = 0")
    case True
    then have "sweep_level buy i tb (b, inc, sink, r) = (b, inc, sink, r)" by (simp add: sweep_level_def while_unfold)
    with sw0 q True show ?thesis by (intro exI [of _ b] exI [of _ ns]) simp
  next
    case False
    then have "sweep_level buy i tb (b, inc, sink, r) = (b', inc, sink, r)"
      using fn ns' by (simp add: sweep_level_def while_unfold sweep_step_def)
    with sw' q show ?thesis by (intro exI [of _ b'] exI [of _ ns']) simp
  qed
next
  case (Cons m ms)
  note os = Cons.hyps(2) [symmetric]
  show ?case
  proof (cases "o_remaining inc = 0")
    case True
    then have "sweep_level buy i tb (b, inc, sink, r) = (b, inc, sink, r)" by (simp add: sweep_level_def while_unfold)
    moreover have "L(buy := A @ (i, ns) # B) = L" using Cons.prems(2) by auto
    then have "swept b L buy A i B (level_orders (nodes b) ns) b ns"
      using sweptI [of b L L buy A i ns B ns b] Cons.prems(1,2) by simp
    moreover have "q' = o_remaining inc" "fs = []" "os' = level_orders (nodes b) ns" using Cons.prems(4) True os by auto
    ultimately show ?thesis by (intro exI [of _ b] exI [of _ ns]) simp
  next
    case inc0: False
    from front_node_ok [OF Cons.prems(1,2)] obtain b1 ns1 where
      fn: "front_node buy i b = ((if ns1 = [] then None else Some (hd ns1)), b1)"
      and b1: "book_ok b1 (L(buy := A @ (i, ns1) # B))" "side_view b1 (L(buy := A @ (i, ns1) # B)) = side_view b L"
        "slab_same b b1" "n_key (index_of buy b1) = n_key (index_of buy b)"
        "level_orders (nodes b1) ns1 = level_orders (nodes b) ns" "ns1 \<noteq> [] \<longrightarrow> node_orders (nodes b1 (hd ns1)) \<noteq> []" by blast
    have "ns1 \<noteq> []" using b1(5) os by auto
    then obtain n ks where ns1: "ns1 = n # ks" by (cases ns1) auto
    define L1 where "L1 = L(buy := A @ (i, n # ks) # B)"
    note b1 = b1 [unfolded ns1, folded L1_def]
    have L1: "L1 buy = A @ (i, n # ks) # B" by (simp add: L1_def)
    have ne: "node_orders (nodes b1 n) \<noteq> []" using b1(6) by simp
    have sw1: "swept b L buy A i B (m # ms) b1 (n # ks)"
      using sweptI [OF b1(1) L1_def Cons.prems(2) b1(2) _ _ b1(5)] b1(3,4) os by (simp add: slab_same_def)
    have mem: "(i, n # ks) \<in> set (L1 buy)" by (simp add: L1)
    have nC: "n \<in> chains L1" using chain_member [of i "n # ks" L1 buy, OF mem] by auto
    note fr = front_order [OF book_node_ok(1) [OF b1(1) nC] ne]
    let ?s = "head_slot (nodes b1 n)" and ?l = "get_level buy i b1"
    have mk: "slots (nodes b1 n) ?s = m" using fr(4) b1(5) os by simp
    have m0: "o_remaining m \<noteq> 0" using Cons.prems(3) os by simp
    note lw = level_words [OF book_okD(6) [OF b1(1) mem] level_count_exact [OF book_okD(3) [OF b1(1)] mem]]
    have mlo: "m \<in> set (level_orders (nodes b1) (n # ks))" using b1(5) os by simp
    have same: "L1(buy := A @ (i, n # ks) # B) = L1" by (simp add: L1_def)
    show ?thesis
    proof (cases "o_remaining inc < o_remaining m")
      case True
      let ?q = "o_remaining inc"
      define m' where "m' = m\<lparr>o_remaining := o_remaining m - ?q\<rparr>"
      define b2 where "b2 = note_partial_fill (o_id m) (o_remaining m')
        (set_level buy i (?l\<lparr>total_qty := total_qty ?l - ucast ?q\<rparr>)
          (set_node n ((nodes b1 n)\<lparr>slots := (slots (nodes b1 n))(?s := m')\<rparr>) b1))"
      have qle: "?q \<le> o_remaining m" using True by simp
      note pf = partial_fill [OF b1(1) L1 ne refl mk [symmetric] qle m'_def b2_def]
      have ge: "total_qty ?l \<ge> ucast ?q" using lw(4) [OF mlo qle] .
      have m'0: "o_remaining m' \<noteq> 0" using True by (auto simp: m'_def)
      have "sweep_step buy i tb (False, b, inc, sink, r) =
          (False, b2, inc\<lparr>o_remaining := 0\<rparr>, sink @ [fill_event inc tb (m, ?q)], r\<lparr>trades := trades r + 1\<rparr>)"
        using fn ns1 fr(1) m0 True ge m'0
        by (simp add: sweep_step_def mk Let_def emit_def m'_def [symmetric] b2_def) (simp add: m'_def)
      then have "sweep_level buy i tb (b, inc, sink, r) =
          (b2, inc\<lparr>o_remaining := 0\<rparr>, sink @ [fill_event inc tb (m, ?q)], r\<lparr>trades := trades r + 1\<rparr>)"
        using inc0 by (simp add: sweep_level_def while_unfold)
      moreover have "q' = 0" "fs = [(m, ?q)]" "os' = m' # ms" using Cons.prems(4) os True inc0 by (auto simp: m'_def)
      moreover have "swept b1 L1 buy A i B (m' # ms) b2 (n # ks)"
        unfolding swept_def same using pf b1(5) os by auto
      from swept_trans [OF sw1 this [unfolded L1_def]] have "swept b L buy A i B (m' # ms) b2 (n # ks)" .
      ultimately show ?thesis by (intro exI [of _ b2] exI [of _ "n # ks"]) simp
    next
      case False
      let ?q = "o_remaining m"
      define m' where "m' = m\<lparr>o_remaining := 0\<rparr>"
      define b2 where "b2 = drop_maker buy i n ?s (o_id m)
        (set_level buy i (?l\<lparr>total_qty := total_qty ?l - ucast ?q\<rparr>)
          (set_node n ((nodes b1 n)\<lparr>slots := (slots (nodes b1 n))(?s := m')\<rparr>) b1))"
      note ff = full_fill [OF b1(1) L1 ne refl mk [symmetric] m'_def b2_def]
      have ge: "total_qty ?l \<ge> ucast ?q" using lw(4) [OF mlo order_refl] .
      define inc2 where "inc2 = inc\<lparr>o_remaining := o_remaining inc - ?q\<rparr>"
      define sink2 where "sink2 = sink @ [fill_event inc tb (m, ?q)]"
      define r2 where "r2 = r\<lparr>trades := trades r + 1\<rparr>"
      have "sweep_step buy i tb (False, b, inc, sink, r) = (False, b2, inc2, sink2, r2)"
        using fn ns1 fr(1) m0 False ge
        by (simp add: sweep_step_def mk Let_def emit_def m'_def [symmetric] b2_def inc2_def sink2_def r2_def) (simp add: m'_def)
      then have step: "sweep_level buy i tb (b, inc, sink, r) = sweep_level buy i tb (b2, inc2, sink2, r2)"
        using inc0 unfolding sweep_level_def by (subst while_unfold) simp
      have lo2: "level_orders (nodes b2) (n # ks) = ms" using ff(5) b1(5) os by auto
      have sw2: "swept b1 L1 buy A i B ms b2 (n # ks)"
        unfolding swept_def same using ff b1(5) os by auto
      obtain fs2 where tq: "take_queue (o_remaining inc2) ms = (q', fs2, os')" "fs = (m, ?q) # fs2"
        using Cons.prems(4) os False inc0 by (auto simp: inc2_def split: prod.splits)
      have "\<forall>x \<in> set ms. o_remaining x \<noteq> 0" using Cons.prems(3) os by simp
      from Cons.hyps(1) [OF lo2 [symmetric] ff(1) L1, unfolded lo2, OF this tq(1), of sink2 r2] obtain b3 ns3 where
        b3: "sweep_level buy i tb (b2, inc2, sink2, r2) = (b3, inc2\<lparr>o_remaining := q'\<rparr>,
          sink2 @ map (fill_event inc2 tb) fs2, r2\<lparr>trades := trades r2 + of_nat (length fs2)\<rparr>)"
        "swept b2 L1 buy A i B os' b3 ns3" by blast
      have "swept b L buy A i B ms b2 (n # ks)" using swept_trans [OF sw1 sw2 [unfolded L1_def]] .
      from swept_trans [OF this b3(2) [unfolded L1_def]] have "swept b L buy A i B os' b3 ns3" .
      then show ?thesis using step b3(1) tq(2)
        by (intro exI [of _ b3] exI [of _ ns3]) (simp add: inc2_def sink2_def r2_def)
    qed
  qed
qed

section \<open>Crossing\<close>

lemma crosses_upd [simp]: "crosses (inc\<lparr>o_remaining := x\<rparr>) tb = crosses inc tb"
  by (rule ext) (simp add: crosses_def)

lemma cross_stop:
  "o_remaining inc = 0 \<or> rb_empty (index_of opp b) \<Longrightarrow> cross opp tb (b, inc, sink, r) = (b, inc, sink, r)"
  unfolding cross_def by (subst while_unfold) auto

lemma cross_ok:
  assumes "book_ok b L" "settled b L" "\<forall>x \<in> set (all_orders (side_view b L opp)). o_remaining x \<noteq> 0"
    "match_side (crosses inc tb) (o_remaining inc) (side_view b L opp) = (q', fs, sb')"
  shows "\<exists>b' L'. cross opp tb (b, inc, sink, r) = (b', inc\<lparr>o_remaining := q'\<rparr>,
      sink @ map (fill_event inc tb) fs, r\<lparr>trades := trades r + of_nat (length fs)\<rparr>) \<and>
    book_ok b' L' \<and> settled b' L' \<and> side_view b' L' opp = sb' \<and>
    side_view b' L' (\<not> opp) = side_view b L (\<not> opp) \<and> locators_size b' = locators_size b"
  using assms
proof (induction "L opp" arbitrary: b L inc sink r fs)
  case Nil
  have "rb_size (index_of opp b) = 0" using index_ok_rep(4) [OF book_okD(5) [OF Nil.prems(1), of opp]] Nil.hyps by simp
  then have "cross opp tb (b, inc, sink, r) = (b, inc, sink, r)" using cross_stop by (simp add: rb_empty_def)
  moreover have "side_view b L opp = []" using Nil.hyps by (simp add: side_view_def)
  ultimately show ?case using Nil.prems by (intro exI [of _ b] exI [of _ L]) auto
next
  case (Cons x B)
  obtain i ns where x: "x = (i, ns)" by force
  have L: "L opp = [] @ (i, ns) # B" using Cons.hyps(2) x by simp
  have m: "(i, ns) \<in> set (L opp)" using L by simp
  let ?p = "n_key (index_of opp b) i" and ?os = "level_orders (nodes b) ns"
  have sv: "side_view b L opp = (?p, ?os) # map (level_view b opp) B" using L by (simp add: side_view_def level_view_def)
  note ix = index_ok_rep [OF book_okD(5) [OF Cons.prems(1), of opp]]
  have ne: "\<not> rb_empty (index_of opp b)" "rb_begin (index_of opp b) = i" using ix(3,4) L by (auto simp: rb_empty_def)
  have pr: "lvl_price (get_level opp i b) = ?p" using book_okD(6) [OF Cons.prems(1) m] by (simp add: level_ok_def)
  show ?case
  proof (cases "o_remaining inc = 0 \<or> \<not> crosses inc tb ?p")
    case True
    have "cross opp tb (b, inc, sink, r) = (b, inc, sink, r)"
    proof (cases "o_remaining inc = 0")
      case False
      then have st: "cross_step opp tb (False, b, inc, sink, r) = (True, b, inc, sink, r)"
        using True ne pr by (simp add: cross_step_def)
      show ?thesis unfolding cross_def using ne False
        by (subst while_unfold) (simp add: st, subst while_unfold, simp)
    qed (simp add: cross_stop)
    moreover have "q' = o_remaining inc" "fs = []" "sb' = side_view b L opp" using Cons.prems(4) sv True by auto
    ultimately show ?thesis using Cons.prems(1,2) by (intro exI [of _ b] exI [of _ L]) simp
  next
    case False
    obtain q1 f1 os1 where tq: "take_queue (o_remaining inc) ?os = (q1, f1, os1)" by (metis prod_cases3)
    have pos: "\<forall>x \<in> set ?os. o_remaining x \<noteq> 0" using Cons.prems(3) sv by (simp add: all_orders_def)
    from sweep_ok [OF Cons.prems(1) L pos tq, of tb sink r] obtain b1 ns1 where
      sw: "sweep_level opp i tb (b, inc, sink, r) = (b1, inc\<lparr>o_remaining := q1\<rparr>,
        sink @ map (fill_event inc tb) f1, r\<lparr>trades := trades r + of_nat (length f1)\<rparr>)"
      and sp: "swept b L opp [] i B os1 b1 ns1" by blast
    define L1 where "L1 = L(opp := [] @ (i, ns1) # B)"
    define inc1 where "inc1 = inc\<lparr>o_remaining := q1\<rparr>"
    define sink1 where "sink1 = sink @ map (fill_event inc tb) f1"
    define r1 where "r1 = r\<lparr>trades := trades r + of_nat (length f1)\<rparr>"
    have b1: "book_ok b1 L1" "level_orders (nodes b1) ns1 = os1"
      "side_view b1 L1 opp = (?p, os1) # map (level_view b opp) B"
      "side_view b1 L1 (\<not> opp) = side_view b L (\<not> opp)" "locators_size b1 = locators_size b"
      using sp by (simp_all add: swept_def L1_def)
    have L1: "L1 opp = [] @ (i, ns1) # B" by (simp add: L1_def)
    have m1: "(i, ns1) \<in> set (L1 opp)" by (simp add: L1)
    note lw = level_words [OF book_okD(6) [OF b1(1) m1] level_count_exact [OF book_okD(3) [OF b1(1)] m1]]
    have oc: "order_count (get_level opp i b1) = 0 \<longleftrightarrow> os1 = []" using lw(1) b1(2) by simp
    let ?b2 = "if os1 = [] then drop_level opp i b1 else b1"
    have "cross_step opp tb (False, b, inc, sink, r) = (False, ?b2, inc1, sink1, r1)"
      using False sw oc
      by (simp add: cross_step_def ne(2) pr Let_def drop_level_def split_beta inc1_def sink1_def r1_def)
    then have step: "cross opp tb (b, inc, sink, r) = cross opp tb (?b2, inc1, sink1, r1)"
      using False ne(1) unfolding cross_def by (subst while_unfold) simp
    have sq: "ys \<noteq> []" if "(p, ys) \<in> set (map (level_view b opp) B)" for p ys
    proof -
      have "(p, ys) \<in> set (side_view b L opp)" unfolding sv using that by (rule list.set_intros(2))
      then show ?thesis using Cons.prems(2) unfolding settled_view by blast
    qed
    show ?thesis
    proof (cases "os1 = []")
      case os1: False
      then have "q1 = 0" using take_queue_rest [OF tq] by simp
      then have "cross opp tb (b, inc, sink, r) = (b1, inc1, sink1, r1)"
        using step os1 cross_stop by (simp add: inc1_def)
      moreover have "q' = q1" "fs = f1" "sb' = (?p, os1) # map (level_view b opp) B"
        using Cons.prems(4) sv False tq os1 by auto
      moreover have "settled b1 L1"
        by (rule settledI [OF Cons.prems(2) _ b1(4)]) (use os1 sq in \<open>simp only: b1(3) set_simps\<close>, blast)
      ultimately show ?thesis using b1
        by (intro exI [of _ b1] exI [of _ L1]) (simp add: inc1_def sink1_def r1_def)
    next
      case True
      define b2 where "b2 = drop_level opp i b1"
      define L2 where "L2 = L1(opp := [] @ B)"
      note dr = drop_level_ok [OF b1(1) L1 b1(2) [unfolded True], folded b2_def L2_def]
      have v2: "side_view b2 L2 opp = map (level_view b opp) B"
        using dr(2) b1(3) L1 by (simp add: side_view_def)
      have o2: "side_view b2 L2 (\<not> opp) = side_view b L (\<not> opp)" using dr(3) b1(4) by simp
      have "settled b2 L2"
        by (rule settledI [OF Cons.prems(2) _ o2]) (simp only: v2, rule sq)
      moreover have "\<forall>x \<in> set (all_orders (side_view b2 L2 opp)). o_remaining x \<noteq> 0"
        using Cons.prems(3) sv v2 by (simp add: all_orders_def)
      moreover obtain f2 where ms: "match_side (crosses inc1 tb) (o_remaining inc1) (side_view b2 L2 opp) = (q', f2, sb')"
        "fs = f1 @ f2"
        using Cons.prems(4) sv v2 False tq True by (auto simp: inc1_def split: prod.splits)
      moreover have "B = L2 opp" by (simp add: L2_def)
      ultimately obtain b3 L3 where b3: "cross opp tb (b2, inc1, sink1, r1) = (b3, inc1\<lparr>o_remaining := q'\<rparr>,
          sink1 @ map (fill_event inc1 tb) f2, r1\<lparr>trades := trades r1 + of_nat (length f2)\<rparr>)"
        "book_ok b3 L3" "settled b3 L3" "side_view b3 L3 opp = sb'"
        "side_view b3 L3 (\<not> opp) = side_view b2 L2 (\<not> opp)" "locators_size b3 = locators_size b2"
        using Cons.hyps(1) [OF _ dr(1), of inc1 f2 sink1 r1] by blast
      then show ?thesis using step True ms(2) o2 dr(4) b1(5)
        by (intro exI [of _ b3] exI [of _ L3])
          (simp add: b2_def [symmetric] inc1_def sink1_def r1_def slab_same_def)
    qed
  qed
qed

section \<open>Submitting an order\<close>

text \<open>
  The specification of \<^verbatim>\<open>submit\<close>, on the two lists of levels (\<open>v True\<close>: the bids). Whether a
  residual can rest depends on the pools and on the id as well, so that it is a parameter.
\<close>

definition spec_submit ::
  "bool \<Rightarrow> Order \<Rightarrow> (bool \<Rightarrow> side_book) \<Rightarrow> MatchResult \<times> (bool \<Rightarrow> side_book) \<times> TradeEvent list" where
  "spec_submit can_rest inc v =
     (let buy = (o_side inc = BUY); r = MatchResult_init in
      if o_type inc = CANCEL then
        (r\<lparr>canceled := (\<exists>s. o_id inc \<in> o_id ` set (all_orders (v s)))\<rparr>, (\<lambda>s. dequeue (o_id inc) (v s)), [])
      else if \<not> is_admissible inc then (r\<lparr>residual := o_remaining inc, rejected := True\<rparr>, v, [reject_event inc])
      else
        let (q, fs, opp) = match_side (crosses inc buy) (o_remaining inc) (v (\<not> buy));
            rest = (q \<noteq> 0 \<and> o_type inc = LIMIT);
            left = inc\<lparr>o_remaining := q\<rparr>;
            r = r\<lparr>filled := o_remaining inc - q, residual := q, trades := of_nat (length fs),
                  rested := (rest \<and> can_rest), rejected := (rest \<and> \<not> can_rest)\<rparr>;
            v = v(\<not> buy := opp);
            v = (if rest \<and> can_rest then v(buy := enqueue (prec_of buy) left (v buy)) else v)
        in (r, v, map (fill_event inc buy) fs @ (if rest \<and> \<not> can_rest then [reject_event left] else [])))"

definition positive :: "side_book \<Rightarrow> bool" where
  "positive sb \<longleftrightarrow> (\<forall>x \<in> set (all_orders sb). o_remaining x \<noteq> 0)"

lemma submit_crossing:
  assumes "o_type inc \<noteq> CANCEL" "is_admissible inc"
  shows "submit inc (b, sink) =
    (let (b1, inc1, sink1, r1) = cross (o_side inc \<noteq> BUY) (o_side inc = BUY) (b, inc, sink, MatchResult_init);
         r2 = r1\<lparr>filled := o_remaining inc - o_remaining inc1, residual := o_remaining inc1\<rparr> in
     if o_remaining inc1 \<noteq> 0 \<and> o_type inc1 = LIMIT then
       let (ok, b2) = add inc1 b1 in
       if ok then (r2\<lparr>rested := True\<rparr>, b2, sink1)
       else (let (sink2, r3) = emit_reject inc1 (sink1, r2\<lparr>rested := False\<rparr>) in (r3, b2, sink2))
     else (r2, b1, sink1))"
proof -
  obtain b1 inc1 sink1 r1 where c:
    "cross (o_side inc \<noteq> BUY) (o_side inc = BUY) (b, inc, sink, MatchResult_init) = (b1, inc1, sink1, r1)"
    by (metis prod_cases4)
  obtain ok b2 where a: "add inc1 b1 = (ok, b2)" by force
  have eq: "(if o_remaining inc \<noteq> 0 then
          if o_side inc = BUY then cross False True (b, inc, sink, MatchResult_init)
          else cross True False (b, inc, sink, MatchResult_init)
        else (b, inc, sink, MatchResult_init)) = (b1, inc1, sink1, r1)"
    using c cross_stop [of inc] by auto
  show ?thesis unfolding submit_def Let_def prod.case eq c a using assms by (simp add: split_beta)
qed

text \<open>One submission, from an invariant state.\<close>

lemma positive_dequeue: "positive sb \<Longrightarrow> positive (dequeue i sb)"
  by (force simp: positive_def all_orders_def dequeue_def)

lemma submit_ok:
  assumes ok: "book_ok b L" "settled b L" and pos: "\<forall>s. positive (side_view b L s)"
    and sub: "submit inc (b, sink) = (r, b', sink')"
  shows "\<exists>L' evs. book_ok b' L' \<and> settled b' L' \<and> locators_size b' = locators_size b \<and>
    spec_submit (rested r) inc (side_view b L) = (r, side_view b' L', evs) \<and> sink' = sink @ evs \<and>
    (rested r \<longrightarrow> unat (o_id inc) < locators_size b)"
proof -
  let ?v = "side_view b L"
  consider "o_type inc = CANCEL" | "o_type inc \<noteq> CANCEL" "\<not> is_admissible inc" | "o_type inc \<noteq> CANCEL" "is_admissible inc" by blast
  then show ?thesis
  proof cases
    case 1
    obtain c b1 where cb: "cancel (o_id inc) b = (c, b1)" by force
    note cc = cancel_ok [OF ok cb]
    from cc(1) obtain L' where L': "book_ok b1 L'" "settled b1 L'" "\<forall>s. side_view b1 L' s = dequeue (o_id inc) (?v s)" by blast
    then have "side_view b1 L' = (\<lambda>s. dequeue (o_id inc) (?v s))" by auto
    moreover have "r = MatchResult_init\<lparr>canceled := c\<rparr>" "b' = b1" "sink' = sink" using sub 1 cb by (auto simp: submit_def)
    ultimately show ?thesis using L' cc(2,4) 1
      by (intro exI [of _ L'] exI [of _ "[]"]) (simp add: spec_submit_def Let_def MatchResult_init_def)
  next
    case 2
    then have "r = MatchResult_init\<lparr>residual := o_remaining inc, rejected := True\<rparr>" "b' = b" "sink' = sink @ [reject_event inc]"
      using sub by (auto simp: submit_def emit_reject_def MatchResult_init_def)
    then show ?thesis using ok 2
      by (intro exI [of _ L] exI [of _ "[reject_event inc]"]) (simp add: spec_submit_def Let_def MatchResult_init_def)
  next
    case 3
    define buy where "buy = (o_side inc = BUY)"
    obtain q fs opp where ms: "match_side (crosses inc buy) (o_remaining inc) (?v (\<not> buy)) = (q, fs, opp)" by (metis prod_cases3)
    have "\<forall>x \<in> set (all_orders (?v (\<not> buy))). o_remaining x \<noteq> 0" using pos by (simp add: positive_def)
    from cross_ok [OF ok this ms, of sink MatchResult_init] obtain b1 L1 where
      c: "cross (\<not> buy) buy (b, inc, sink, MatchResult_init) = (b1, inc\<lparr>o_remaining := q\<rparr>,
        sink @ map (fill_event inc buy) fs, MatchResult_init\<lparr>trades := trades MatchResult_init + of_nat (length fs)\<rparr>)"
      and b1: "book_ok b1 L1" "settled b1 L1" "side_view b1 L1 (\<not> buy) = opp" "side_view b1 L1 buy = ?v buy"
        "locators_size b1 = locators_size b" by auto
    have sv1: "side_view b1 L1 = ?v(\<not> buy := opp)"
    proof
      show "side_view b1 L1 s = (?v(\<not> buy := opp)) s" for s using b1(3,4) by (cases "s = buy") auto
    qed
    let ?left = "inc\<lparr>o_remaining := q\<rparr>"
    note sc = submit_crossing [OF 3, of b sink, folded buy_def, unfolded c Let_def prod.case]
    have spec: "spec_submit can inc ?v =
        (MatchResult_init\<lparr>filled := o_remaining inc - q, residual := q, trades := of_nat (length fs),
            rested := (rest \<and> can), rejected := (rest \<and> \<not> can)\<rparr>,
         if rest \<and> can then (?v(\<not> buy := opp))(buy := enqueue (prec_of buy) ?left (?v buy)) else ?v(\<not> buy := opp),
         map (fill_event inc buy) fs @ (if rest \<and> \<not> can then [reject_event ?left] else []))"
      if "rest = (q \<noteq> 0 \<and> o_type inc = LIMIT)" for can rest
      unfolding spec_submit_def Let_def buy_def [symmetric] ms prod.case that [symmetric] using 3 by simp
    show ?thesis
    proof (cases "q \<noteq> 0 \<and> o_type inc = LIMIT")
      case False
      have "(MatchResult_init\<lparr>filled := o_remaining inc - q, residual := q, trades := of_nat (length fs)\<rparr>,
          b1, sink @ map (fill_event inc buy) fs) = (r, b', sink')"
        using sub unfolding sc using False by (simp add: MatchResult_init_def)
      then show ?thesis using b1 sv1 spec [of False False] False
        by (intro exI [of _ L1] exI [of _ "map (fill_event inc buy) fs"]) (auto simp: MatchResult_init_def)
    next
      case True
      obtain okr b2 where a: "add ?left b1 = (okr, b2)" by force
      from add_ok(1) [OF b1(1,2) a] obtain L2 where ad: "added b1 L1 ?left okr b2 L2" by blast
      have v2: "side_view b2 L2 = (if okr then (?v(\<not> buy := opp))(buy := enqueue (prec_of buy) ?left (?v buy)) else ?v(\<not> buy := opp))"
      proof
        show "side_view b2 L2 s = (if okr then (?v(\<not> buy := opp))(buy := enqueue (prec_of buy) ?left (?v buy)) else ?v(\<not> buy := opp)) s" for s
          using ad sv1 by (cases "s = buy") (auto simp: added_def Let_def buy_def [symmetric])
      qed
      have b2: "book_ok b2 L2" "settled b2 L2" "locators_size b2 = locators_size b"
        using ad b1(5) by (simp_all add: added_def Let_def)
      have rng: "okr \<Longrightarrow> unat (o_id inc) < locators_size b" using add_ok(2) [OF b1(1,2) a] b1(5) by simp
      have "(MatchResult_init\<lparr>filled := o_remaining inc - q, residual := q, trades := of_nat (length fs),
          rested := okr, rejected := \<not> okr\<rparr>, b2,
          sink @ map (fill_event inc buy) fs @ (if okr then [] else [reject_event ?left])) = (r, b', sink')"
        using sub unfolding sc using True a by (cases okr) (auto simp: MatchResult_init_def emit_reject_def)
      then show ?thesis using b2 v2 spec [of True okr] True rng
        by (intro exI [of _ L2] exI [of _ "map (fill_event inc buy) fs @ (if okr then [] else [reject_event ?left])"])
          (cases okr; force simp: MatchResult_init_def)
    qed
  qed
qed

end
