(* ===== verification/Matching_Spec.thy ===== *)
theory Matching_Spec
  imports Matcher_Refinement
begin

text \<open>
  What matching on lists achieves: nothing is lost, the fills consume the opposite queues from the
  front, every fill is within the limit of the incoming order, and the two sides stay uncrossed.
\<close>

section \<open>Conservation\<close>

definition fill_total :: "(Order \<times> Qty) list \<Rightarrow> nat" where
  "fill_total fs = sum_list (map (\<lambda>(m, q). unat q) fs)"

lemma fill_total_simps [simp]:
  "fill_total [] = 0" "fill_total ((m, q) # fs) = unat q + fill_total fs"
  "fill_total (fs @ gs) = fill_total fs + fill_total gs"
  by (simp_all add: fill_total_def)

lemma all_orders_simps [simp]:
  "all_orders [] = []" "all_orders ((p, os) # sb) = os @ all_orders sb"
  "all_orders (sb @ sb') = all_orders sb @ all_orders sb'"
  by (simp_all add: all_orders_def)

lemma take_queue_conserves:
  "take_queue q os = (q', fs, os') \<Longrightarrow>
   unat q = unat q' + fill_total fs \<and> open_qty os = open_qty os' + fill_total fs"
proof (induction q os arbitrary: q' fs os' rule: take_queue.induct)
  case (2 q m ms)
  consider "q = 0" | "q \<noteq> 0" "q < o_remaining m" | "q \<noteq> 0" "\<not> q < o_remaining m" by blast
  then show ?case
  proof cases
    case 2
    then have "unat (o_remaining m - q) + unat q = unat (o_remaining m)"
      by (simp add: unat_sub word_less_nat_alt word_le_nat_alt)
    then show ?thesis using "2.prems" 2 by auto
  next
    case 3
    then have "unat (q - o_remaining m) = unat q - unat (o_remaining m)" "unat (o_remaining m) \<le> unat q"
      by (auto simp: unat_sub word_less_nat_alt word_le_nat_alt)
    then show ?thesis using "2.IH" [OF 3] "2.prems" 3 by (auto split: prod.splits)
  qed (use "2.prems" in auto)
qed simp

text \<open>An induction rule for the three ways \<open>match_side\<close> goes on: it stops, clears a level, or stops within one.\<close>

lemma match_side_rule [consumes 1, case_names stop clear part]:
  assumes "match_side cr q sb = (q', fs, sb')"
    and stop: "\<And>q sb. sb = [] \<or> q = 0 \<or> \<not> cr (fst (hd sb)) \<Longrightarrow> P q sb q [] sb"
    and clear: "\<And>q p os sb q1 f1 q2 f2 sb2. q \<noteq> 0 \<Longrightarrow> cr p \<Longrightarrow> take_queue q os = (q1, f1, []) \<Longrightarrow>
      P q1 sb q2 f2 sb2 \<Longrightarrow> P q ((p, os) # sb) q2 (f1 @ f2) sb2"
    and part: "\<And>q p os sb f1 os1. q \<noteq> 0 \<Longrightarrow> cr p \<Longrightarrow> take_queue q os = (0, f1, os1) \<Longrightarrow> os1 \<noteq> [] \<Longrightarrow>
      P q ((p, os) # sb) 0 f1 ((p, os1) # sb)"
  shows "P q sb q' fs sb'"
  using assms(1)
proof (induction sb arbitrary: q q' fs sb')
  case Nil
  then show ?case using stop [of "[]" q] by simp
next
  case (Cons l sb)
  obtain p os where l: "l = (p, os)" by force
  show ?case
  proof (cases "q = 0 \<or> \<not> cr p")
    case True
    then show ?thesis using Cons.prems stop [of "l # sb" q] l by auto
  next
    case False
    obtain q1 f1 os1 where tq: "take_queue q os = (q1, f1, os1)" by (metis prod_cases3)
    show ?thesis
    proof (cases "os1 = []")
      case True
      obtain q2 f2 sb2 where m2: "match_side cr q1 sb = (q2, f2, sb2)" by (metis prod_cases3)
      show ?thesis using Cons.prems clear [OF _ _ tq [unfolded True] Cons.IH [OF m2]] False l tq m2 True by auto
    next
      case ne: False
      then have q1: "q1 = 0" using take_queue_rest [OF tq] by blast
      show ?thesis using Cons.prems part [OF _ _ tq [unfolded q1] ne] False l tq ne q1 by auto
    qed
  qed
qed

lemma match_side_conserves:
  "match_side cr q sb = (q', fs, sb') \<Longrightarrow>
   unat q = unat q' + fill_total fs \<and> open_qty (all_orders sb) = open_qty (all_orders sb') + fill_total fs"
  by (induction rule: match_side_rule) (auto dest: take_queue_conserves)

section \<open>Priority\<close>

text \<open>
  \<open>consumes fs os os'\<close>: the fills \<open>fs\<close> take the queue \<open>os\<close> from the front, each its maker's whole
  quantity but possibly the last, and leave \<open>os'\<close>.
\<close>

fun consumes :: "(Order \<times> Qty) list \<Rightarrow> Order list \<Rightarrow> Order list \<Rightarrow> bool" where
  "consumes [] os os' \<longleftrightarrow> os' = os"
| "consumes ((m, x) # fs) (o' # os) os' \<longleftrightarrow> m = o' \<and>
     (if x = o_remaining o' then consumes fs os os'
      else fs = [] \<and> 0 < x \<and> x < o_remaining o' \<and> os' = o'\<lparr>o_remaining := o_remaining o' - x\<rparr> # os)"
| "consumes (f # fs) [] os' \<longleftrightarrow> False"

lemma consumes_more: "consumes fs os os' \<Longrightarrow> consumes fs (os @ rest) (os' @ rest)"
  by (induction fs os os' rule: consumes.induct) (auto split: if_splits)

lemma consumes_trans: "consumes fs os [] \<Longrightarrow> consumes gs os2 os' \<Longrightarrow> consumes (fs @ gs) (os @ os2) os'"
  by (induction fs os "[] :: Order list" rule: consumes.induct) (auto split: if_splits)

lemma consumes_makers: "consumes fs os os' \<Longrightarrow> map fst fs = take (length fs) os"
  by (induction fs os os' rule: consumes.induct) (auto split: if_splits)

lemma take_queue_consumes: "take_queue q os = (q', fs, os') \<Longrightarrow> consumes fs os os'"
proof (induction q os arbitrary: q' fs os' rule: take_queue.induct)
  case (2 q m ms)
  then show ?case by (auto split: if_splits prod.splits simp: word_neq_0_conv)
qed simp

lemma match_side_consumes: "match_side cr q sb = (q', fs, sb') \<Longrightarrow> consumes fs (all_orders sb) (all_orders sb')"
proof (induction rule: match_side_rule)
  case (part q p os sb f1 os1)
  then show ?case using consumes_more [OF take_queue_consumes] by simp
qed (auto intro: consumes_trans take_queue_consumes)

section \<open>Prices\<close>

lemma match_side_suffix: "match_side cr q sb = (q', fs, sb') \<Longrightarrow> \<exists>k. map fst sb' = drop k (map fst sb)"
proof (induction rule: match_side_rule)
  case (clear q p os sb q1 f1 q2 f2 sb2)
  then obtain k where "map fst sb2 = drop k (map fst sb)" by blast
  then show ?case by (intro exI [of _ "Suc k"]) simp
qed (auto intro: exI [of _ 0])

lemma match_side_prices: "match_side cr q sb = (q', fs, sb') \<Longrightarrow> fst ` set sb' \<subseteq> fst ` set sb"
  using match_side_suffix [of cr q sb q' fs sb'] by (metis set_drop_subset set_map)

lemma match_side_stops: "match_side cr q sb = (q', fs, sb') \<Longrightarrow> q' \<noteq> 0 \<Longrightarrow> sb' = [] \<or> \<not> cr (fst (hd sb'))"
  by (induction rule: match_side_rule) auto

lemma take_queue_makers: "take_queue q os = (q', fs, os') \<Longrightarrow> (m, x) \<in> set fs \<Longrightarrow> m \<in> set os"
  using consumes_makers [OF take_queue_consumes] by (metis image_eqI fst_conv in_set_takeD set_map)

lemma match_side_crosses:
  "match_side cr q sb = (q', fs, sb') \<Longrightarrow> (m, x) \<in> set fs \<Longrightarrow> \<exists>p os. (p, os) \<in> set sb \<and> m \<in> set os \<and> cr p"
proof (induction rule: match_side_rule)
  case (clear q p os sb q1 f1 q2 f2 sb2)
  then show ?case using take_queue_makers [OF clear(3)] by auto
next
  case (part q p os sb f1 os1)
  then show ?case using take_queue_makers [OF part(3)] by auto
qed simp

section \<open>Invariants of the two sides\<close>

lemma consumes_positive:
  "consumes fs os os' \<Longrightarrow> \<forall>x \<in> set os. o_remaining x \<noteq> 0 \<Longrightarrow> \<forall>x \<in> set os'. o_remaining x \<noteq> 0"
  by (induction fs os os' rule: consumes.induct) (auto split: if_splits)

lemma match_side_positive: "match_side cr q sb = (q', fs, sb') \<Longrightarrow> positive sb \<Longrightarrow> positive sb'"
  unfolding positive_def using consumes_positive [OF match_side_consumes] by blast

lemma enqueue_orders: "set (all_orders (enqueue prec o' sb)) = insert o' (set (all_orders sb))"
  by (induction prec o' sb rule: enqueue.induct) auto

lemma enqueue_open_qty:
  "open_qty (all_orders (enqueue prec o' sb)) = unat (o_remaining o') + open_qty (all_orders sb)"
  by (induction prec o' sb rule: enqueue.induct) auto

lemma enqueue_prices: "fst ` set (enqueue prec o' sb) = insert (o_price o') (fst ` set sb)"
  by (induction prec o' sb rule: enqueue.induct) auto

lemma enqueue_positive: "positive sb \<Longrightarrow> o_remaining o' \<noteq> 0 \<Longrightarrow> positive (enqueue prec o' sb)"
  by (simp add: positive_def enqueue_orders)

text \<open>No bid reaches an ask.\<close>

definition uncrossed :: "(bool \<Rightarrow> side_book) \<Rightarrow> bool" where
  "uncrossed v \<longleftrightarrow> (\<forall>p \<in> fst ` set (v True). \<forall>q \<in> fst ` set (v False). p < q)"

definition sides_sorted :: "(bool \<Rightarrow> side_book) \<Rightarrow> bool" where
  "sides_sorted v \<longleftrightarrow> (\<forall>s. sorted_wrt (prec_of s) (map fst (v s)))"

lemma uncrossedD: "uncrossed v \<Longrightarrow> p \<in> fst ` set (v True) \<Longrightarrow> q \<in> fst ` set (v False) \<Longrightarrow> p < q"
  by (simp only: uncrossed_def)

lemma uncrossedI: "(\<And>p q. p \<in> fst ` set (v True) \<Longrightarrow> q \<in> fst ` set (v False) \<Longrightarrow> p < q) \<Longrightarrow> uncrossed v"
  unfolding uncrossed_def by (intro ballI)

lemma uncrossed_mono: "uncrossed v \<Longrightarrow> (\<And>s. fst ` set (v' s) \<subseteq> fst ` set (v s)) \<Longrightarrow> uncrossed v'"
  by (rule uncrossedI) (rule uncrossedD [of v]; (erule subsetD [rotated])?)

lemma dequeue_prices: "fst ` set (dequeue i sb) \<subseteq> fst ` set sb"
  by (auto simp: dequeue_def intro: rev_image_eqI)

lemma best_first: "sorted_wrt (prec_of s) (map fst sb) \<Longrightarrow> p \<in> fst ` set sb \<Longrightarrow> p = fst (hd sb) \<or> prec_of s (fst (hd sb)) p"
  by (cases sb) auto

text \<open>A residual that may rest does not reach the other side: it stopped there at a worse price.\<close>

lemma residual_uncrossed:
  assumes "match_side (crosses inc buy) q (v (\<not> buy)) = (q', fs, opp)" "q' \<noteq> 0" "o_type inc = LIMIT"
    "sorted_wrt (prec_of (\<not> buy)) (map fst (v (\<not> buy)))" "p \<in> fst ` set opp"
  shows "if buy then o_price inc < p else p < o_price inc"
proof -
  obtain k where k: "map fst opp = drop k (map fst (v (\<not> buy)))" using match_side_suffix [OF assms(1)] ..
  then have "sorted_wrt (prec_of (\<not> buy)) (map fst opp)" using assms(4) by (simp add: sorted_wrt_drop)
  note best_first [OF this assms(5)]
  moreover have "\<not> crosses inc buy (fst (hd opp))" using match_side_stops [OF assms(1,2)] assms(5) by auto
  ultimately show ?thesis using assms(3) by (auto simp: crosses_def prec_of_def)
qed

lemma spec_submit_matching:
  assumes "o_type inc \<noteq> CANCEL" "is_admissible inc"
    "match_side (crosses inc (o_side inc = BUY)) (o_remaining inc) (v (o_side inc \<noteq> BUY)) = (q, fs, opp)"
    "spec_submit can inc v = (r, v', evs)"
  defines "buy \<equiv> o_side inc = BUY" and "rest \<equiv> q \<noteq> 0 \<and> o_type inc = LIMIT" and "lft \<equiv> inc\<lparr>o_remaining := q\<rparr>"
  shows "r = MatchResult_init\<lparr>filled := o_remaining inc - q, residual := q, trades := of_nat (length fs),
      rested := rest \<and> can, rejected := rest \<and> \<not> can\<rparr>"
    "v' (\<not> buy) = opp" "v' buy = (if rest \<and> can then enqueue (prec_of buy) lft (v buy) else v buy)"
    "evs = map (fill_event inc buy) fs @ (if rest \<and> \<not> can then [reject_event lft] else [])"
proof -
  have "spec_submit can inc v = (MatchResult_init\<lparr>filled := o_remaining inc - q, residual := q, trades := of_nat (length fs),
      rested := rest \<and> can, rejected := rest \<and> \<not> can\<rparr>,
      if rest \<and> can then v(\<not> buy := opp, buy := enqueue (prec_of buy) lft (v buy)) else v(\<not> buy := opp),
      map (fill_event inc buy) fs @ (if rest \<and> \<not> can then [reject_event lft] else []))"
    unfolding spec_submit_def Let_def assms(3) prod.case buy_def rest_def lft_def using assms(1,2) by simp
  then show "r = MatchResult_init\<lparr>filled := o_remaining inc - q, residual := q, trades := of_nat (length fs),
      rested := rest \<and> can, rejected := rest \<and> \<not> can\<rparr>"
    "v' (\<not> buy) = opp" "v' buy = (if rest \<and> can then enqueue (prec_of buy) lft (v buy) else v buy)"
    "evs = map (fill_event inc buy) fs @ (if rest \<and> \<not> can then [reject_event lft] else [])"
    using assms(4) by auto
qed

lemma spec_submit_safe:
  assumes "spec_submit can inc v = (r, v', evs)" "\<forall>s. positive (v s)" "sides_sorted v" "uncrossed v"
  shows "(\<forall>s. positive (v' s)) \<and> uncrossed v'"
proof -
  consider "o_type inc = CANCEL" | "o_type inc \<noteq> CANCEL" "\<not> is_admissible inc" | "o_type inc \<noteq> CANCEL" "is_admissible inc" by blast
  then show ?thesis
  proof cases
    case 1
    then have v': "v' = (\<lambda>s. dequeue (o_id inc) (v s))" using assms(1) by (simp add: spec_submit_def Let_def)
    show ?thesis unfolding v'
      using assms(2) positive_dequeue uncrossed_mono [OF assms(4), of "\<lambda>s. dequeue (o_id inc) (v s)"] dequeue_prices by blast
  next
    case 2
    then show ?thesis using assms by (simp add: spec_submit_def Let_def)
  next
    case 3
    define buy where "buy = (o_side inc = BUY)"
    obtain q fs opp where ms: "match_side (crosses inc buy) (o_remaining inc) (v (\<not> buy)) = (q, fs, opp)" by (metis prod_cases3)
    note sm = spec_submit_matching [OF 3, of v q fs opp, folded buy_def, OF ms assms(1)]
    let ?rest = "q \<noteq> 0 \<and> o_type inc = LIMIT"
    have po: "positive opp" using match_side_positive [OF ms] assms(2) by blast
    have "positive (v' s)" for s
      using sm(2,3) po assms(2) enqueue_positive [of "v buy" "inc\<lparr>o_remaining := q\<rparr>"] by (cases "s = buy") auto
    moreover have "uncrossed v'"
    proof (cases "?rest \<and> can")
      case False
      then have "fst ` set (v' s) \<subseteq> fst ` set (v s)" for s
        using sm(2,3) match_side_prices [OF ms] by (cases "s = buy") auto
      then show ?thesis by (rule uncrossed_mono [OF assms(4)])
    next
      case True
      have "if buy then o_price inc < p else p < o_price inc" if "p \<in> fst ` set opp" for p
        using residual_uncrossed [of inc buy _ v, OF ms _ _ _ that] True assms(3) by (simp add: sides_sorted_def)
      moreover have "fst ` set (v' buy) = insert (o_price inc) (fst ` set (v buy))" "v' (\<not> buy) = opp"
        using sm(2,3) True by (simp_all add: enqueue_prices)
      ultimately show ?thesis using match_side_prices [OF ms] uncrossedD [OF assms(4)]
        by (cases buy) (intro uncrossedI; simp only: simp_thms if_True if_False insert_iff; meson subsetD)+
    qed
    ultimately show ?thesis by blast
  qed
qed

end
