(* ===== verification/Matching_Engine.thy ===== *)
theory Matching_Engine
  imports Matching_Spec
begin

text \<open>
  The properties of the order book and of the matcher, over the executable view \<open>book_side\<close>: what
  a client of \<^verbatim>\<open>OrderBook\<close> and of \<^verbatim>\<open>Matcher::submit\<close> can rely on. The contract of the book is a
  locale, of which the model of \<^verbatim>\<open>OrderBook\<close> is an interpretation.
\<close>

section \<open>The contract of an order book\<close>

definition live_ids :: "(bool \<Rightarrow> side_book) \<Rightarrow> OrderId set" where
  "live_ids v = o_id ` set (all_orders (v True)) \<union> o_id ` set (all_orders (v False))"

lemma live_ids_iff: "i \<in> live_ids v \<longleftrightarrow> (\<exists>s. i \<in> o_id ` set (all_orders (v s)))"
  unfolding live_ids_def by (metis (full_types) Un_iff)

lemma dequeue_Cons:
  "dequeue i ((p, q) # sb) = (let q' = filter (\<lambda>o'. o_id o' \<noteq> i) q in if q' = [] then dequeue i sb else (p, q') # dequeue i sb)"
  by (simp add: dequeue_def Let_def)

lemma dequeue_enqueue:
  "o_id o' \<notin> o_id ` set (all_orders sb) \<Longrightarrow> \<forall>(p, q) \<in> set sb. q \<noteq> [] \<Longrightarrow>
   dequeue (o_id o') (enqueue prec o' sb) = sb"
proof (induction sb)
  case (Cons l sb)
  obtain p q where l: "l = (p, q)" by force
  have nl: "o_id o' \<notin> o_id ` set q" "o_id o' \<notin> o_id ` set (all_orders sb)" "q \<noteq> []" "\<forall>(p, q) \<in> set sb. q \<noteq> []"
    using Cons.prems l by auto
  have q: "filter (\<lambda>x. o_id x \<noteq> o_id o') q = q"
    using nl(1) by (intro filter_True ballI) (metis imageI)
  have sb: "dequeue (o_id o') sb = sb" using nl(2,4) by (rule dequeue_absent)
  have "dequeue (o_id o') (enqueue prec o' sb) = sb" using Cons.IH nl(2,4) .
  then show ?case using q sb nl(3) by (simp add: l dequeue_Cons)
qed (simp add: dequeue_def)

lemma dequeue_orders: "all_orders (dequeue i sb) = filter (\<lambda>o'. o_id o' \<noteq> i) (all_orders sb)"
proof (induction sb)
  case (Cons l sb)
  then show ?case by (cases l) (simp add: dequeue_Cons Let_def)
qed (simp add: dequeue_def)

lemma dequeue_ids: "o_id ` set (all_orders (dequeue i sb)) = o_id ` set (all_orders sb) - {i}"
  unfolding dequeue_orders by auto

lemma dequeue_commute: "dequeue i (dequeue j sb) = dequeue j (dequeue i sb)"
proof (induction sb)
  case (Cons l sb)
  obtain p q where l: "l = (p, q)" by force
  let ?f = "\<lambda>i q. filter (\<lambda>o'. o_id o' \<noteq> i) q"
  have f: "?f i (?f j q) = ?f j (?f i q)" by (simp add: conj_commute)
  have c: "dequeue k ((p, ?f k' q) # dequeue k' sb) = dequeue k (dequeue k' ((p, q) # sb))" for k k'
    by (cases "?f k' q = []") (simp_all add: dequeue_Cons Let_def)
  show ?case using Cons f by (simp only: l c [symmetric] dequeue_Cons [of _ _ "?f _ _"] Let_def)
qed (simp add: dequeue_def)

text \<open>
  What a book promises, whatever it is made of: \<open>side\<close> is the abstract state, \<open>add_op\<close> queues an
  order that it takes, \<open>cancel_op\<close> takes one order out.
\<close>

locale order_store =
  fixes inv :: "'b \<Rightarrow> bool" and side :: "'b \<Rightarrow> bool \<Rightarrow> side_book"
    and add_op :: "Order \<Rightarrow> 'b \<Rightarrow> bool \<times> 'b" and cancel_op :: "OrderId \<Rightarrow> 'b \<Rightarrow> bool \<times> 'b"
  assumes add_inv: "inv b \<Longrightarrow> inv (snd (add_op o' b))"
    and add_side: "inv b \<Longrightarrow> side (snd (add_op o' b)) = (let buy = (o_side o' = BUY) in
      if fst (add_op o' b) then (side b)(buy := enqueue (prec_of buy) o' (side b buy)) else side b)"
    and add_fresh: "inv b \<Longrightarrow> fst (add_op o' b) \<Longrightarrow> o_id o' \<notin> live_ids (side b)"
    and cancel_inv: "inv b \<Longrightarrow> inv (snd (cancel_op i b))"
    and cancel_side: "inv b \<Longrightarrow> side (snd (cancel_op i b)) = (\<lambda>s. dequeue i (side b s))"
    and cancel_hit: "inv b \<Longrightarrow> fst (cancel_op i b) \<longleftrightarrow> i \<in> live_ids (side b)"
    and levels_nonempty: "inv b \<Longrightarrow> \<forall>(p, q) \<in> set (side b s). q \<noteq> []"
begin

lemma add_live: "inv b \<Longrightarrow> fst (add_op o' b) \<Longrightarrow> live_ids (side (snd (add_op o' b))) = insert (o_id o') (live_ids (side b))"
  by (auto simp: add_side Let_def live_ids_def enqueue_orders)

lemma add_cancel:
  assumes "inv b" "fst (add_op o' b)"
  shows "fst (cancel_op (o_id o') (snd (add_op o' b)))"
    "side (snd (cancel_op (o_id o') (snd (add_op o' b)))) = side b"
proof -
  note iv = add_inv [OF assms(1), of o']
  show "fst (cancel_op (o_id o') (snd (add_op o' b)))" using add_live [OF assms] by (simp add: cancel_hit [OF iv])
  have abs: "o_id o' \<notin> o_id ` set (all_orders (side b s))" for s
    using add_fresh [OF assms] by (auto simp: live_ids_iff)
  have "dequeue (o_id o') (side (snd (add_op o' b)) s) = side b s" for s
    using assms dequeue_enqueue [OF abs levels_nonempty [OF assms(1)]] dequeue_absent [OF abs levels_nonempty [OF assms(1)]]
    by (simp add: add_side Let_def)
  then show "side (snd (cancel_op (o_id o') (snd (add_op o' b)))) = side b" by (simp add: cancel_side [OF iv])
qed

lemma add_again: "inv b \<Longrightarrow> fst (add_op o' b) \<Longrightarrow> o_id o2 = o_id o' \<Longrightarrow> \<not> fst (add_op o2 (snd (add_op o' b)))"
  using add_fresh [OF add_inv, of b o2 o'] add_live by auto

lemma cancel_ids: "inv b \<Longrightarrow> live_ids (side (snd (cancel_op i b))) = live_ids (side b) - {i}"
  by (auto simp: cancel_side live_ids_def dequeue_ids)

lemma cancel_again: "inv b \<Longrightarrow> \<not> fst (cancel_op i (snd (cancel_op i b)))"
  using cancel_hit [OF cancel_inv] cancel_ids by simp

lemma cancel_commute:
  "inv b \<Longrightarrow> side (snd (cancel_op i (snd (cancel_op j b)))) = side (snd (cancel_op j (snd (cancel_op i b))))"
  using dequeue_commute by (simp add: cancel_side cancel_inv)

end

section \<open>The book of the engine\<close>

lemma book_side_fun: "book_ok b L \<Longrightarrow> book_side b = side_view b L"
  using book_side_view by blast

lemma book_invE:
  assumes "book_inv b"
  obtains L where "book_ok b L" "settled b L" "book_side b = side_view b L"
  using assms book_side_fun by (auto simp: book_inv_def)

lemma book_invI: "book_ok b L \<Longrightarrow> settled b L \<Longrightarrow> book_inv b"
  by (auto simp: book_inv_def)

lemma fun_split_bool: "f s = x \<Longrightarrow> f (\<not> s) = g (\<not> s) \<Longrightarrow> f = g(s := x)"
proof
  show "f r = (g(s := x)) r" if "f s = x" "f (\<not> s) = g (\<not> s)" for r using that by (cases "r = s") auto
qed

lemma book_add:
  fixes o' :: Order
  assumes "book_inv b"
  defines "r \<equiv> fst (add o' b)" and "b' \<equiv> snd (add o' b)" and "buy \<equiv> o_side o' = BUY"
  shows "book_inv b'" "locators_size b' = locators_size b"
    "book_side b' = (if r then (book_side b)(buy := enqueue (prec_of buy) o' (book_side b buy)) else book_side b)"
    "r \<Longrightarrow> unat (o_id o') < locators_size b \<and> se_node (locators b (unat (o_id o'))) = INVALID_INDEX"
    "\<not> r \<Longrightarrow> unat (o_id o') \<ge> locators_size b \<or> se_node (locators b (unat (o_id o'))) \<noteq> INVALID_INDEX \<or>
      free_nodes b = [] \<or> rb_free (index_of buy b) = []"
proof -
  obtain L where L: "book_ok b L" "settled b L" "book_side b = side_view b L" using assms(1) by (rule book_invE)
  have ab: "add o' b = (r, b')" by (simp add: r_def b'_def)
  from add_ok(1) [OF L(1,2) ab] obtain L' where ad: "book_ok b' L'" "settled b' L'" "locators_size b' = locators_size b"
    "side_view b' L' buy = (if r then enqueue (prec_of buy) o' (side_view b L buy) else side_view b L buy)"
    "side_view b' L' (\<not> buy) = side_view b L (\<not> buy)" by (auto simp: added_def Let_def buy_def)
  show "book_inv b'" "locators_size b' = locators_size b" using ad book_invI by blast+
  show "book_side b' = (if r then (book_side b)(buy := enqueue (prec_of buy) o' (book_side b buy)) else book_side b)"
    unfolding book_side_fun [OF ad(1)] L(3) using fun_split_bool [of "side_view b' L'" buy _ "side_view b L", OF ad(4,5)] by (auto split: if_splits)
  show "r \<Longrightarrow> unat (o_id o') < locators_size b \<and> se_node (locators b (unat (o_id o'))) = INVALID_INDEX"
    using add_ok(2) [OF L(1,2) ab] .
  show "\<not> r \<Longrightarrow> unat (o_id o') \<ge> locators_size b \<or> se_node (locators b (unat (o_id o'))) \<noteq> INVALID_INDEX \<or>
      free_nodes b = [] \<or> rb_free (index_of buy b) = []"
    using add_ok(3) [OF L(1,2) ab] by (simp add: buy_def)
qed

lemma book_live:
  assumes "book_inv b"
  shows "i \<in> live_ids (book_side b) \<longleftrightarrow> unat i < locators_size b \<and> se_node (locators b (unat i)) \<noteq> INVALID_INDEX"
proof -
  obtain L where L: "book_ok b L" "book_side b = side_view b L" using assms by (rule book_invE)
  show ?thesis using live_iff [OF L(1), of i] by (simp add: L(2) live_ids_iff)
qed

lemma book_cancel:
  fixes i :: OrderId
  assumes "book_inv b"
  defines "r \<equiv> fst (cancel i b)" and "b' \<equiv> snd (cancel i b)"
  shows "book_inv b'" "locators_size b' = locators_size b" "book_side b' = (\<lambda>s. dequeue i (book_side b s))"
    "r \<longleftrightarrow> i \<in> live_ids (book_side b)" "\<not> r \<Longrightarrow> b' = b"
proof -
  obtain L where L: "book_ok b L" "settled b L" "book_side b = side_view b L" using assms(1) by (rule book_invE)
  have cb: "cancel i b = (r, b')" by (simp add: r_def b'_def)
  note co = cancel_ok [OF L(1,2) cb]
  from co(1) obtain L' where L': "book_ok b' L'" "settled b' L'" "\<forall>s. side_view b' L' s = dequeue i (side_view b L s)" by blast
  show "book_inv b'" "book_side b' = (\<lambda>s. dequeue i (book_side b s))"
    using L' L(3) book_invI book_side_fun [OF L'(1)] by auto
  show "locators_size b' = locators_size b" "r \<longleftrightarrow> i \<in> live_ids (book_side b)" "\<not> r \<Longrightarrow> b' = b"
    using co(2-4) by (auto simp: L(3) live_ids_iff)
qed

interpretation book: order_store book_inv book_side add cancel
proof
  fix b :: OrderBook and o' :: Order and i :: OrderId and s
  assume iv: "book_inv b"
  note ad = book_add [OF iv, of o'] and ca = book_cancel [OF iv, of i]
  show "book_inv (snd (add o' b))" "book_inv (snd (cancel i b))" using ad(1) ca(1) .
  show "book_side (snd (add o' b)) = (let buy = o_side o' = BUY in
      if fst (add o' b) then (book_side b)(buy := enqueue (prec_of buy) o' (book_side b buy)) else book_side b)"
    unfolding Let_def by (rule ad(3))
  show "o_id o' \<notin> live_ids (book_side b)" if "fst (add o' b)"
    using ad(4) [OF that] book_live [OF iv, of "o_id o'"] by simp
  show "book_side (snd (cancel i b)) = (\<lambda>s. dequeue i (book_side b s))" by (rule ca(3))
  show "fst (cancel i b) \<longleftrightarrow> i \<in> live_ids (book_side b)" by (rule ca(4))
  obtain L where "book_ok b L" "settled b L" "book_side b = side_view b L" using iv by (rule book_invE)
  then show "\<forall>(p, q) \<in> set (book_side b s). q \<noteq> []" by (simp add: settled_view)
qed

end
