(* ===== verification/Engine_Properties.thy ===== *)
theory Engine_Properties
  imports Matching_Engine
begin

text \<open>
  The properties of the matching engine: \<open>Matcher::submit\<close> on a book in a reachable state.
\<close>

section \<open>The invariant of the engine\<close>

definition engine_ok :: "OrderBook \<Rightarrow> bool" where
  "engine_ok b \<longleftrightarrow> book_inv b \<and> (\<forall>s. positive (book_side b s)) \<and> uncrossed (book_side b)"

inductive engine_reach :: "nat \<Rightarrow> nat \<Rightarrow> nat \<Rightarrow> OrderBook \<times> TradeEvent list \<Rightarrow> bool" for max_nodes id_capacity level_capacity where
  start: "engine_reach max_nodes id_capacity level_capacity (book_init max_nodes id_capacity level_capacity, [])"
| step: "engine_reach max_nodes id_capacity level_capacity st \<Longrightarrow>
    engine_reach max_nodes id_capacity level_capacity (snd (submit inc st))"

lemma book_init_ok:
  assumes "max_nodes * 64 < 2 ^ 32"
  shows "book_ok (book_init max_nodes ids lvls) (\<lambda>_. [])"
  using assms index_ok_init
  by (auto simp: book_ok_def book_init_def idx_ok_def lvls_ok_def pool_ok_def slab_ok_def chains_def chain_of_def index_of_def)

lemma book_init_side: "max_nodes * 64 < 2 ^ 32 \<Longrightarrow> book_side (book_init max_nodes ids lvls) = (\<lambda>_. [])"
  using book_side_fun [OF book_init_ok] by (auto simp: side_view_def)

lemma book_init_engine: "max_nodes * 64 < 2 ^ 32 \<Longrightarrow> engine_ok (book_init max_nodes ids lvls)"
proof -
  assume "max_nodes * 64 < 2 ^ 32"
  note ok = book_init_ok [OF this]
  have "settled (book_init max_nodes ids lvls) (\<lambda>_. [])" by (simp add: settled_def)
  moreover have "book_side (book_init max_nodes ids lvls) = (\<lambda>_. [])"
    using book_init_side \<open>max_nodes * 64 < 2 ^ 32\<close> by blast
  ultimately show ?thesis using ok by (auto simp: engine_ok_def book_inv_def positive_def uncrossed_def all_orders_def)
qed

lemma book_sorted: "book_inv b \<Longrightarrow> sides_sorted (book_side b)"
  by (auto simp: sides_sorted_def elim!: book_invE intro: view_sorted)

lemma submit_book:
  assumes "engine_ok b" "submit inc (b, sink) = (r, b', sink')"
  obtains evs where "spec_submit (rested r) inc (book_side b) = (r, book_side b', evs)" "sink' = sink @ evs"
    "engine_ok b'" "locators_size b' = locators_size b" "rested r \<Longrightarrow> unat (o_id inc) < locators_size b"
proof -
  obtain L where L: "book_ok b L" "settled b L" "book_side b = side_view b L"
    using assms(1) by (auto simp: engine_ok_def elim: book_invE)
  have pos: "\<forall>s. positive (book_side b s)" "uncrossed (book_side b)" "sides_sorted (book_side b)"
    using assms(1) book_sorted by (auto simp: engine_ok_def)
  from submit_ok [OF L(1,2) pos(1) [unfolded L(3)] assms(2)] obtain L' evs where
    s: "book_ok b' L'" "settled b' L'" "locators_size b' = locators_size b"
      "spec_submit (rested r) inc (side_view b L) = (r, side_view b' L', evs)" "sink' = sink @ evs"
      "rested r \<longrightarrow> unat (o_id inc) < locators_size b" by blast
  have sp: "spec_submit (rested r) inc (book_side b) = (r, book_side b', evs)"
    using s(4) L(3) book_side_fun [OF s(1)] by simp
  have "engine_ok b'"
    using spec_submit_safe [OF sp pos(1,3,2)] book_invI [OF s(1,2)] by (simp add: engine_ok_def)
  then show thesis using that [OF sp s(5)] s(3,6) by blast
qed

text \<open>An order that is matched: its fills and what they leave, with everything that follows from them.\<close>

lemma submit_matching:
  assumes "engine_ok b" "submit inc (b, sink) = (r, b', sink')" "o_type inc \<noteq> CANCEL" "is_admissible inc"
  defines "buy \<equiv> o_side inc = BUY"
  obtains q fs where
    "match_side (crosses inc buy) (o_remaining inc) (book_side b (\<not> buy)) = (q, fs, book_side b' (\<not> buy))"
    "book_side b' buy = (if rested r then enqueue (prec_of buy) (inc\<lparr>o_remaining := q\<rparr>) (book_side b buy) else book_side b buy)"
    "filled r = o_remaining inc - q" "residual r = q" "trades r = of_nat (length fs)"
    "rested r \<longrightarrow> q \<noteq> 0 \<and> o_type inc = LIMIT"
    "rejected r \<longleftrightarrow> q \<noteq> 0 \<and> o_type inc = LIMIT \<and> \<not> rested r"
    "sink' = sink @ map (fill_event inc buy) fs @ (if rejected r then [reject_event inc] else [])"
proof -
  obtain q fs opp where ms: "match_side (crosses inc buy) (o_remaining inc) (book_side b (\<not> buy)) = (q, fs, opp)"
    by (metis prod_cases3)
  from assms(1,2) obtain evs where
    sp: "spec_submit (rested r) inc (book_side b) = (r, book_side b', evs)" "sink' = sink @ evs" by (rule submit_book)
  note sm = spec_submit_matching [OF assms(3,4) ms [unfolded buy_def] sp(1), folded buy_def]
  have fields: "filled r = o_remaining inc - q" "residual r = q" "trades r = of_nat (length fs)"
    "rested r \<longrightarrow> q \<noteq> 0 \<and> o_type inc = LIMIT" "rejected r \<longleftrightarrow> q \<noteq> 0 \<and> o_type inc = LIMIT \<and> \<not> rested r"
    using arg_cong [OF sm(1), of filled] arg_cong [OF sm(1), of residual] arg_cong [OF sm(1), of trades]
      arg_cong [OF sm(1), of rested] arg_cong [OF sm(1), of rejected] by auto
  have re: "reject_event (inc\<lparr>o_remaining := q\<rparr>) = reject_event inc" by (simp add: reject_event_def)
  show thesis
    by (rule that [of q fs]) (use ms sm(2-4) fields sp(2) re in auto)
qed

lemma submit_inadmissible_result:
  assumes "o_type inc \<noteq> CANCEL" "\<not> is_admissible inc"
  shows "submit inc (b, sink) = (MatchResult_init\<lparr>residual := o_remaining inc, rejected := True\<rparr>, b, sink @ [reject_event inc])"
  using assms by (simp add: submit_def emit_reject_def MatchResult_init_def Let_def)

section \<open>Samples\<close>

definition sell5 :: Order where
  "sell5 = \<lparr>o_id = 1, o_seq = 1, o_price = 101, o_quantity = 5, o_remaining = 5, o_side = SELL, o_type = LIMIT\<rparr>"

definition buy3 :: Order where
  "buy3 = \<lparr>o_id = 2, o_seq = 2, o_price = 102, o_quantity = 3, o_remaining = 3, o_side = BUY, o_type = LIMIT\<rparr>"

definition low_bid :: Order where
  "low_bid = buy3\<lparr>o_price := 100\<rparr>"

definition market3 :: Order where
  "market3 = buy3\<lparr>o_type := MARKET\<rparr>"

definition book0 :: OrderBook where
  "book0 = book_init 4 32 8"

definition book1 :: OrderBook where
  "book1 = fst (snd (submit sell5 (book0, [])))"

lemma book0_ok: "engine_ok book0"
  by (simp add: book0_def book_init_engine)

lemma submit_engine: "engine_ok b \<Longrightarrow> engine_ok (fst (snd (submit inc (b, sink))))"
  by (metis prod.collapse submit_book)

lemma book1_ok: "engine_ok book1"
  unfolding book1_def by (rule submit_engine [OF book0_ok])

lemma samples_priced:
  "o_type sell5 \<noteq> CANCEL" "o_type buy3 \<noteq> CANCEL" "o_type low_bid \<noteq> CANCEL" "is_admissible sell5" "is_admissible buy3" "is_admissible low_bid"
  by (simp_all add: sell5_def buy3_def low_bid_def is_admissible_def is_valid_price_def MIN_VALID_PRICE_def MAX_VALID_PRICE_def)

lemma book1_sides: "book_side book1 = (\<lambda>_. [])(False := [(101, [sell5])])"
proof -
  obtain r b s where s: "submit sell5 (book0, []) = (r, b, s)" by (metis prod_cases3)
  from book0_ok s obtain evs where sp: "spec_submit (rested r) sell5 (book_side book0) = (r, book_side b, evs)" by (rule submit_book)
  have "rested (fst (submit sell5 (book0, [])))" by code_simp
  moreover have "book_side book0 = (\<lambda>_. [])" unfolding book0_def by (rule book_init_side) simp
  moreover have "o_side sell5 = SELL" "o_price sell5 = 101" "o_remaining sell5 = 5" "o_type sell5 = LIMIT"
    by (simp_all add: sell5_def)
  ultimately have "book_side b = (\<lambda>_. [])(True := [], False := [(101, [sell5\<lparr>o_remaining := 5\<rparr>])])"
    using sp s samples_priced by (auto simp: spec_submit_def Let_def)
  also have "\<dots> = (\<lambda>_. [])(False := [(101, [sell5])])" by (auto simp: sell5_def)
  finally have "book_side b = (\<lambda>_. [])(False := [(101, [sell5])])" .
  then show ?thesis using s by (simp add: book1_def)
qed

section \<open>The properties\<close>

text \<open>
  C2. From an empty book, every sequence of submissions keeps the engine's invariant: the indices,
  chains, pool and slab are consistent, no level is empty, every resting order has an open quantity,
  and the best bid stays below the best ask.
\<close>

theorem engine_reach_ok:
  assumes "engine_reach max_nodes id_capacity level_capacity (b, sink)" "max_nodes * 64 < 2 ^ 32"
  shows "engine_ok b"
proof -
  have "engine_ok (fst st)" if "engine_reach max_nodes id_capacity level_capacity st" for st
    using that
  proof induction
    case start
    then show ?case using book_init_engine assms(2) by simp
  next
    case (step st inc)
    obtain b sink where st: "st = (b, sink)" by force
    obtain r b' sink' where s: "submit inc (b, sink) = (r, b', sink')" by (metis prod_cases3)
    then show ?case using step.IH st submit_book [OF _ s] by simp
  qed
  then show ?thesis using assms(1) by force
qed

theorem engine_reach_ok_witness:
  "engine_ok (fst (snd (submit buy3 (snd (submit sell5 (book_init 65536 4194304 65536, []))))))"
proof -
  obtain b sink where s: "snd (submit buy3 (snd (submit sell5 (book_init 65536 4194304 65536, [])))) = (b, sink)" by force
  have "engine_reach 65536 4194304 65536 (b, sink)" unfolding s [symmetric] by (intro engine_reach.intros)
  from engine_reach_ok [OF this] show ?thesis by (simp add: s)
qed

text \<open>
  C1. \<open>submit\<close> refines matching on lists: the result, the two sides of the book afterwards and the
  published events are those of \<open>spec_submit\<close>, whatever nodes, slots, chains and tree the book is made of.
\<close>

theorem submit_refines:
  assumes "engine_ok b" "submit inc (b, sink) = (r, b', sink')"
  shows "\<exists>evs. spec_submit (rested r) inc (book_side b) = (r, book_side b', evs) \<and> sink' = sink @ evs"
  using assms by (auto elim: submit_book)

theorem submit_refines_witness:
  "\<exists>r b' sink'. submit buy3 (book1, []) = (r, b', sink') \<and>
     spec_submit (rested r) buy3 (book_side book1) = (r, book_side b', sink')"
proof -
  obtain r b s where "submit buy3 (book1, []) = (r, b, s)" by (metis prod_cases3)
  with submit_refines [OF book1_ok this] show ?thesis by auto
qed

text \<open>
  C4. Nothing is lost in matching: the incoming quantity is what was filled plus the residual, the
  opposite side has lost exactly what was filled, and the own side has gained the residual
  exactly when it rests. All three are equations between natural numbers: nothing wraps.
\<close>

theorem submit_conserves:
  assumes "engine_ok b" "submit inc (b, sink) = (r, b', sink')" "o_type inc \<noteq> CANCEL"
  shows "unat (o_remaining inc) = unat (filled r) + unat (residual r) \<and>
    open_qty (all_orders (book_side b (o_side inc \<noteq> BUY))) =
      open_qty (all_orders (book_side b' (o_side inc \<noteq> BUY))) + unat (filled r) \<and>
    open_qty (all_orders (book_side b' (o_side inc = BUY))) =
      open_qty (all_orders (book_side b (o_side inc = BUY))) + (if rested r then unat (residual r) else 0)"
proof (cases "is_admissible inc")
  case True
  with assms obtain q fs where
    m: "match_side (crosses inc (o_side inc = BUY)) (o_remaining inc) (book_side b (o_side inc \<noteq> BUY)) =
        (q, fs, book_side b' (o_side inc \<noteq> BUY))"
      "book_side b' (o_side inc = BUY) = (if rested r then enqueue (prec_of (o_side inc = BUY)) (inc\<lparr>o_remaining := q\<rparr>)
        (book_side b (o_side inc = BUY)) else book_side b (o_side inc = BUY))"
      "filled r = o_remaining inc - q" "residual r = q"
    by (rule submit_matching)
  note mc = match_side_conserves [OF m(1)]
  then have "unat (o_remaining inc - q) = fill_total fs" by (simp add: unat_sub word_le_nat_alt)
  then show ?thesis using mc m(2-4) by (simp add: enqueue_open_qty)
next
  case False
  then show ?thesis using submit_inadmissible_result [OF assms(3) False, of b sink] assms(2) by (auto simp: MatchResult_init_def)
qed

theorem submit_conserves_witness:
  "\<exists>r b' sink'. submit buy3 (book1, []) = (r, b', sink') \<and> 3 = unat (filled r) + unat (residual r) \<and>
     open_qty (all_orders (book_side book1 False)) = open_qty (all_orders (book_side b' False)) + unat (filled r)"
proof -
  obtain r b s where s: "submit buy3 (book1, []) = (r, b, s)" by (metis prod_cases3)
  have "o_remaining buy3 = 3" "o_side buy3 = BUY" by (simp_all add: buy3_def)
  with s submit_conserves [OF book1_ok s samples_priced(2)] show ?thesis by simp
qed

text \<open>
  C3. Strict price-time priority. The events of a submission are its fills, in order, and at most one
  rejection at the end; the fills consume the opposite side's orders from the front of the sequence
  that lists the best price first and within a price the oldest order first, each completely but
  possibly the last one, and what remains of that sequence is what rests afterwards.
\<close>

theorem submit_priority:
  assumes "engine_ok b" "submit inc (b, sink) = (r, b', sink')" "o_type inc \<noteq> CANCEL"
  shows "\<exists>fs. sink' = sink @ map (fill_event inc (o_side inc = BUY)) fs @ (if rejected r then [reject_event inc] else []) \<and>
    trades r = of_nat (length fs) \<and>
    consumes fs (all_orders (book_side b (o_side inc \<noteq> BUY))) (all_orders (book_side b' (o_side inc \<noteq> BUY)))"
proof (cases "is_admissible inc")
  case True
  with assms obtain q fs where
    m: "match_side (crosses inc (o_side inc = BUY)) (o_remaining inc) (book_side b (o_side inc \<noteq> BUY)) =
        (q, fs, book_side b' (o_side inc \<noteq> BUY))" "trades r = of_nat (length fs)"
      "sink' = sink @ map (fill_event inc (o_side inc = BUY)) fs @ (if rejected r then [reject_event inc] else [])"
    by (rule submit_matching)
  then show ?thesis using match_side_consumes [OF m(1)] by blast
next
  case False
  then show ?thesis using submit_inadmissible_result [OF assms(3) False, of b sink] assms(2)
    by (intro exI [of _ "[]"]) (auto simp: MatchResult_init_def)
qed

theorem submit_priority_witness:
  "\<exists>r b' sink' fs. submit buy3 (book1, []) = (r, b', sink') \<and> trades r = of_nat (length fs) \<and>
     consumes fs (all_orders (book_side book1 False)) (all_orders (book_side b' False))"
proof -
  obtain r b s where s: "submit buy3 (book1, []) = (r, b, s)" by (metis prod_cases3)
  have "o_side buy3 = BUY" by (simp add: buy3_def)
  with s submit_priority [OF book1_ok s samples_priced(2)] show ?thesis by auto
qed

lemma book_order_price:
  assumes "book_inv b" "(p, os) \<in> set (book_side b s)" "o' \<in> set os"
  shows "o_price o' = p" "(o_side o' = BUY) = s"
proof -
  obtain L where L: "book_ok b L" "book_side b = side_view b L" using assms(1) by (rule book_invE)
  then obtain i ns where i: "(i, ns) \<in> set (L s)" "p = n_key (index_of s b) i" "os = level_orders (nodes b) ns"
    using assms(2) by (auto simp: side_view_def level_view_def)
  then show "o_price o' = p" "(o_side o' = BUY) = s"
    using book_okD(6) [OF L(1) i(1)] assms(3) by (auto simp: level_ok_def)
qed

lemma consumes_fill_pos:
  "consumes fs os os' \<Longrightarrow> \<forall>x \<in> set os. o_remaining x \<noteq> 0 \<Longrightarrow> (m, x) \<in> set fs \<Longrightarrow> x \<noteq> 0"
  by (induction fs os os' rule: consumes.induct) (auto split: if_splits)

text \<open>
  C10. Every fill trades a non-zero quantity at the resting order's price, and that price is within the
  limit of the incoming order unless it is a market order: a buyer never pays more and a
  seller never gets less than asked for.
\<close>

theorem submit_within_limit:
  assumes "engine_ok b" "submit inc (b, sink) = (r, b', sink @ evs)" "o_type inc \<noteq> CANCEL"
    "ev \<in> set evs" "te_status ev = TRADE_STATUS_FILL"
  shows "te_quantity ev \<noteq> 0 \<and>
    (\<exists>m \<in> set (all_orders (book_side b (o_side inc \<noteq> BUY))). te_maker_id ev = o_id m \<and> te_price ev = o_price m) \<and>
    (o_type inc = MARKET \<or> (if o_side inc = BUY then te_price ev \<le> o_price inc else te_price ev \<ge> o_price inc))"
proof -
  have nrej: "ev \<noteq> reject_event inc"
    using assms(5) by (auto simp: reject_event_def TRADE_STATUS_FILL_def TRADE_STATUS_REJECTED_def)
  then have adm: "is_admissible inc"
    using submit_inadmissible_result [OF assms(3), of b sink] assms(2,4) by (cases "is_admissible inc") auto
  with assms(1-3) obtain q fs where
    m: "match_side (crosses inc (o_side inc = BUY)) (o_remaining inc) (book_side b (o_side inc \<noteq> BUY)) =
        (q, fs, book_side b' (o_side inc \<noteq> BUY))"
      "sink @ evs = sink @ map (fill_event inc (o_side inc = BUY)) fs @ (if rejected r then [reject_event inc] else [])"
    by (rule submit_matching)
  then obtain mk x where mx: "(mk, x) \<in> set fs" "ev = fill_event inc (o_side inc = BUY) (mk, x)"
    using assms(4) nrej by (auto split: if_splits)
  obtain p os where p: "(p, os) \<in> set (book_side b (o_side inc \<noteq> BUY))" "mk \<in> set os" "crosses inc (o_side inc = BUY) p"
    using match_side_crosses [OF m(1) mx(1)] by blast
  have "o_price mk = p" using book_order_price(1) [OF _ p(1,2)] assms(1) by (simp add: engine_ok_def)
  moreover have "x \<noteq> 0" using consumes_fill_pos [OF match_side_consumes [OF m(1)] _ mx(1)] assms(1)
    by (auto simp: engine_ok_def positive_def)
  moreover have "mk \<in> set (all_orders (book_side b (o_side inc \<noteq> BUY)))" using p(1,2) by (force simp: all_orders_def)
  ultimately show ?thesis using mx(2) p(3) by (auto simp: fill_event_def crosses_def split: if_splits)
qed

theorem submit_within_limit_witness:
  "\<exists>ev \<in> set (snd (snd (submit buy3 (book1, [])))). te_quantity ev \<noteq> 0 \<and> te_price ev \<le> 102"
proof -
  obtain r b where s: "submit buy3 (book1, []) = (r, b, [] @ [fill_event buy3 True (sell5, 3)])"
  proof -
    have "snd (snd (submit buy3 (book1, []))) = [fill_event buy3 True (sell5, 3)]" by code_simp
    then show thesis using that by (metis append_Nil prod.collapse)
  qed
  have "te_status (fill_event buy3 True (sell5, 3)) = TRADE_STATUS_FILL" "o_side buy3 = BUY" "o_price buy3 = 102" "o_type buy3 \<noteq> MARKET"
    by (simp_all add: fill_event_def buy3_def)
  then show ?thesis using submit_within_limit [OF book1_ok s samples_priced(2), of "fill_event buy3 True (sell5, 3)"] s
    by simp
qed

text \<open>
  C11. Matching stops only when it has to: after an admissible order has left a residual, no price that
  is left on the opposite side is marketable for it. A market order that leaves a residual has
  emptied the opposite side.
\<close>

theorem submit_exhausts:
  assumes "engine_ok b" "submit inc (b, sink) = (r, b', sink')" "o_type inc \<noteq> CANCEL" "is_admissible inc"
    "residual r \<noteq> 0" "(p, os) \<in> set (book_side b' (o_side inc \<noteq> BUY))"
  shows "o_type inc \<noteq> MARKET \<and> (if o_side inc = BUY then o_price inc < p else p < o_price inc)"
proof -
  let ?buy = "o_side inc = BUY"
  from assms(1-4) obtain q fs where
    m: "match_side (crosses inc ?buy) (o_remaining inc) (book_side b (\<not> ?buy)) = (q, fs, book_side b' (\<not> ?buy))"
      "residual r = q"
    by (rule submit_matching)
  have st: "\<not> crosses inc ?buy (fst (hd (book_side b' (\<not> ?buy))))"
    using match_side_stops [OF m(1)] assms(5,6) m(2) by auto
  from assms(1,2) have "engine_ok b'" by (rule submit_book)
  then have "sorted_wrt (prec_of (\<not> ?buy)) (map fst (book_side b' (\<not> ?buy)))"
    using book_sorted by (simp add: sides_sorted_def engine_ok_def)
  from best_first [OF this, of p] assms(6) st show ?thesis by (force simp: crosses_def prec_of_def split: if_splits)
qed

theorem submit_exhausts_witness:
  "residual (fst (submit low_bid (book1, []))) = 3 \<and>
   (\<exists>p os. (p, os) \<in> set (book_side (fst (snd (submit low_bid (book1, [])))) False) \<and> 100 < p)"
proof -
  obtain r b s where s: "submit low_bid (book1, []) = (r, b, s)" by (metis prod_cases3)
  have c: "residual (fst (submit low_bid (book1, []))) = 3" by code_simp
  have buy: "o_side low_bid = BUY" "o_price low_bid = 100" "o_type low_bid = LIMIT" by (simp_all add: low_bid_def buy3_def)
  from book1_ok s samples_priced(3,6) obtain q fs where
    "match_side (crosses low_bid (o_side low_bid = BUY)) (o_remaining low_bid) (book_side book1 (\<not> o_side low_bid = BUY)) =
       (q, fs, book_side b (\<not> o_side low_bid = BUY))"
    by (rule submit_matching)
  then have "book_side b False = [(101, [sell5])]" by (simp add: book1_sides buy crosses_def)
  then have "(101, [sell5]) \<in> set (book_side b (o_side low_bid \<noteq> BUY))" by (simp add: buy)
  with submit_exhausts [OF book1_ok s samples_priced(3,6) _ this] c s buy show ?thesis by auto
qed

text \<open>
  Only a limit order rests: whatever else is submitted (a market or immediate-or-cancel order, or
  an unknown type) leaves the own side of the book as it was.
\<close>

theorem submit_only_limit_rests:
  assumes "engine_ok b" "submit inc (b, sink) = (r, b', sink')" "o_type inc \<noteq> CANCEL" "o_type inc \<noteq> LIMIT"
  shows "\<not> rested r \<and> book_side b' (o_side inc = BUY) = book_side b (o_side inc = BUY)"
proof (cases "is_admissible inc")
  case True
  with assms(1-3) obtain q where "book_side b' (o_side inc = BUY) = (if rested r then enqueue (prec_of (o_side inc = BUY))
      (inc\<lparr>o_remaining := q\<rparr>) (book_side b (o_side inc = BUY)) else book_side b (o_side inc = BUY))"
    "rested r \<longrightarrow> q \<noteq> 0 \<and> o_type inc = LIMIT" by (rule submit_matching)
  then show ?thesis using assms(4) by auto
next
  case False
  then show ?thesis using submit_inadmissible_result [OF assms(3) False, of b sink] assms(2) by (auto simp: MatchResult_init_def)
qed

theorem submit_only_limit_rests_witness:
  "\<not> rested (fst (submit market3 (book1, []))) \<and> book_side (fst (snd (submit market3 (book1, [])))) True = book_side book1 True"
proof -
  obtain r b s where s: "submit market3 (book1, []) = (r, b, s)" by (metis prod_cases3)
  have "o_type market3 \<noteq> CANCEL" "o_type market3 \<noteq> LIMIT" "o_side market3 = BUY" by (simp_all add: market3_def buy3_def)
  then show ?thesis using submit_only_limit_rests [OF book1_ok s] s by simp
qed

text \<open>
  C30. The boundary gate: an order with a price outside the valid range (and not a market order or a
  cancel) leaves the book untouched, in every field, and publishes exactly one rejection.
\<close>

theorem submit_gate:
  assumes "o_type inc \<noteq> MARKET" "o_type inc \<noteq> CANCEL" "o_price inc < 1 \<or> o_price inc > 1048576"
  shows "submit inc (b, sink) =
    (\<lparr>filled = 0, residual = o_remaining inc, trades = 0, rested = False, rejected = True, canceled = False\<rparr>,
     b, sink @ [reject_event inc])"
  using submit_inadmissible_result [OF assms(2), of b sink] is_admissible_priced [OF assms(1,2)] assms(3)
  by (auto simp: MatchResult_init_def)

theorem submit_gate_witness:
  "submit (sell5\<lparr>o_price := 0\<rparr>) (book1, []) =
    (\<lparr>filled = 0, residual = 5, trades = 0, rested = False, rejected = True, canceled = False\<rparr>,
     book1, [reject_event (sell5\<lparr>o_price := 0\<rparr>)])"
  using submit_gate [of "sell5\<lparr>o_price := 0\<rparr>" book1 "[]"] by (simp add: sell5_def)

text \<open>
  C29. A cancel command removes exactly the named order, keeping the place of all others, and reports
  whether there was one; it publishes nothing, and on an unknown id it changes nothing at all.
\<close>

theorem submit_cancel:
  assumes "book_inv b" "o_type inc = CANCEL" "submit inc (b, sink) = (r, b', sink')"
  shows "book_side b' = (\<lambda>s. dequeue (o_id inc) (book_side b s)) \<and> sink' = sink \<and>
    (canceled r \<longleftrightarrow> o_id inc \<in> live_ids (book_side b)) \<and> (\<not> canceled r \<longrightarrow> b' = b)"
proof -
  have "r = MatchResult_init\<lparr>canceled := fst (cancel (o_id inc) b)\<rparr>" "b' = snd (cancel (o_id inc) b)" "sink' = sink"
    using assms(2,3) by (auto simp: submit_def split_beta)
  then show ?thesis using book_cancel(3-5) [OF assms(1), of "o_id inc"] by simp
qed


theorem submit_cancel_witness:
  "canceled (fst (submit (sell5\<lparr>o_type := CANCEL\<rparr>) (book1, []))) \<and>
   all_orders (book_side (fst (snd (submit (sell5\<lparr>o_type := CANCEL\<rparr>) (book1, [])))) False) = []"
proof -
  obtain r b s where s: "submit (sell5\<lparr>o_type := CANCEL\<rparr>) (book1, []) = (r, b, s)" by (metis prod_cases3)
  have c: "canceled (fst (submit (sell5\<lparr>o_type := CANCEL\<rparr>) (book1, [])))" by code_simp
  have "book_inv book1" using book1_ok by (simp add: engine_ok_def)
  from submit_cancel [OF this _ s] have b: "book_side b = (\<lambda>x. dequeue 1 (book_side book1 x))" by (simp add: sell5_def)
  have "all_orders (dequeue 1 (book_side book1 False)) = []" by (simp add: book1_sides dequeue_def sell5_def)
  then show ?thesis using c b s by simp
qed

end
