(* ===== verification/Sequencer.thy ===== *)
theory Sequencer
  imports Journaler Engine_Properties
begin

text \<open>
  The sequencer and recovery, \<^verbatim>\<open>include/titan/pipeline/sequencer.hpp\<close>. \<^verbatim>\<open>publish\<close> is in three parts:
  \<open>publish_begin\<close> stamps and journals, the attempts to hand the order to the ingress ring (in \<^verbatim>\<open>Pipeline\<close>,
  where the other side of the ring is), and \<open>publish_cadence\<close> with the flushes. \<^verbatim>\<open>publish\<close> is \<^verbatim>\<open>noexcept\<close>, so that the
  exception of a full log ends the process: the error value \<open>Inl\<close>.
\<close>

section \<open>The sequencer\<close>

record Sequencer =
  sq_next_seq :: Seq
  sq_flush_interval :: "32 word"
  sq_sync_every :: "32 word"
  sq_since_flush :: "32 word"
  sq_flush_no :: "64 word"

definition sequencer_init :: "32 word \<Rightarrow> 32 word \<Rightarrow> Sequencer" where
  "sequencer_init flush_interval sync_every =
     \<lparr>sq_next_seq = 0, sq_flush_interval = (if flush_interval \<noteq> 0 then flush_interval else 1), sq_sync_every = sync_every,
      sq_since_flush = 0, sq_flush_no = 0\<rparr>"

definition publish_begin :: "Order \<Rightarrow> Sequencer \<times> Journaler \<Rightarrow> journal_error + Order \<times> Sequencer \<times> Journaler" where
  "publish_begin o' = (\<lambda>(s, j).
     let o' = o'\<lparr>o_seq := sq_next_seq s\<rparr>;
         s = s\<lparr>sq_next_seq := sq_next_seq s + 1\<rparr>
     in case journal_append o' j of Inl e \<Rightarrow> Inl e | Inr j \<Rightarrow> Inr (o', s, j))"

definition publish_cadence :: "64 word \<Rightarrow> Sequencer \<times> Journaler \<Rightarrow> Sequencer \<times> Journaler" where
  "publish_cadence pg = (\<lambda>(s, j).
     let s = s\<lparr>sq_since_flush := sq_since_flush s + 1\<rparr> in
     if sq_since_flush s \<ge> sq_flush_interval s then
       let s = s\<lparr>sq_since_flush := 0\<rparr> in
       if sq_sync_every s \<noteq> 0 then
         let s = s\<lparr>sq_flush_no := sq_flush_no s + 1\<rparr> in
         if sq_flush_no s mod ucast (sq_sync_every s) = 0 then (s, flush_sync pg j) else (s, flush_async pg j)
       else (s, flush_async pg j)
     else (s, j))"

definition sequencer_flush :: "64 word \<Rightarrow> Sequencer \<times> Journaler \<Rightarrow> Sequencer \<times> Journaler" where
  "sequencer_flush pg = (\<lambda>(s, j). (s, flush_sync pg j))"

text \<open>What a sequence of \<^verbatim>\<open>publish\<close> calls does to the sequencer and its journal.\<close>

fun publish_all :: "64 word \<Rightarrow> Order list \<Rightarrow> Sequencer \<times> Journaler \<Rightarrow> journal_error + Sequencer \<times> Journaler" where
  "publish_all pg [] st = Inr st"
| "publish_all pg (o' # os) st =
     (case publish_begin o' st of Inl e \<Rightarrow> Inl e | Inr (o', st) \<Rightarrow> publish_all pg os (publish_cadence pg st))"

section \<open>Replay\<close>

function replay_loop :: "Journaler \<Rightarrow> Seq \<Rightarrow> nat \<Rightarrow> nat \<Rightarrow> OrderBook \<times> TradeEvent list \<Rightarrow> nat \<times> OrderBook \<times> TradeEvent list" where
  "replay_loop wal base n i st =
     (if i < n then
        if o_seq (jr_data wal i) \<noteq> base + of_nat i then (i, st)
        else replay_loop wal base n (Suc i) (snd (submit (jr_data wal i) st))
      else (i, st))"
  by pat_completeness auto
termination by (relation "measure (\<lambda>(wal, base, n, i, st). n - i)") auto

declare replay_loop.simps [simp del]

definition replay :: "Journaler \<Rightarrow> OrderBook \<times> TradeEvent list \<Rightarrow> nat \<times> OrderBook \<times> TradeEvent list" where
  "replay wal st =
     (let n = unat (journal_count wal) in
      if n = 0 then (0, st) else replay_loop wal (o_seq (journal_at wal 0)) n 0 st)"

section \<open>Stamping and write-ahead\<close>

fun stamp :: "Seq \<Rightarrow> Order list \<Rightarrow> Order list" where
  "stamp n [] = []"
| "stamp n (o' # os) = o'\<lparr>o_seq := n\<rparr> # stamp (n + 1) os"

lemma stamp_append: "stamp n (os @ os') = stamp n os @ stamp (n + of_nat (length os)) os'"
  by (induction os arbitrary: n) (simp_all add: algebra_simps)

lemma stamp_length [simp]: "length (stamp n os) = length os"
  by (induction os arbitrary: n) simp_all

lemma stamp_nth: "i < length os \<Longrightarrow> stamp n os ! i = (os ! i)\<lparr>o_seq := n + of_nat i\<rparr>"
  by (induction os arbitrary: n i) (auto simp: nth_Cons' algebra_simps of_nat_diff split: nat.splits)

lemma flush_frame [frame, simp]:
  "wal_records (flush_sync pg j) = wal_records j" "wal_records (flush_async pg j) = wal_records j"
  "journal_count (flush_sync pg j) = journal_count j" "journal_count (flush_async pg j) = journal_count j"
  "jr_capacity (flush_sync pg j) = jr_capacity j" "jr_capacity (flush_async pg j) = jr_capacity j"
  "jr_map_bytes (flush_sync pg j) = jr_map_bytes j" "jr_map_bytes (flush_async pg j) = jr_map_bytes j"
  "journal_ok j \<Longrightarrow> journal_ok (flush_sync pg j)" "journal_ok j \<Longrightarrow> journal_ok (flush_async pg j)"
  by (simp_all add: flush_sync_def flush_async_def sync_dirty_ok)

lemma publish_cadence_frame:
  assumes "publish_cadence pg (s, j) = (s', j')"
  shows "wal_records j' = wal_records j" "journal_count j' = journal_count j" "jr_capacity j' = jr_capacity j"
    "jr_map_bytes j' = jr_map_bytes j" "journal_ok j \<Longrightarrow> journal_ok j'" "sq_next_seq s' = sq_next_seq s"
    "sq_flush_interval s' = sq_flush_interval s" "sq_sync_every s' = sq_sync_every s"
  using assms by (auto simp: publish_cadence_def Let_def split: if_splits)

text \<open>One call: the record is in the log, stamped with the next number, before anything else happens.\<close>

lemma publish_begin_cases:
  assumes "journal_ok j"
  shows "case publish_begin o' (s, j) of
     Inl e \<Rightarrow> e = WAL_FULL \<and> journal_count j = jr_capacity j
   | Inr (o2, s', j') \<Rightarrow> o2 = o'\<lparr>o_seq := sq_next_seq s\<rparr> \<and> s' = s\<lparr>sq_next_seq := sq_next_seq s + 1\<rparr> \<and> journal_ok j' \<and>
       wal_records j' = wal_records j @ [o2] \<and> unat (journal_count j') = Suc (unat (journal_count j)) \<and>
       jr_capacity j' = jr_capacity j \<and> jr_map_bytes j' = jr_map_bytes j \<and> jr_synced_count j' = jr_synced_count j \<and>
       jr_msync j' = jr_msync j"
  using journal_append_cases [OF assms, of "o'\<lparr>o_seq := sq_next_seq s\<rparr>"]
  by (auto simp: publish_begin_def Let_def split: sum.splits)

lemma publish_all_result:
  assumes "journal_ok j"
  shows "case publish_all pg os (s, j) of
     Inl e \<Rightarrow> e = WAL_FULL \<and> unat (jr_capacity j) < unat (journal_count j) + length os
   | Inr (s', j') \<Rightarrow> journal_ok j' \<and> wal_records j' = wal_records j @ stamp (sq_next_seq s) os \<and>
       sq_next_seq s' = sq_next_seq s + of_nat (length os) \<and> jr_capacity j' = jr_capacity j \<and>
       unat (journal_count j') = unat (journal_count j) + length os"
  using assms
proof (induction os arbitrary: s j)
  case (Cons o' os)
  note c = publish_begin_cases [OF Cons.prems, of s o']
  show ?case
  proof (cases "publish_begin o' (s, j)")
    case (Inr x)
    then obtain o2 s1 j1 where x: "publish_begin o' (s, j) = Inr (o2, s1, j1)" by (cases x) auto
    obtain s2 j2 where k: "publish_cadence pg (s1, j1) = (s2, j2)" by force
    note f = publish_cadence_frame [OF k]
    show ?thesis using c x k f Cons.IH [of j2 s2] by (auto simp: algebra_simps split: sum.splits)
  qed (use c in auto)
qed simp

section \<open>Recovery\<close>

definition run_submits :: "Order list \<Rightarrow> OrderBook \<times> TradeEvent list \<Rightarrow> OrderBook \<times> TradeEvent list" where
  "run_submits os st = fold (\<lambda>o' st. snd (submit o' st)) os st"

lemma run_submits_simps [simp]:
  "run_submits [] st = st" "run_submits (o' # os) st = run_submits os (snd (submit o' st))"
  "run_submits (os @ os') st = run_submits os' (run_submits os st)"
  by (simp_all add: run_submits_def)

lemma replay_loop_spec:
  assumes "i \<le> m" "m \<le> n" "\<And>k. i \<le> k \<Longrightarrow> k < m \<Longrightarrow> o_seq (jr_data wal k) = base + of_nat k"
    "m < n \<Longrightarrow> o_seq (jr_data wal m) \<noteq> base + of_nat m"
  shows "replay_loop wal base n i st = (m, run_submits (map (jr_data wal) [i..<m]) st)"
  using assms
proof (induction "m - i" arbitrary: i st)
  case 0
  then have "m = i" by simp
  with 0 show ?case by (subst replay_loop.simps) auto
next
  case (Suc d)
  then have i: "i < m" by simp
  have "replay_loop wal base n i st = replay_loop wal base n (Suc i) (snd (submit (jr_data wal i) st))"
    using Suc.prems(2,3) i by (subst replay_loop.simps) simp
  also have "\<dots> = (m, run_submits (map (jr_data wal) [Suc i..<m]) (snd (submit (jr_data wal i) st)))"
    using Suc.hyps i Suc.prems by (intro Suc.hyps(1)) auto
  finally show ?case using i by (simp add: upt_conv_Cons)
qed

lemma replay_spec:
  assumes "m \<le> unat (journal_count wal)" "0 < m" "\<And>k. k < m \<Longrightarrow> o_seq (jr_data wal k) = o_seq (jr_data wal 0) + of_nat k"
    "m < unat (journal_count wal) \<Longrightarrow> o_seq (jr_data wal m) \<noteq> o_seq (jr_data wal 0) + of_nat m"
  shows "replay wal st = (m, run_submits (map (jr_data wal) [0..<m]) st)"
proof -
  have "replay_loop wal (o_seq (jr_data wal 0)) (unat (journal_count wal)) 0 st = (m, run_submits (map (jr_data wal) [0..<m]) st)"
  proof (rule replay_loop_spec [OF le0 assms(1)])
    show "o_seq (jr_data wal k) = o_seq (jr_data wal 0) + of_nat k" if "k < m" for k by (rule assms(3) [OF that])
  qed (rule assms(4))
  then show ?thesis using assms(1,2) by (simp add: replay_def journal_at_def)
qed

lemma sequencer_init_seq [simp]: "sq_next_seq (sequencer_init f e) = 0"
  by (simp add: sequencer_init_def)

lemma publish_fresh:
  assumes "64 + unat cap * 40 < 2 ^ 64"
  shows "case publish_all pg os (sequencer_init flush_interval sync_every, fresh_wal cap) of
     Inl e \<Rightarrow> e = WAL_FULL \<and> unat cap < length os
   | Inr (s, j) \<Rightarrow> length os \<le> unat cap \<and> wal_records j = stamp 0 os \<and> sq_next_seq s = of_nat (length os) \<and>
       unat (journal_count j) = length os"
  using publish_all_result [OF fresh_wal_ok [OF assms], where pg = pg and os = os and s = "sequencer_init flush_interval sync_every"]
  by (auto simp: journal_ok_def word_le_nat_alt split: sum.splits)

text \<open>
  The log is written ahead and in order: publishing orders from a new sequencer into a new log either fails
  with a full log, exactly when there are more orders than the capacity, or leaves in the log exactly those
  orders, stamped with the sequence numbers 0, 1, 2 and so on.
\<close>

theorem publish_write_ahead:
  assumes "64 + unat cap * 40 < 2 ^ 64"
  shows "case publish_all pg os (sequencer_init flush_interval sync_every, fresh_wal cap) of
     Inl e \<Rightarrow> e = WAL_FULL \<and> unat cap < length os
   | Inr (s, j) \<Rightarrow> length os \<le> unat cap \<and> wal_records j = stamp 0 os \<and> sq_next_seq s = of_nat (length os) \<and>
       unat (journal_count j) = length os"
  by (rule publish_fresh [OF assms])

theorem publish_write_ahead_witness:
  "case publish_all 4096 [sell5, buy3] (sequencer_init 1024 64, fresh_wal 4) of
     Inl e \<Rightarrow> False | Inr (s, j) \<Rightarrow> wal_records j = [sell5\<lparr>o_seq := 0\<rparr>, buy3\<lparr>o_seq := 1\<rparr>]"
  using publish_write_ahead [where cap = 4 and pg = 4096 and os = "[sell5, buy3]" and flush_interval = 1024 and sync_every = 64] by (auto split: sum.splits)

text \<open>The number of the first record is taken from the record itself, so that the test of \<open>replay\<close> never fails for it.\<close>

lemma replay_first:
  assumes "0 < unat (journal_count wal)"
  shows "\<exists>k. k < unat (journal_count wal) \<and> replay wal st = (Suc k, run_submits (map (jr_data wal) [1..<Suc k]) (snd (submit (jr_data wal 0) st)))"
proof -
  let ?n = "unat (journal_count wal)" and ?ok = "\<lambda>k. o_seq (jr_data wal k) = o_seq (jr_data wal 0) + of_nat k"
  define m where "m = (LEAST m. m = ?n \<or> \<not> ?ok m)"
  have m: "m = ?n \<or> \<not> ?ok m" unfolding m_def by (rule LeastI [of _ ?n]) simp
  have le: "m \<le> ?n" unfolding m_def by (rule Least_le) simp
  have ok: "?ok k" if "k < m" for k using not_less_Least [of k "\<lambda>m. m = ?n \<or> \<not> ?ok m"] that unfolding m_def by blast
  have "0 < m" using m assms by (cases m) auto
  then obtain k where k: "m = Suc k" by (cases m) auto
  have "replay wal st = (m, run_submits (map (jr_data wal) [0..<m]) st)"
  proof (rule replay_spec [OF le \<open>0 < m\<close>])
    show "?ok k" if "k < m" for k by (rule ok [OF that])
    show "\<not> ?ok m" if "m < ?n" using m that by blast
  qed
  moreover have "[0..<m] = 0 # [1..<Suc k]" unfolding k by (simp only: upt_conv_Cons zero_less_Suc One_nat_def)
  ultimately have "replay wal st = (Suc k, run_submits (map (jr_data wal) [1..<Suc k]) (snd (submit (jr_data wal 0) st)))"
    unfolding k by (simp only: list.map run_submits_simps(2))
  moreover have "k < ?n" using le k by linarith
  ultimately show ?thesis by blast
qed

text \<open>
  C9. Recovery rebuilds the engine, from the second record on. After \<open>os\<close> were published, let a log \<open>wal\<close> of the same count be found that holds
  the first \<open>m\<close> records as they were written and whose record \<open>m\<close>, if there is one, is torn: it does not
  carry its sequence number. If \<open>m\<close> is not 0, \<open>replay\<close> submits exactly these \<open>m\<close> records and gives the book and the events of the matcher that
  was fed with the first \<open>m\<close> published orders; for an undamaged log \<open>m\<close> is the number of all records. The first record is not protected: whatever it holds, \<open>replay\<close>
  submits it and counts it, so that with \<open>m = 0\<close> a torn order enters the book.
\<close>

theorem replay_recovers:
  assumes "64 + unat cap * 40 < 2 ^ 64" "publish_all pg os (sequencer_init flush_interval sync_every, fresh_wal cap) = Inr (s, j)"
    "journal_count wal = journal_count j" "take m (wal_records wal) = take m (wal_records j)"
    "m \<le> length os" "m < length os \<Longrightarrow> o_seq (jr_data wal m) \<noteq> of_nat m"
  shows "(0 < m \<longrightarrow> replay wal st = (m, run_submits (take m (stamp 0 os)) st)) \<and>
    (os \<noteq> [] \<longrightarrow> (\<exists>k. k < length os \<and> replay wal st = (Suc k, run_submits (map (jr_data wal) [1..<Suc k]) (snd (submit (jr_data wal 0) st)))))"
proof -
  have p: "wal_records j = stamp 0 os" "unat (journal_count wal) = length os"
    using publish_fresh [OF assms(1), where pg = pg and os = os and flush_interval = flush_interval and sync_every = sync_every] assms(2,3) by auto
  have recs: "map (jr_data wal) [0..<m] = take m (stamp 0 os)"
    using assms(5) p(2) unfolding p(1) [symmetric] assms(4) [symmetric] by (simp add: wal_records_def take_map)
  then have d: "jr_data wal k = stamp 0 os ! k" if "k < m" for k
    using that assms(5) nth_map_upt [of k m 0 "jr_data wal"] unfolding recs by simp
  then have "o_seq (jr_data wal k) = of_nat k" if "k < m" for k using that assms(5) by (simp add: stamp_nth)
  then have "replay wal st = (m, run_submits (take m (stamp 0 os)) st)" if "0 < m" using replay_spec [of m wal st] that assms(5,6) p(2) recs by auto
  then show ?thesis using replay_first [of wal st] p(2) by auto
qed

text \<open>A log of two records of which the second is found zeroed.\<close>

theorem replay_recovers_witness:
  "\<exists>s j. publish_all 4096 [sell5, buy3] (sequencer_init 1024 64, fresh_wal 4) = Inr (s, j) \<and>
     replay (j\<lparr>jr_data := (jr_data j)(1 := zero_order)\<rparr>) (book0, []) = (1, snd (submit (sell5\<lparr>o_seq := 0\<rparr>) (book0, [])))"
proof -
  let ?os = "[sell5, buy3]"
  have c: "case publish_all 4096 ?os (sequencer_init 1024 64, fresh_wal 4) of Inl e \<Rightarrow> e = WAL_FULL \<and> unat (4 :: 64 word) < length ?os
     | Inr (s, j) \<Rightarrow> length ?os \<le> unat (4 :: 64 word) \<and> wal_records j = stamp 0 ?os \<and> sq_next_seq s = of_nat (length ?os) \<and> unat (journal_count j) = length ?os"
    by (rule publish_fresh) simp
  then obtain s j where p: "publish_all 4096 ?os (sequencer_init 1024 64, fresh_wal 4) = Inr (s, j)" "unat (journal_count j) = 2"
    by (auto split: sum.splits)
  let ?wal = "j\<lparr>jr_data := (jr_data j)(1 := zero_order)\<rparr>"
  have "journal_count ?wal = journal_count j" by (simp add: journal_count_def)
  moreover have "take 1 (wal_records ?wal) = take 1 (wal_records j)" using p(2) by (simp add: wal_records_def journal_count_def upt_rec)
  moreover have "o_seq (jr_data ?wal 1) \<noteq> of_nat 1" by (simp add: zero_order_def)
  ultimately have "replay ?wal (book0, []) = (1, run_submits (take 1 (stamp 0 ?os)) (book0, []))"
    using replay_recovers [OF _ p(1), of ?wal 1 "(book0, [])"] by simp
  then show ?thesis using p(1) by (intro exI [of _ s] exI [of _ j]) simp
qed

end
