(* ===== verification/Ring_Queue.thy ===== *)
theory Ring_Queue
  imports Domain_Types
begin

text \<open>
  The interface that the stages of the pipeline use of a ring: push one item unless it is full, and
  take out all items that are there. The laws are those of a bounded FIFO queue, and what they give
  for whole runs is proved here once for all rings.
\<close>

datatype 'a ring_op = Push 'a | Drain

locale bounded_queue =
  fixes inv :: "'r \<Rightarrow> bool" and contents :: "'r \<Rightarrow> 'a list" and cap :: nat
    and push :: "'a \<Rightarrow> 'r \<Rightarrow> bool \<times> 'r" and drain :: "'r \<Rightarrow> 'a list \<times> 'r"
  assumes cap_pos: "0 < cap"
    and push_inv: "inv r \<Longrightarrow> inv (snd (push x r))"
    and push_accepts: "inv r \<Longrightarrow> fst (push x r) \<longleftrightarrow> length (contents r) < cap"
    and push_contents: "inv r \<Longrightarrow> contents (snd (push x r)) = (if fst (push x r) then contents r @ [x] else contents r)"
    and drain_inv: "inv r \<Longrightarrow> inv (snd (drain r))"
    and drain_all: "inv r \<Longrightarrow> fst (drain r) = contents r \<and> contents (snd (drain r)) = []"
begin

text \<open>A run of a ring: what was accepted, what came out, and the ring at the end.\<close>

fun run_ops :: "'a ring_op list \<Rightarrow> 'r \<Rightarrow> 'a list \<times> 'a list \<times> 'r" where
  "run_ops [] r = ([], [], r)"
| "run_ops (Push x # ops) r =
     (let (ok, r') = push x r; (acc, out, r'') = run_ops ops r' in ((if ok then [x] else []) @ acc, out, r''))"
| "run_ops (Drain # ops) r =
     (let (xs, r') = drain r; (acc, out, r'') = run_ops ops r' in (acc, xs @ out, r''))"

lemma run_fifo:
  assumes "inv r" "run_ops ops r = (acc, out, r')"
  shows "inv r' \<and> contents r @ acc = out @ contents r'"
  using assms
proof (induction ops arbitrary: r acc out)
  case (Cons op ops)
  show ?case
  proof (cases op)
    case (Push x)
    obtain ok r1 where p: "push x r = (ok, r1)" by force
    obtain acc1 where a: "run_ops ops r1 = (acc1, out, r')" "acc = (if ok then [x] else []) @ acc1"
      using Cons.prems(2) Push p by (auto split: prod.splits)
    have "inv r1" "contents r1 = (if ok then contents r @ [x] else contents r)"
      using push_inv [OF Cons.prems(1), of x] push_contents [OF Cons.prems(1), of x] p by auto
    with Cons.IH [OF _ a(1)] a(2) show ?thesis by auto
  next
    case Drain
    obtain xs r1 where d: "drain r = (xs, r1)" by force
    obtain out1 where a: "run_ops ops r1 = (acc, out1, r')" "out = xs @ out1"
      using Cons.prems(2) Drain d by (auto split: prod.splits)
    have "inv r1" "xs = contents r" "contents r1 = []"
      using drain_inv [OF Cons.prems(1)] drain_all [OF Cons.prems(1)] d by auto
    with Cons.IH [OF _ a(1)] a(2) show ?thesis by auto
  qed
qed simp

text \<open>
  A producer that spins until its item is taken, with a consumer that drains: what the consumer
  gets meanwhile, and the ring with the item in it.
\<close>

definition push_spin :: "'a \<Rightarrow> 'r \<Rightarrow> 'a list \<times> 'r" where
  "push_spin x r = (let (ok, r') = push x r in
     if ok then ([], r') else let (xs, r'') = drain r' in (xs, snd (push x r'')))"

lemma push_spin_law:
  assumes "inv r" "push_spin x r = (xs, r')"
  shows "inv r'" "xs @ contents r' = contents r @ [x]"
proof -
  obtain ok r1 where p: "push x r = (ok, r1)" by force
  note l = push_inv [OF assms(1), of x] push_contents [OF assms(1), of x]
  obtain ys r2 where d: "drain r1 = (ys, r2)" by force
  have i2: "inv r2" "ys = contents r1" "contents r2 = []" using drain_inv drain_all d l(1) p by fastforce+
  have "fst (push x r2)" using push_accepts [OF i2(1)] i2(3) cap_pos by simp
  then have "inv (snd (push x r2))" "contents (snd (push x r2)) = [x]"
    using push_inv [OF i2(1)] push_contents [OF i2(1)] i2(3) by auto
  then show "inv r'" "xs @ contents r' = contents r @ [x]"
    using assms(2) p d l i2 by (auto simp: push_spin_def split: if_splits)
qed

fun feed :: "'a list \<Rightarrow> 'r \<Rightarrow> 'a list \<times> 'r" where
  "feed [] r = drain r"
| "feed (x # xs) r = (let (out, r') = push_spin x r; (out', r'') = feed xs r' in (out @ out', r''))"

lemma feed_delivers: "inv r \<Longrightarrow> fst (feed xs r) = contents r @ xs \<and> inv (snd (feed xs r)) \<and> contents (snd (feed xs r)) = []"
proof (induction xs arbitrary: r)
  case Nil
  then show ?case using drain_all drain_inv by simp
next
  case (Cons x xs)
  obtain out r1 where p: "push_spin x r = (out, r1)" by force
  note l = push_spin_law [OF Cons.prems p]
  obtain out2 r2 where f: "feed xs r1 = (out2, r2)" by force
  show ?case using Cons.IH [OF l(1)] l(2) p f by auto
qed

end

end
