(* ===== verification/Spsc_Ring.thy ===== *)
theory Spsc_Ring
  imports Ring_Queue
begin

text \<open>
  The single-producer single-consumer ring, \<^verbatim>\<open>include/titan/pipeline/spsc_ring.hpp\<close>, over any payload.
  The cursors are 64-bit words and wrap; \<open>Size\<close> is \<open>2 ^ k\<close>. Each operation of one thread takes effect
  with its one release-store, and everything it does before is on slots the other
  side does not touch, so that an operation is one step here; the private copies of the other side's
  cursor, which may be out of date, are part of the state.
\<close>

section \<open>The ring\<close>

record 'a SpscRing =
  sp_slots :: "nat \<Rightarrow> 'a"
  sp_cursor :: "64 word"
  sp_cached_consumer :: "64 word"
  sp_next :: "64 word"
  sp_cached_cursor :: "64 word"

definition ring_slot :: "nat \<Rightarrow> 64 word \<Rightarrow> nat" where
  "ring_slot k seq = unat (seq AND (2 ^ k - 1))"

definition spsc_init :: "'a \<Rightarrow> 'a SpscRing" where
  "spsc_init z = \<lparr>sp_slots = (\<lambda>_. z), sp_cursor = 0, sp_cached_consumer = 0, sp_next = 0, sp_cached_cursor = 0\<rparr>"

definition spsc_try_publish :: "nat \<Rightarrow> 'a \<Rightarrow> 'a SpscRing \<Rightarrow> bool \<times> 'a SpscRing" where
  "spsc_try_publish k item r =
     (let seq = sp_cursor r;
          put = (\<lambda>r. (True, r\<lparr>sp_slots := (sp_slots r)(ring_slot k seq := item), sp_cursor := seq + 1\<rparr>)) in
      if seq - sp_cached_consumer r \<ge> 2 ^ k then
        let r = r\<lparr>sp_cached_consumer := sp_next r\<rparr> in
        if seq - sp_cached_consumer r \<ge> 2 ^ k then (False, r) else put r
      else put r)"

text \<open>
  One round of the outer loop of \<^verbatim>\<open>publish_batch\<close>: the inner loop refreshes the copy of the consumer's
  sequence while the ring is full; here a full ring ends the round with nothing taken, and the next
  round looks again.
\<close>

definition spsc_refresh :: "nat \<Rightarrow> 'a SpscRing \<Rightarrow> 'a SpscRing" where
  "spsc_refresh k r = (if sp_cursor r - sp_cached_consumer r \<ge> 2 ^ k then r\<lparr>sp_cached_consumer := sp_next r\<rparr> else r)"

definition spsc_write_wave :: "nat \<Rightarrow> 'a list \<Rightarrow> 'a SpscRing \<Rightarrow> nat \<times> 'a SpscRing" where
  "spsc_write_wave k items r =
     (let seq = sp_cursor r;
          inflight = seq - sp_cached_consumer r;
          freeslots = unat (2 ^ k - inflight);
          remain = length items;
          tk = (if remain < freeslots then remain else freeslots);
          base = ring_slot k seq;
          fst_n = (if base + tk \<le> 2 ^ k then tk else 2 ^ k - base);
          s = fold (\<lambda>i s. s(base + i := items ! i)) [0..<fst_n] (sp_slots r);
          s = fold (\<lambda>i s. s(i - fst_n := items ! i)) [fst_n..<tk] s
      in (tk, r\<lparr>sp_slots := s, sp_cursor := seq + of_nat tk\<rparr>))"

definition spsc_publish_wave :: "nat \<Rightarrow> 'a list \<Rightarrow> 'a SpscRing \<Rightarrow> nat \<times> 'a SpscRing" where
  "spsc_publish_wave k items r =
     (let r = spsc_refresh k r in
      if sp_cursor r - sp_cached_consumer r \<ge> 2 ^ k then (0, r) else spsc_write_wave k items r)"

definition spsc_try_consume :: "nat \<Rightarrow> 'a SpscRing \<Rightarrow> 'a option \<times> 'a SpscRing" where
  "spsc_try_consume k r =
     (let seq = sp_next r;
          get = (\<lambda>r. (Some (sp_slots r (ring_slot k seq)), r\<lparr>sp_next := seq + 1\<rparr>)) in
      if seq \<ge> sp_cached_cursor r then
        let r = r\<lparr>sp_cached_cursor := sp_cursor r\<rparr> in
        if seq \<ge> sp_cached_cursor r then (None, r) else get r
      else get r)"

text \<open>\<^verbatim>\<open>consume_batch\<close>, with the handler's arguments collected in a list.\<close>

definition spsc_consume_batch :: "nat \<Rightarrow> 'a SpscRing \<Rightarrow> 'a list \<times> 'a SpscRing" where
  "spsc_consume_batch k r =
     (let start = sp_next r; avail = sp_cursor r in
      if start = avail then ([], r)
      else
        let step = (\<lambda>(seq, out). (seq + 1, out @ [sp_slots r (ring_slot k seq)]));
            (seq, out) = while (\<lambda>(seq, out). seq \<noteq> avail) step (step (start, []))
        in (out, r\<lparr>sp_cached_cursor := avail, sp_next := seq\<rparr>))"

definition spsc_size_approx :: "'a SpscRing \<Rightarrow> 64 word" where
  "spsc_size_approx r = sp_cursor r - sp_next r"

definition spsc_empty_approx :: "'a SpscRing \<Rightarrow> bool" where
  "spsc_empty_approx r \<longleftrightarrow> spsc_size_approx r = 0"

section \<open>Its contents\<close>

definition ring_window :: "nat \<Rightarrow> (nat \<Rightarrow> 'a) \<Rightarrow> 64 word \<Rightarrow> nat \<Rightarrow> 'a list" where
  "ring_window k s start n = map (\<lambda>i. s (ring_slot k (start + of_nat i))) [0..<n]"

definition spsc_contents :: "nat \<Rightarrow> 'a SpscRing \<Rightarrow> 'a list" where
  "spsc_contents k r = ring_window k (sp_slots r) (sp_next r) (unat (sp_cursor r - sp_next r))"

definition spsc_ok :: "nat \<Rightarrow> 'a SpscRing \<Rightarrow> bool" where
  "spsc_ok k r \<longleftrightarrow> 0 < k \<and> k < 64 \<and> unat (sp_cursor r - sp_next r) \<le> unat (sp_cursor r - sp_cached_consumer r) \<and>
     unat (sp_cursor r - sp_cached_consumer r) \<le> 2 ^ k"

lemma ring_slot_mod: "ring_slot k seq = unat seq mod 2 ^ k"
proof -
  have "seq AND (2 ^ k - 1) = take_bit k seq" by (simp only: take_bit_eq_mask mask_eq_exp_minus_1)
  then have "ring_slot k seq = take_bit k (unat seq)" by (simp only: ring_slot_def unsigned_take_bit_eq)
  then show ?thesis by (simp only: take_bit_eq_mod)
qed

lemma ring_slot_add:
  assumes "k < 64"
  shows "ring_slot k (seq + of_nat i) = (ring_slot k seq + i) mod 2 ^ k"
proof -
  have d: "2 ^ k dvd (2 ^ 64 :: nat)" using le_imp_power_dvd [of k 64 2] assms by simp
  have "unat (seq + of_nat i) = (unat seq + i mod 2 ^ 64) mod 2 ^ 64"
    by (simp add: unat_word_ariths unat_of_nat take_bit_eq_mod)
  then have "unat (seq + of_nat i) mod 2 ^ k = (unat seq + i) mod 2 ^ k"
    by (simp only: mod_mod_cancel [OF d] mod_add_right_eq)
  then show ?thesis by (simp only: ring_slot_mod mod_add_left_eq)
qed

lemma mod_window_inj:
  assumes "(a + i) mod n = (a + j) mod n" "i < n" "j < (n :: nat)"
  shows "i = j"
proof (rule ccontr)
  assume "i \<noteq> j"
  then consider "i < j" | "j < i" by linarith
  then show False
  proof cases
    case 1
    then have "n dvd (a + j) - (a + i)" using assms(1) mod_eq_dvd_iff_nat [of "a + i" "a + j" n] by simp
    then show False using 1 assms(3) by (simp add: nat_dvd_not_less)
  next
    case 2
    then have "n dvd (a + i) - (a + j)" using assms(1) mod_eq_dvd_iff_nat [of "a + j" "a + i" n] by simp
    then show False using 2 assms(2) by (simp add: nat_dvd_not_less)
  qed
qed

lemma ring_slot_inj:
  assumes "k < 64" "i < 2 ^ k" "j < 2 ^ k" "ring_slot k (seq + of_nat i) = ring_slot k (seq + of_nat j)"
  shows "i = j"
  using mod_window_inj [OF _ assms(2,3)] assms(4) unfolding ring_slot_add [OF assms(1)] .

lemma pow_word: "k < 64 \<Longrightarrow> unat (2 ^ k :: 64 word) = 2 ^ k"
proof -
  assume "k < 64"
  then have "(2 :: nat) ^ k < 2 ^ 64" by (rule power_strict_increasing) simp
  then have "unat (of_nat (2 ^ k) :: 64 word) = 2 ^ k"
    by (simp add: unat_of_nat take_bit_nat_eq_self del: of_nat_power)
  then show ?thesis by simp
qed

lemma window_put:
  assumes "k < 64" "n < 2 ^ k"
  shows "ring_window k (s(ring_slot k (st + of_nat n) := x)) st (Suc n) = ring_window k s st n @ [x]"
proof -
  have "ring_slot k (st + of_nat i) \<noteq> ring_slot k (st + of_nat n)" if "i < n" for i
    using ring_slot_inj [OF assms(1) _ assms(2), of i st] that assms(2) by auto
  then show ?thesis by (auto simp: ring_window_def)
qed

lemma window_put_many:
  assumes "k < 64" "n + m \<le> 2 ^ k" "m \<le> length xs"
  shows "ring_window k (fold (\<lambda>i s. s(ring_slot k (st + of_nat (n + i)) := xs ! i)) [0..<m] s) st (n + m) =
    ring_window k s st n @ take m xs"
  using assms(2,3)
proof (induction m)
  case (Suc m)
  then have "n + m < 2 ^ k" by simp
  from window_put [OF assms(1) this, of _ st "xs ! m"] Suc show ?case
    by (simp add: take_Suc_conv_app_nth del: fun_upd_apply of_nat_add)
qed (simp add: ring_window_def)

lemma window_drop: "ring_window k s st (Suc n) = s (ring_slot k st) # ring_window k s (st + 1) n"
proof -
  have "[0..<Suc n] = 0 # map Suc [0..<n]" by (simp only: map_Suc_upt upt_conv_Cons zero_less_Suc)
  then show ?thesis by (simp add: ring_window_def comp_def add.assoc)
qed

lemma length_window [simp]: "length (ring_window k s st n) = n"
  by (simp add: ring_window_def)

text \<open>Advancing a cursor by \<open>m\<close> over a distance that stays within 64 bits.\<close>

lemma advance:
  fixes c :: "64 word"
  assumes "unat (c - n) + m \<le> 2 ^ k" "k < 64"
  shows "unat (c + of_nat m - n) = unat (c - n) + m"
proof -
  have "(2 :: nat) ^ k < 2 ^ 64" using assms(2) by (rule power_strict_increasing) simp
  then have "unat (c - n) + m < 2 ^ 64" using assms(1) by linarith
  then have "unat ((c - n) + of_nat m) = unat (c - n) + m"
    by (simp add: unat_word_ariths unat_of_nat take_bit_eq_mod)
  then show ?thesis by (simp add: algebra_simps)
qed

lemma full_test: "k < 64 \<Longrightarrow> (w :: 64 word) \<ge> 2 ^ k \<longleftrightarrow> unat w \<ge> 2 ^ k"
  using pow_word [of k] by (simp add: word_le_nat_alt)

section \<open>The operations refine a queue\<close>

definition spsc_put :: "nat \<Rightarrow> 'a \<Rightarrow> 'a SpscRing \<Rightarrow> 'a SpscRing" where
  "spsc_put k item r = r\<lparr>sp_slots := (sp_slots r)(ring_slot k (sp_cursor r) := item), sp_cursor := sp_cursor r + 1\<rparr>"

lemma spsc_put_ok:
  assumes "spsc_ok k r" "unat (sp_cursor r - sp_cached_consumer r) < 2 ^ k"
  shows "spsc_ok k (spsc_put k x r)" "spsc_contents k (spsc_put k x r) = spsc_contents k r @ [x]"
proof -
  let ?n = "unat (sp_cursor r - sp_next r)"
  have n: "?n < 2 ^ k" "k < 64" using assms by (auto simp: spsc_ok_def)
  have a: "unat (sp_cursor r + 1 - sp_next r) = ?n + 1"
    "unat (sp_cursor r + 1 - sp_cached_consumer r) = unat (sp_cursor r - sp_cached_consumer r) + 1"
    using advance [of "sp_cursor r" _ 1 k] n assms(2) by auto
  show "spsc_ok k (spsc_put k x r)" using assms a by (simp add: spsc_ok_def spsc_put_def)
  have "sp_cursor r = sp_next r + of_nat ?n" by simp
  then show "spsc_contents k (spsc_put k x r) = spsc_contents k r @ [x]"
    using window_put [OF n(2,1), of "sp_slots r" "sp_next r" x] a(1) by (simp add: spsc_contents_def spsc_put_def)
qed

lemma spsc_publish:
  fixes x :: 'a
  assumes "spsc_ok k r"
  defines "res \<equiv> spsc_try_publish k x r"
  shows "spsc_ok k (snd res)" "fst res \<longleftrightarrow> length (spsc_contents k r) < 2 ^ k"
    "spsc_contents k (snd res) = (if fst res then spsc_contents k r @ [x] else spsc_contents k r)"
proof -
  let ?n = "unat (sp_cursor r - sp_next r)" and ?c = "unat (sp_cursor r - sp_cached_consumer r)"
  let ?r' = "r\<lparr>sp_cached_consumer := sp_next r\<rparr>"
  have k: "k < 64" "?n \<le> ?c" "?c \<le> 2 ^ k" using assms(1) by (auto simp: spsc_ok_def)
  have r': "spsc_ok k ?r'" "spsc_contents k ?r' = spsc_contents k r" using assms(1) k by (auto simp: spsc_ok_def spsc_contents_def)
  have len: "length (spsc_contents k r) = ?n" by (simp add: spsc_contents_def)
  have res: "res = (if ?c \<ge> 2 ^ k then if ?n \<ge> 2 ^ k then (False, ?r') else (True, spsc_put k x ?r')
      else (True, spsc_put k x r))"
    using full_test [OF k(1)] by (simp add: res_def spsc_try_publish_def Let_def spsc_put_def)
  show "spsc_ok k (snd res)" "fst res \<longleftrightarrow> length (spsc_contents k r) < 2 ^ k"
    "spsc_contents k (snd res) = (if fst res then spsc_contents k r @ [x] else spsc_contents k r)"
    using res r' k len spsc_put_ok [OF assms(1), of x] spsc_put_ok [OF r'(1), of x] by auto
qed

lemma batch_loop:
  fixes s :: "nat \<Rightarrow> 'a" and k :: nat
  assumes "i \<le> n" "n < 2 ^ 64"
  defines "step \<equiv> \<lambda>(seq, out). (seq + 1, out @ [s (ring_slot k seq)])"
  shows "while (\<lambda>(seq, out). seq \<noteq> st + of_nat n) step (st + of_nat i, ring_window k s st i) =
    (st + of_nat n, ring_window k s st n)"
  using assms(1)
proof (induction "n - i" arbitrary: i)
  case 0
  then show ?case by (subst while_unfold) simp
next
  case (Suc d)
  then have i: "i < n" by simp
  then have "(of_nat i :: 64 word) \<noteq> of_nat n"
    using assms(2) by (simp add: word_unat_eq_iff unat_of_nat take_bit_nat_eq_self)
  moreover have "step (st + of_nat i, ring_window k s st i) = (st + of_nat (Suc i), ring_window k s st (Suc i))"
    by (simp add: step_def ring_window_def algebra_simps)
  moreover have "while (\<lambda>(seq, out). seq \<noteq> st + of_nat n) step (st + of_nat (Suc i), ring_window k s st (Suc i)) =
      (st + of_nat n, ring_window k s st n)"
    by (rule Suc.hyps(1)) (use Suc.hyps(2) i in auto)
  ultimately show ?case by (subst while_unfold) simp
qed

lemma spsc_drain:
  assumes "spsc_ok k r"
  shows "fst (spsc_consume_batch k r) = spsc_contents k r" "spsc_ok k (snd (spsc_consume_batch k r))"
    "spsc_contents k (snd (spsc_consume_batch k r)) = []"
proof -
  let ?n = "unat (sp_cursor r - sp_next r)"
  have cur: "sp_cursor r = sp_next r + of_nat ?n" by simp
  show "fst (spsc_consume_batch k r) = spsc_contents k r" "spsc_ok k (snd (spsc_consume_batch k r))"
    "spsc_contents k (snd (spsc_consume_batch k r)) = []"
  proof (atomize (full), cases "sp_next r = sp_cursor r")
    case True
    then show "fst (spsc_consume_batch k r) = spsc_contents k r \<and> spsc_ok k (snd (spsc_consume_batch k r)) \<and>
      spsc_contents k (snd (spsc_consume_batch k r)) = []"
      using assms by (simp add: spsc_consume_batch_def spsc_contents_def ring_window_def)
  next
    case False
    then have n1: "1 \<le> ?n" by (metis One_nat_def Suc_leI eq_iff_diff_eq_0 gr_zeroI unat_eq_0)
    have nb: "?n < 2 ^ 64" using unsigned_less [of "sp_cursor r - sp_next r", where ?'a = nat] by simp
    have "(case (sp_next r, []) of (seq, out) \<Rightarrow> (seq + 1, out @ [sp_slots r (ring_slot k seq)])) =
        (sp_next r + of_nat 1, ring_window k (sp_slots r) (sp_next r) 1)" by (simp add: ring_window_def)
    with batch_loop [OF n1 nb, of "sp_next r" "sp_slots r" k] have
      "spsc_consume_batch k r = (spsc_contents k r, r\<lparr>sp_cached_cursor := sp_cursor r, sp_next := sp_cursor r\<rparr>)"
      using False cur unfolding spsc_consume_batch_def Let_def spsc_contents_def by (auto simp: ring_window_def)
    then show "fst (spsc_consume_batch k r) = spsc_contents k r \<and> spsc_ok k (snd (spsc_consume_batch k r)) \<and>
      spsc_contents k (snd (spsc_consume_batch k r)) = []"
      using assms by (simp add: spsc_ok_def spsc_contents_def ring_window_def)
  qed
qed

interpretation spsc: bounded_queue "spsc_ok k" "spsc_contents k" "2 ^ k" "spsc_try_publish k" "spsc_consume_batch k" for k
  by unfold_locales (auto simp: spsc_publish spsc_drain)

section \<open>Batches\<close>

lemma fold_wave:
  assumes "k < 64" "m \<le> 2 ^ k" "base = ring_slot k seq"
  defines "f \<equiv> (if base + m \<le> 2 ^ k then m else 2 ^ k - base)"
  shows "fold (\<lambda>i s. s(i - f := xs ! i)) [f..<m] (fold (\<lambda>i s. s(base + i := xs ! i)) [0..<f] s) =
    fold (\<lambda>i s. s(ring_slot k (seq + of_nat i) := xs ! i)) [0..<m] s"
proof -
  have b: "base < 2 ^ k" by (simp add: assms(3) ring_slot_mod)
  have f: "f \<le> m" "base + f \<le> 2 ^ k" "f < m \<Longrightarrow> base + f = 2 ^ k" using b by (auto simp: f_def)
  have lo: "ring_slot k (seq + of_nat i) = base + i" if "i < f" for i
    using that f(2) by (simp add: ring_slot_add [OF assms(1)] assms(3))
  have hi: "ring_slot k (seq + of_nat i) = i - f" if "f \<le> i" "i < m" for i
  proof -
    have e: "base + i = 2 ^ k + (i - f)" using that f(3) by simp
    have "i - f < 2 ^ k" using that assms(2) by simp
    then show ?thesis unfolding ring_slot_add [OF assms(1)] assms(3) [symmetric] e by simp
  qed
  have "fold (\<lambda>i s. s(base + i := xs ! i)) [0..<f] s = fold (\<lambda>i s. s(ring_slot k (seq + of_nat i) := xs ! i)) [0..<f] s" for s :: "nat \<Rightarrow> 'a"
    by (rule fold_cong) (auto simp: lo)
  moreover have "fold (\<lambda>i s. s(i - f := xs ! i)) [f..<m] s = fold (\<lambda>i s. s(ring_slot k (seq + of_nat i) := xs ! i)) [f..<m] s" for s :: "nat \<Rightarrow> 'a"
    by (rule fold_cong) (auto simp: hi)
  moreover have "[0..<m] = [0..<f] @ [f..<m]" using f(1) by (metis add_0 le_add_diff_inverse upt_add_eq_append zero_le)
  ultimately show ?thesis by (simp del: fun_upd_apply)
qed

lemma wave_put:
  assumes "spsc_ok k r" "unat (sp_cursor r - sp_cached_consumer r) + m \<le> 2 ^ k" "m \<le> length xs"
  defines "r' \<equiv> r\<lparr>sp_slots := fold (\<lambda>i s. s(ring_slot k (sp_cursor r + of_nat i) := xs ! i)) [0..<m] (sp_slots r),
    sp_cursor := sp_cursor r + of_nat m\<rparr>"
  shows "spsc_ok k r'" "spsc_contents k r' = spsc_contents k r @ take m xs"
proof -
  let ?n = "unat (sp_cursor r - sp_next r)"
  have k: "k < 64" "?n + m \<le> 2 ^ k" using assms(1,2) by (auto simp: spsc_ok_def)
  note a = advance [OF k(2,1)] advance [OF assms(2) k(1)]
  then show "spsc_ok k r'" using assms(1,2) by (simp add: spsc_ok_def r'_def)
  have cur: "sp_cursor r + of_nat i = sp_next r + of_nat (?n + i)" for i by (simp add: algebra_simps)
  show "spsc_contents k r' = spsc_contents k r @ take m xs"
    using window_put_many [OF k assms(3), of "sp_next r" "sp_slots r"] a(1)
    unfolding cur [symmetric] spsc_contents_def r'_def by simp
qed

lemma spsc_write_wave_eq:
  fixes items :: "'a list"
  assumes "k < 64" "unat (sp_cursor r - sp_cached_consumer r) < 2 ^ k"
  defines "tk \<equiv> min (length items) (2 ^ k - unat (sp_cursor r - sp_cached_consumer r))"
  shows "spsc_write_wave k items r =
    (tk, r\<lparr>sp_slots := fold (\<lambda>i s. s(ring_slot k (sp_cursor r + of_nat i) := items ! i)) [0..<tk] (sp_slots r),
      sp_cursor := sp_cursor r + of_nat tk\<rparr>)"
proof -
  have "unat (2 ^ k - (sp_cursor r - sp_cached_consumer r)) = 2 ^ k - unat (sp_cursor r - sp_cached_consumer r)"
    using assms(2) pow_word [OF assms(1)] by (simp add: unat_sub word_le_nat_alt)
  then have tk: "(if length items < unat (2 ^ k - (sp_cursor r - sp_cached_consumer r)) then length items
      else unat (2 ^ k - (sp_cursor r - sp_cached_consumer r))) = tk" by (simp add: tk_def min_def)
  have "tk \<le> 2 ^ k" by (simp add: tk_def)
  note fw = fold_wave [OF assms(1) this refl, of "sp_cursor r" items "sp_slots r"]
  show ?thesis unfolding spsc_write_wave_def Let_def tk fw ..
qed

lemma spsc_wave:
  assumes ok: "spsc_ok k r" and w: "spsc_publish_wave k items r = (m, r')"
  shows "spsc_ok k r'" "spsc_contents k r' = spsc_contents k r @ take m items" "m \<le> length items"
    "m = 0 \<longleftrightarrow> items = [] \<or> length (spsc_contents k r) = 2 ^ k"
proof -
  define r1 where "r1 = spsc_refresh k r"
  let ?c = "unat (sp_cursor r1 - sp_cached_consumer r1)"
  have k: "k < 64" "0 < k" using ok by (auto simp: spsc_ok_def)
  have r1: "spsc_ok k r1" "spsc_contents k r1 = spsc_contents k r" "sp_cursor r1 = sp_cursor r" "sp_next r1 = sp_next r"
    using ok by (auto simp: r1_def spsc_refresh_def spsc_ok_def spsc_contents_def)
  have c: "unat (sp_cursor r - sp_next r) \<le> ?c" "?c \<le> 2 ^ k" using r1 by (auto simp: spsc_ok_def)
  have full: "?c \<ge> 2 ^ k \<longleftrightarrow> length (spsc_contents k r) = 2 ^ k"
    using c ok full_test [OF k(1)]
    by (auto simp: r1_def spsc_refresh_def spsc_contents_def spsc_ok_def split: if_splits)
  have "spsc_ok k r' \<and> spsc_contents k r' = spsc_contents k r @ take m items \<and> m \<le> length items \<and>
    (m = 0 \<longleftrightarrow> items = [] \<or> length (spsc_contents k r) = 2 ^ k)"
  proof (cases "?c \<ge> 2 ^ k")
    case True
    then have "(0, r1) = (m, r')" using w full_test [OF k(1)] by (simp add: spsc_publish_wave_def Let_def r1_def)
    then show ?thesis using r1 True full by auto
  next
    case False
    then have lt: "?c < 2 ^ k" by simp
    define tk where "tk = min (length items) (2 ^ k - ?c)"
    have m: "?c + tk \<le> 2 ^ k" "tk \<le> length items" using c(2) by (auto simp: tk_def)
    have "spsc_publish_wave k items r = spsc_write_wave k items r1"
      using False full_test [OF k(1)] by (simp add: spsc_publish_wave_def Let_def r1_def)
    then have eq: "m = tk" "r' = r1\<lparr>sp_slots := fold (\<lambda>i s. s(ring_slot k (sp_cursor r1 + of_nat i) := items ! i)) [0..<tk] (sp_slots r1),
        sp_cursor := sp_cursor r1 + of_nat tk\<rparr>"
      using w spsc_write_wave_eq [OF k(1) lt, of items] by (simp_all add: tk_def)
    note wp = wave_put [OF r1(1) m]
    have "tk = 0 \<longleftrightarrow> items = []" using lt by (cases items) (simp_all add: tk_def min_def)
    then show ?thesis using wp eq m r1(2) False full by simp
  qed
  then show "spsc_ok k r'" "spsc_contents k r' = spsc_contents k r @ take m items" "m \<le> length items"
    "m = 0 \<longleftrightarrow> items = [] \<or> length (spsc_contents k r) = 2 ^ k" by auto
qed



lemma spsc_init_ok: "0 < k \<Longrightarrow> k < 64 \<Longrightarrow> spsc_ok k (spsc_init z)" "spsc_contents k (spsc_init z) = []"
  by (simp_all add: spsc_ok_def spsc_init_def spsc_contents_def ring_window_def)


text \<open>
  C17. The ring is a bounded FIFO queue over any run of pushes and drains from a ring in a valid
  state, wherever its cursors are in their 64-bit range: a push is taken exactly when fewer than
  \<open>Size\<close> items are in the ring, and the items that came out followed by those still in it
  are those that were in it followed by those that were taken. Nothing is lost, doubled or reordered.
\<close>

theorem spsc_fifo:
  assumes "spsc_ok k r" "bounded_queue.run_ops (spsc_try_publish k) (spsc_consume_batch k) ops r = (acc, out, r')"
  shows "spsc_ok k r' \<and> spsc_contents k r @ acc = out @ spsc_contents k r' \<and>
    (fst (spsc_try_publish k x r') \<longleftrightarrow> length (spsc_contents k r') < 2 ^ k)"
  using spsc.run_fifo [OF assms] spsc.push_accepts [of k r' x] by blast

lemma spsc_run_simps:
  "bounded_queue.run_ops (spsc_try_publish k) (spsc_consume_batch k) [] r = ([], [], r)"
  "bounded_queue.run_ops (spsc_try_publish k) (spsc_consume_batch k) (Push x # ops) r =
     (let (ok, r') = spsc_try_publish k x r; (acc, out, r'') = bounded_queue.run_ops (spsc_try_publish k) (spsc_consume_batch k) ops r'
      in ((if ok then [x] else []) @ acc, out, r''))"
  "bounded_queue.run_ops (spsc_try_publish k) (spsc_consume_batch k) (Drain # ops) r =
     (let (xs, r') = spsc_consume_batch k r; (acc, out, r'') = bounded_queue.run_ops (spsc_try_publish k) (spsc_consume_batch k) ops r'
      in (acc, xs @ out, r''))"
  by (rule spsc.run_ops.simps)+

theorem spsc_fifo_witness:
  "\<exists>acc out r'. bounded_queue.run_ops (spsc_try_publish 1) (spsc_consume_batch 1) [Push 1, Push 2, Push (3 :: nat), Drain] (spsc_init 0) = (acc, out, r') \<and>
     acc = out @ spsc_contents 1 r'"
proof -
  obtain acc out r' where r: "bounded_queue.run_ops (spsc_try_publish 1) (spsc_consume_batch 1) [Push 1, Push 2, Push (3 :: nat), Drain] (spsc_init 0) = (acc, out, r')"
    by (metis prod_cases3)
  from spsc_fifo [OF spsc_init_ok(1) [of 1] r] show ?thesis using r spsc_init_ok(2) [of 1 "0 :: nat"] by auto
qed

section \<open>The phases of a batch\<close>

text \<open>
  \<^verbatim>\<open>consume_batch\<close> as the producer sees it: the cursor is read once, the slots are read one by one while the handler works, and they are
  all freed by the one store at the end. \<open>seq\<close> and \<open>avail\<close> are the local variables of the call; a batch is
  under way as long as \<open>seq\<close> differs from the ring's \<^verbatim>\<open>next\<close>.
\<close>

definition spsc_batch_open :: "'a SpscRing \<Rightarrow> 64 word \<times> 'a SpscRing" where
  "spsc_batch_open r =
     (let start = sp_next r; avail = sp_cursor r in
      if start = avail then (avail, r) else (avail, r\<lparr>sp_cached_cursor := avail\<rparr>))"

definition spsc_batch_item :: "nat \<Rightarrow> 64 word \<Rightarrow> 'a SpscRing \<Rightarrow> 'a" where
  "spsc_batch_item k seq r = sp_slots r (ring_slot k seq)"

definition spsc_batch_close :: "64 word \<Rightarrow> 'a SpscRing \<Rightarrow> 'a SpscRing" where
  "spsc_batch_close seq r = r\<lparr>sp_next := seq\<rparr>"

text \<open>A consumer that has come to \<open>seq\<close> of a batch that ends at \<open>avail\<close>, and what it has not read yet.\<close>

definition spsc_reading :: "nat \<Rightarrow> 64 word \<Rightarrow> 64 word \<Rightarrow> 'a SpscRing \<Rightarrow> bool" where
  "spsc_reading k seq avail r \<longleftrightarrow> spsc_ok k r \<and> unat (seq - sp_next r) \<le> unat (avail - sp_next r) \<and>
     unat (avail - sp_next r) \<le> unat (sp_cursor r - sp_next r)"

definition spsc_unread :: "nat \<Rightarrow> 64 word \<Rightarrow> 'a SpscRing \<Rightarrow> 'a list" where
  "spsc_unread k seq r = drop (unat (seq - sp_next r)) (spsc_contents k r)"

lemma spsc_contents_length: "length (spsc_contents k r) = unat (sp_cursor r - sp_next r)"
  by (simp add: spsc_contents_def)

lemma spsc_empty_contents: "spsc_empty_approx r \<longleftrightarrow> spsc_contents k r = []"
  by (simp add: spsc_empty_approx_def spsc_size_approx_def word_unat_eq_iff flip: length_0_conv spsc_contents_length [of k])

lemma spsc_reading_ok [simp]: "spsc_reading k seq avail r \<Longrightarrow> spsc_ok k r"
  by (simp add: spsc_reading_def)

lemma spsc_unread_start [simp]: "spsc_unread k (sp_next r) r = spsc_contents k r"
  by (simp add: spsc_unread_def)

lemma spsc_reading_start: "spsc_ok k r \<Longrightarrow> spsc_reading k (sp_next r) (sp_next r) r"
  by (simp add: spsc_reading_def)

lemma spsc_init_reading:
  "0 < k \<Longrightarrow> k < 64 \<Longrightarrow> spsc_reading k 0 0 (spsc_init z)" "spsc_unread k 0 (spsc_init z) = []"
  using spsc_init_ok [of k z] by (simp_all add: spsc_reading_def spsc_unread_def spsc_init_def)

lemma spsc_batch_open:
  assumes "spsc_ok k r" "spsc_batch_open r = (a, r')"
  shows "spsc_reading k (sp_next r) a r'" "sp_next r' = sp_next r" "spsc_contents k r' = spsc_contents k r" "a = sp_cursor r'"
  using assms by (auto simp: spsc_batch_open_def Let_def spsc_reading_def spsc_ok_def spsc_contents_def split: if_splits)

lemma spsc_batch_item:
  assumes "spsc_reading k seq a r" "seq \<noteq> a"
  shows "spsc_reading k (seq + 1) a r" "spsc_unread k seq r = spsc_batch_item k seq r # spsc_unread k (seq + 1) r"
    "unat (seq + 1 - sp_next r) = Suc (unat (seq - sp_next r))"
proof -
  let ?i = "unat (seq - sp_next r)" and ?n = "unat (sp_cursor r - sp_next r)"
  have r: "spsc_ok k r" "?i \<le> unat (a - sp_next r)" "unat (a - sp_next r) \<le> ?n" using assms(1) by (simp_all add: spsc_reading_def)
  have "?i \<noteq> unat (a - sp_next r)" using assms(2) by (simp flip: word_unat_eq_iff)
  then have lt: "?i < unat (a - sp_next r)" using r(2) by simp
  have "?n \<le> 2 ^ k" "k < 64" using r(1) by (auto simp: spsc_ok_def)
  then show i1: "unat (seq + 1 - sp_next r) = Suc ?i" using advance [of seq "sp_next r" 1 k] lt r(3) by simp
  show "spsc_reading k (seq + 1) a r" using r lt i1 by (simp add: spsc_reading_def)
  have "?i < length (spsc_contents k r)" using lt r(3) by (simp add: spsc_contents_length)
  moreover have "spsc_contents k r ! ?i = spsc_batch_item k seq r"
    using lt r(3) by (simp add: spsc_contents_def ring_window_def spsc_batch_item_def)
  ultimately show "spsc_unread k seq r = spsc_batch_item k seq r # spsc_unread k (seq + 1) r"
    unfolding spsc_unread_def i1 by (metis Cons_nth_drop_Suc)
qed

lemma spsc_batch_close:
  assumes "spsc_reading k seq seq r"
  shows "spsc_ok k (spsc_batch_close seq r)" "spsc_contents k (spsc_batch_close seq r) = spsc_unread k seq r"
    "sp_next (spsc_batch_close seq r) = seq"
proof -
  let ?i = "unat (seq - sp_next r)" and ?n = "unat (sp_cursor r - sp_next r)"
  have r: "spsc_ok k r" "?i \<le> ?n" using assms by (simp_all add: spsc_reading_def)
  have "sp_cursor r - seq = (sp_cursor r - sp_next r) - (seq - sp_next r)" by simp
  then have d: "unat (sp_cursor r - seq) = ?n - ?i" using r(2) by (metis unat_sub word_le_nat_alt)
  have seq: "sp_next r + of_nat (?i + j) = seq + of_nat j" for j by simp
  show "spsc_ok k (spsc_batch_close seq r)" using r(1) d by (auto simp: spsc_batch_close_def spsc_ok_def)
  show "spsc_contents k (spsc_batch_close seq r) = spsc_unread k seq r"
    by (rule nth_equalityI)
      (use r(2) d seq in \<open>simp_all add: spsc_batch_close_def spsc_unread_def spsc_contents_def ring_window_def\<close>)
qed (simp add: spsc_batch_close_def)

lemma spsc_batch_closed:
  assumes "spsc_reading k seq seq r"
  shows "spsc_reading k seq seq (spsc_batch_close seq r)" "spsc_unread k seq (spsc_batch_close seq r) = spsc_unread k seq r"
  using spsc_batch_close [OF assms] spsc_reading_start [of k "spsc_batch_close seq r"] spsc_unread_start [of k "spsc_batch_close seq r"]
  by simp_all

lemma spsc_reading_empty: "spsc_reading k seq a r \<Longrightarrow> spsc_contents k r = [] \<Longrightarrow> seq = sp_next r \<and> a = sp_next r"
  using spsc_contents_length [of k r] by (auto simp: spsc_reading_def unat_eq_0)

text \<open>What the producer adds meanwhile comes after what the consumer has still to read.\<close>

lemma spsc_reading_extend:
  assumes "spsc_reading k seq a r" "spsc_ok k r'" "sp_next r' = sp_next r" "spsc_contents k r' = spsc_contents k r @ xs"
  shows "spsc_reading k seq a r'" "spsc_unread k seq r' = spsc_unread k seq r @ xs"
proof -
  have len: "unat (sp_cursor r' - sp_next r') = unat (sp_cursor r - sp_next r) + length xs"
    using arg_cong [OF assms(4), of length] by (simp add: spsc_contents_length)
  show "spsc_reading k seq a r'" using assms(1-3) len by (simp add: spsc_reading_def)
  show "spsc_unread k seq r' = spsc_unread k seq r @ xs"
    using assms(1,3,4) by (simp add: spsc_unread_def spsc_reading_def spsc_contents_length)
qed

lemma spsc_producer_next [frame, simp]:
  "sp_next (snd (spsc_try_publish k x r)) = sp_next r" "sp_next (snd (spsc_publish_wave k xs r)) = sp_next r"
  by (simp_all add: spsc_try_publish_def spsc_publish_wave_def spsc_refresh_def spsc_write_wave_def Let_def)

lemma spsc_reading_push:
  assumes "spsc_reading k seq a r" "spsc_try_publish k x r = (ok, r')"
  shows "spsc_reading k seq a r'" "spsc_unread k seq r' = spsc_unread k seq r @ (if ok then [x] else [])" "sp_next r' = sp_next r"
    "ok \<longleftrightarrow> length (spsc_contents k r) < 2 ^ k"
proof -
  note p = spsc_publish [OF spsc_reading_ok [OF assms(1)], of x] spsc_producer_next(1) [of k x r]
  show "spsc_reading k seq a r'" "spsc_unread k seq r' = spsc_unread k seq r @ (if ok then [x] else [])" "sp_next r' = sp_next r"
    "ok \<longleftrightarrow> length (spsc_contents k r) < 2 ^ k"
    using p assms(2) spsc_reading_extend [OF assms(1), of r' "if ok then [x] else []"] by auto
qed

lemma spsc_reading_wave:
  assumes "spsc_reading k seq a r" "spsc_publish_wave k items r = (m, r')"
  shows "spsc_reading k seq a r'" "spsc_unread k seq r' = spsc_unread k seq r @ take m items" "sp_next r' = sp_next r" "m \<le> length items"
    "m = 0 \<longleftrightarrow> items = [] \<or> length (spsc_contents k r) = 2 ^ k"
proof -
  note w = spsc_wave [OF spsc_reading_ok [OF assms(1)] assms(2)] spsc_producer_next(2) [of k items r]
  show "spsc_reading k seq a r'" "spsc_unread k seq r' = spsc_unread k seq r @ take m items" "sp_next r' = sp_next r" "m \<le> length items"
    "m = 0 \<longleftrightarrow> items = [] \<or> length (spsc_contents k r) = 2 ^ k"
    using w assms(2) spsc_reading_extend [OF assms(1), of r' "take m items"] by auto
qed

text \<open>A batch without a step of the producer in between is \<^verbatim>\<open>consume_batch\<close>: opening, reading up to the end and closing give the same items and the same ring.\<close>

function spsc_read_on :: "nat \<Rightarrow> 64 word \<Rightarrow> 64 word \<Rightarrow> 'a SpscRing \<Rightarrow> 'a list" where
  "spsc_read_on k seq avail r = (if seq = avail then [] else spsc_batch_item k seq r # spsc_read_on k (seq + 1) avail r)"
  by pat_completeness auto
termination
proof (relation "measure (\<lambda>(k, seq, avail, r). unat (avail - seq))", goal_cases)
  case (2 k seq avail r)
  have "unat (avail - seq) \<noteq> 0" using 2 by (simp add: unat_eq_0)
  then have "unat (avail - seq - 1) = unat (avail - seq) - 1" by (simp add: unat_minus_one unat_eq_0)
  then show ?case using \<open>unat (avail - seq) \<noteq> 0\<close> by (simp add: diff_diff_eq)
qed simp

declare spsc_read_on.simps [simp del]

lemma spsc_read_on_unread:
  "spsc_reading k seq a r \<Longrightarrow> a = sp_cursor r \<Longrightarrow> spsc_read_on k seq a r = spsc_unread k seq r \<and> spsc_reading k a a r"
proof (induction k seq a r rule: spsc_read_on.induct)
  case (1 k seq avail r)
  show ?case
  proof (cases "seq = avail")
    case True
    then show ?thesis using 1(2,3) by (subst spsc_read_on.simps) (simp add: spsc_unread_def spsc_contents_length)
  next
    case False
    then show ?thesis using 1(1) [OF False] spsc_batch_item [OF 1(2) False] 1(3) by (subst spsc_read_on.simps) simp
  qed
qed

lemma spsc_batch_phases:
  assumes "spsc_ok k r" "spsc_batch_open r = (a, r')"
  shows "fst (spsc_consume_batch k r) = spsc_read_on k (sp_next r') a r'"
    "spsc_contents k (snd (spsc_consume_batch k r)) = spsc_contents k (spsc_batch_close a r')"
proof -
  note o = spsc_batch_open [OF assms]
  have r: "spsc_read_on k (sp_next r') a r' = spsc_contents k r" "spsc_reading k a a r'"
    using spsc_read_on_unread [OF o(1,4)] o(2,3) spsc_unread_start [of k r'] by simp_all
  then show "fst (spsc_consume_batch k r) = spsc_read_on k (sp_next r') a r'"
    "spsc_contents k (snd (spsc_consume_batch k r)) = spsc_contents k (spsc_batch_close a r')"
    using spsc_drain [OF assms(1)] spsc_batch_close(2) [OF r(2)] o(4) by (simp_all add: spsc_unread_def spsc_contents_length)
qed

section \<open>Progress of a consumer\<close>

text \<open>What a consumer has not read yet counts once in the open batch and twice behind it.\<close>

definition ring_weight :: "nat \<Rightarrow> 64 word \<Rightarrow> 64 word \<Rightarrow> 'a SpscRing \<Rightarrow> nat" where
  "ring_weight k seq avail r = length (spsc_unread k seq r) + length (spsc_unread k avail r)"

definition open_batch :: "64 word \<Rightarrow> 'a SpscRing \<Rightarrow> nat" where
  "open_batch seq r = (if seq = sp_next r then 0 else 1)"

text \<open>A consumer that has something in its ring makes progress: it reads an item, frees a batch, or opens one.\<close>

lemma ring_weight_item:
  assumes "spsc_reading k seq a r" "seq \<noteq> a"
  shows "ring_weight k (seq + 1) a r < ring_weight k seq a r"
  using spsc_batch_item(2) [OF assms] by (simp add: ring_weight_def)

lemma ring_weight_close:
  assumes "spsc_reading k seq seq r" "seq \<noteq> sp_next r"
  shows "ring_weight k seq seq (spsc_batch_close seq r) = ring_weight k seq seq r" "open_batch seq (spsc_batch_close seq r) < open_batch seq r"
  using spsc_batch_closed(2) [OF assms(1)] assms(2) by (simp_all add: ring_weight_def open_batch_def spsc_batch_close_def)

lemma ring_weight_open:
  assumes "spsc_ok k r" "spsc_contents k r \<noteq> []" "spsc_batch_open r = (a, r')"
  shows "ring_weight k (sp_next r) a r' < ring_weight k (sp_next r) (sp_next r) r"
proof -
  note o = spsc_batch_open [OF assms(1,3)]
  have "spsc_unread k a r' = []" using o(4) by (simp add: spsc_unread_def spsc_contents_length)
  moreover have "spsc_unread k (sp_next r) r' = spsc_contents k r" using o(2,3) spsc_unread_start [of k r'] by simp
  ultimately show ?thesis using assms(2) by (simp add: ring_weight_def)
qed

lemma ring_weight_extend:
  assumes "spsc_reading k seq a r" "spsc_ok k r'" "sp_next r' = sp_next r" "spsc_contents k r' = spsc_contents k r @ xs"
  shows "ring_weight k seq a r' = ring_weight k seq a r + 2 * length xs" "open_batch seq r' = open_batch seq r"
proof -
  have "spsc_reading k a a r" using assms(1) by (simp add: spsc_reading_def)
  from spsc_reading_extend(2) [OF this assms(2-)] spsc_reading_extend(2) [OF assms] assms(3)
  show "ring_weight k seq a r' = ring_weight k seq a r + 2 * length xs" "open_batch seq r' = open_batch seq r"
    by (simp_all add: ring_weight_def open_batch_def)
qed

section \<open>Consuming one item\<close>

text \<open>The consumer's two cursors have not been overtaken by a wrap of the producer's.\<close>

definition spsc_unwrapped :: "'a SpscRing \<Rightarrow> bool" where
  "spsc_unwrapped r \<longleftrightarrow> sp_next r \<le> sp_cursor r \<and> sp_cached_cursor r \<le> sp_cursor r"

text \<open>
  As long as the producer's cursor has not wrapped, \<^verbatim>\<open>try_consume\<close> returns the oldest item and
  takes it out, and it reports an empty ring only for an empty ring.
\<close>

theorem try_consume_head:
  assumes "spsc_ok k r" "spsc_unwrapped r" "spsc_try_consume k r = (x, r')"
  shows "spsc_ok k r' \<and> spsc_unwrapped r' \<and>
    (case spsc_contents k r of [] \<Rightarrow> x = None \<and> spsc_contents k r' = [] | y # ys \<Rightarrow> x = Some y \<and> spsc_contents k r' = ys)"
proof -
  let ?n = "unat (sp_cursor r - sp_next r)"
  let ?get = "\<lambda>r. (Some (sp_slots r (ring_slot k (sp_next r))), r\<lparr>sp_next := sp_next r + 1\<rparr>)"
  let ?r1 = "r\<lparr>sp_cached_cursor := sp_cursor r\<rparr>"
  have le: "unat (sp_next r) \<le> unat (sp_cursor r)" "unat (sp_cached_cursor r) \<le> unat (sp_cursor r)"
    using assms(2) by (simp_all add: spsc_unwrapped_def word_le_nat_alt)
  have n: "?n = unat (sp_cursor r) - unat (sp_next r)" using le(1) by (simp add: unat_sub word_le_nat_alt)
  show ?thesis
  proof (cases "sp_next r = sp_cursor r")
    case True
    then have "x = None" "r' = ?r1" using assms(3) le(2) by (auto simp: spsc_try_consume_def Let_def word_le_nat_alt not_le split: if_splits)
    then show ?thesis using assms(1,2) True by (simp add: spsc_ok_def spsc_unwrapped_def spsc_contents_def ring_window_def)
  next
    case False
    then have lt: "unat (sp_next r) < unat (sp_cursor r)" using le(1) by (metis le_neq_implies_less word_unat_eq_iff)
    then have eq: "(x, r') = ?get r \<or> (x, r') = ?get ?r1"
      using assms(3) by (auto simp: spsc_try_consume_def Let_def word_le_nat_alt split: if_splits)
    have "unat (sp_cursor r) < 2 ^ 64" using unsigned_less [of "sp_cursor r", where ?'a = nat] by simp
    then have n1: "unat (sp_next r + 1) = unat (sp_next r) + 1" using lt
      by (simp add: unat_word_ariths)
    then have d: "unat (sp_cursor r - (sp_next r + 1)) = ?n - 1" "?n = Suc (?n - 1)"
      using n lt by (simp_all add: unat_sub word_le_nat_alt)
    have "spsc_contents k r = sp_slots r (ring_slot k (sp_next r)) # ring_window k (sp_slots r) (sp_next r + 1) (?n - 1)"
      unfolding spsc_contents_def using window_drop [of k "sp_slots r" "sp_next r" "?n - 1"] d(2) by simp
    moreover have "spsc_contents k r' = ring_window k (sp_slots r) (sp_next r + 1) (?n - 1)" "x = Some (sp_slots r (ring_slot k (sp_next r)))"
      using eq d(1) by (auto simp: spsc_contents_def)
    moreover have "spsc_ok k r'" "spsc_unwrapped r'"
      using eq assms(1,2) d lt n1 by (auto simp: spsc_ok_def spsc_unwrapped_def word_le_nat_alt)
    ultimately show ?thesis by simp
  qed
qed

theorem try_consume_head_witness:
  "\<exists>r'. spsc_try_consume 1 (snd (spsc_try_publish 1 (7 :: nat) (spsc_init 0))) = (Some 7, r') \<and> spsc_contents 1 r' = []"
proof -
  let ?r = "snd (spsc_try_publish 1 (7 :: nat) (spsc_init 0))"
  obtain x r' where c: "spsc_try_consume 1 ?r = (x, r')" by force
  have i: "spsc_ok 1 (spsc_init (0 :: nat))" "spsc_contents 1 (spsc_init (0 :: nat)) = []" by (simp_all add: spsc_init_ok)
  have "spsc_ok 1 ?r" "spsc_contents 1 ?r = [7]" using spsc_publish [OF i(1), of 7] i(2) by auto
  moreover have "spsc_unwrapped ?r" by (simp add: spsc_unwrapped_def spsc_try_publish_def spsc_init_def Let_def)
  ultimately show ?thesis using try_consume_head [OF _ _ c] c by auto
qed

text \<open>
  After \<open>2 ^ 64\<close> items the comparison \<^verbatim>\<open>seq >= cached_cursor\<close> is wrong: with the producer's cursor wrapped to
  \<open>0\<close>, \<^verbatim>\<open>try_consume\<close> calls a ring empty from which \<^verbatim>\<open>consume_batch\<close> gets an item. The producer and
  the batch consumer compare differences and are not affected.
\<close>

theorem try_consume_wrap:
  "\<exists>r. spsc_ok 1 r \<and> spsc_contents 1 r = [7 :: nat] \<and> fst (spsc_try_consume 1 r) = None \<and> fst (spsc_consume_batch 1 r) = [7]"
proof -
  define r where "r = \<lparr>sp_slots = (\<lambda>_. 7 :: nat), sp_cursor = 0, sp_cached_consumer = -1, sp_next = -1, sp_cached_cursor = -1\<rparr>"
  have "spsc_ok 1 r" "spsc_contents 1 r = [7]" "fst (spsc_try_consume 1 r) = None"
    by (simp_all add: r_def spsc_ok_def spsc_contents_def ring_window_def spsc_try_consume_def Let_def)
  then show ?thesis using spsc_drain(1) by metis
qed

end
