(* ===== verification/Book_Properties.thy ===== *)
theory Book_Properties
  imports Engine_Properties
begin

text \<open>
  The properties of \<^verbatim>\<open>OrderBook\<close> itself: adding, cancelling, and the aggregates that the levels and the
  book cache.
\<close>

section \<open>Adding and cancelling\<close>

text \<open>
  C27. \<open>add\<close> on any reachable book: it queues the order behind all orders of its price, on
  its own side and nowhere else, or refuses it and leaves both sides as they were. It refuses
  only for the documented reasons (an id out of the slab's range, an id that is live, no free node,
  no free level), and it never takes an id that is out of range or live.
\<close>

theorem add_correct:
  assumes "book_inv b" "add o' b = (ok, b')"
  shows "book_inv b' \<and>
    book_side b' = (let buy = (o_side o' = BUY) in
      if ok then (book_side b)(buy := enqueue (prec_of buy) o' (book_side b buy)) else book_side b) \<and>
    (unat (o_id o') \<ge> locators_size b \<or> o_id o' \<in> live_ids (book_side b) \<longrightarrow> \<not> ok) \<and>
    (\<not> ok \<longrightarrow> unat (o_id o') \<ge> locators_size b \<or> o_id o' \<in> live_ids (book_side b) \<or>
      free_nodes b = [] \<or> rb_free (index_of (o_side o' = BUY) b) = [])"
  using book_add [OF assms(1), of o'] book_live [OF assms(1), of "o_id o'"] assms(2)
  by (auto simp: Let_def)

theorem add_correct_witness:
  "\<exists>ok b'. add sell5 book0 = (ok, b') \<and> ok \<and> book_side b' False = [(101, [sell5])]"
proof -
  obtain ok b' where ab: "add sell5 book0 = (ok, b')" by force
  have inv: "book_inv book0" using book0_ok by (simp add: engine_ok_def)
  have "fst (add sell5 book0)" by code_simp
  moreover have "book_side book0 = (\<lambda>_. [])" unfolding book0_def by (rule book_init_side) simp
  moreover have "o_side sell5 = SELL" "o_price sell5 = 101" by (simp_all add: sell5_def)
  ultimately show ?thesis using add_correct [OF inv ab] ab by (intro exI [of _ ok] exI [of _ b']) simp
qed

text \<open>
  C28. Adding and cancelling are inverse to each other: cancelling an order that was just added succeeds
  and restores both sides, including the removal of a level that was created for it; the
  id is then free again, so that a second cancel reports that there is nothing to cancel.
\<close>

theorem add_cancel_roundtrip:
  assumes "book_inv b" "add o' b = (True, b1)" "cancel (o_id o') b1 = (r, b2)"
  shows "r \<and> book_inv b2 \<and> book_side b2 = book_side b \<and> \<not> fst (cancel (o_id o') b2)"
  using book.add_cancel [OF assms(1), of o'] book.cancel_again [OF book.add_inv [OF assms(1)], of "o_id o'" o']
    book.cancel_inv [OF book.add_inv [OF assms(1)], of "o_id o'" o'] assms(2,3) by simp

theorem add_cancel_roundtrip_witness:
  "\<exists>b1 r b2. add (sell5\<lparr>o_id := 9\<rparr>) book1 = (True, b1) \<and> cancel 9 b1 = (r, b2) \<and> r \<and> book_side b2 = book_side book1"
proof -
  obtain ok b1 where ab: "add (sell5\<lparr>o_id := 9\<rparr>) book1 = (ok, b1)" by force
  obtain r b2 where cb: "cancel 9 b1 = (r, b2)" by force
  have "fst (add (sell5\<lparr>o_id := 9\<rparr>) book1)" by code_simp
  then have "add (sell5\<lparr>o_id := 9\<rparr>) book1 = (True, b1)" using ab by simp
  moreover have "book_inv book1" using book1_ok by (simp add: engine_ok_def)
  ultimately show ?thesis using add_cancel_roundtrip [of book1 "sell5\<lparr>o_id := 9\<rparr>" b1 r b2] cb by (intro exI [of _ b1] exI [of _ r] exI [of _ b2]) simp
qed

section \<open>Aggregates\<close>

definition level_triple :: "PriceLevel \<Rightarrow> PriceTick \<times> nat \<times> nat" where
  "level_triple l = (lvl_price l, unat (total_qty l), unat (order_count l))"

definition queue_triple :: "PriceTick \<times> Order list \<Rightarrow> PriceTick \<times> nat \<times> nat" where
  "queue_triple = (\<lambda>(p, os). (p, open_qty os, length os))"

text \<open>The levels of a side as a client iterates over them, \<^verbatim>\<open>for (it = begin(); it != end(); ++it)\<close>.\<close>

definition book_levels :: "bool \<Rightarrow> OrderBook \<Rightarrow> PriceLevel list" where
  "book_levels buy b = (let t = index_of buy b in map (n_val t) (walk (rb_size t) (rb_next t) (rb_begin t)))"

lemma book_levels_shape:
  assumes "book_ok b L"
  shows "book_levels buy b = map (\<lambda>(i, ns). get_level buy i b) (L buy)"
proof -
  note ix = book_okD(5) [OF assms, of buy]
  have "walk (rb_size (index_of buy b)) (rb_next (index_of buy b)) (rb_begin (index_of buy b)) = map fst (L buy)"
    using side_index.iterate [OF ix] index_ok_rep(4) [OF ix] by simp
  then show ?thesis by (simp add: book_levels_def Let_def get_level_def split_beta)
qed

lemma book_levels_exact:
  assumes "book_inv b"
  shows "map level_triple (book_levels buy b) = map queue_triple (book_side b buy)"
proof -
  obtain L where L: "book_ok b L" "book_side b = side_view b L" using assms by (rule book_invE)
  have "level_triple (get_level buy i b) = queue_triple (level_view b buy (i, ns))" if "(i, ns) \<in> set (L buy)" for i ns
  proof -
    note lk = book_okD(6) [OF L(1) that]
    note lw = level_words [OF lk level_count_exact [OF book_okD(3) [OF L(1)] that]]
    show ?thesis using lk lw(2,3) by (simp add: level_triple_def queue_triple_def level_view_def level_ok_def)
  qed
  then show ?thesis by (auto simp: book_levels_shape [OF L(1)] L(2) side_view_def)
qed

text \<open>
  C31. The cached aggregates are exact: iterating over a side yields the levels best price first, and each
  level's \<^verbatim>\<open>price\<close>, \<^verbatim>\<open>total_qty\<close> and \<^verbatim>\<open>order_count\<close> are the price, the sum of the open quantities and
  the number of its resting orders, without wrap-around of the 64-bit sum or the 32-bit count.
\<close>

theorem level_aggregates_exact:
  assumes "book_inv b"
  shows "map level_triple (book_levels buy b) = map queue_triple (book_side b buy) \<and>
    sorted_wrt (prec_of buy) (map lvl_price (book_levels buy b))"
proof -
  note ex = book_levels_exact [OF assms, of buy]
  have "map lvl_price (book_levels buy b) = map fst (map level_triple (book_levels buy b))" by (simp add: level_triple_def)
  also have "\<dots> = map fst (book_side b buy)" unfolding ex by (simp add: queue_triple_def split_beta)
  finally show ?thesis using ex book_sorted [OF assms] by (simp add: sides_sorted_def)
qed

theorem level_aggregates_exact_witness:
  "map level_triple (book_levels False book1) = [(101, 5, 1)]"
proof -
  have "map queue_triple (book_side book1 False) = [(101, 5, 1)]" by (simp add: book1_sides queue_triple_def sell5_def)
  then show ?thesis using level_aggregates_exact [of book1 False] book1_ok by (simp add: engine_ok_def)
qed

lemma sum_chain_length:
  "distinct ns \<Longrightarrow> length (level_orders nd ns) = (\<Sum>n \<in> set ns. length (fifo (nd n)))"
  by (induction ns) (simp_all add: node_orders_def)

lemma book_count:
  assumes "book_ok b L"
  shows "(\<Sum>n \<in> chains L. length (fifo (nodes b n))) =
    length (all_orders (side_view b L True)) + length (all_orders (side_view b L False))"
proof -
  note po = pool_ok_alt [of b L True, THEN iffD1, OF book_okD(3) [OF assms]]
  have "(\<Sum>n \<in> chains L. length (fifo (nodes b n))) =
      (\<Sum>n \<in> set (chain_of L True). length (fifo (nodes b n))) + (\<Sum>n \<in> set (chain_of L False). length (fifo (nodes b n)))"
    unfolding chains_def using po by (intro sum.union_disjoint) auto
  then show ?thesis using po by (simp add: side_view_orders sum_chain_length)
qed

text \<open>
  \<open>active_orders\<close> is the number of resting orders, and a live slab entry is exactly an order that
  rests: the slab answers for every id whether it is live.
\<close>

theorem active_orders_exact:
  assumes "book_inv b"
  shows "active_orders b = length (all_orders (book_side b True)) + length (all_orders (book_side b False)) \<and>
    (i \<in> live_ids (book_side b) \<longleftrightarrow> unat i < locators_size b \<and> se_node (locators b (unat i)) \<noteq> INVALID_INDEX)"
proof -
  obtain L where L: "book_ok b L" "book_side b = side_view b L" using assms by (rule book_invE)
  note po = book_okD(3) [OF L(1)]
  have "(\<Sum>n \<in> chains L. length (fifo (nodes b n))) \<le> (\<Sum>n \<in> chains L. 64)"
  proof (rule sum_mono)
    fix n assume "n \<in> chains L"
    then show "length (fifo (nodes b n)) \<le> 64"
      using length_level_orders [of "nodes b" "[n]"] by (simp add: node_orders_def)
  qed
  also have "\<dots> = card (chains L) * 64" by simp
  also have "\<dots> \<le> nodes_size b * 64"
    using po card_mono [of "{..<nodes_size b}" "chains L"] by (auto simp: pool_ok_def)
  also have "\<dots> < 2 ^ 64" using po by (simp add: pool_ok_def)
  finally have "unat (of_nat (\<Sum>n \<in> chains L. length (fifo (nodes b n))) :: 64 word) = (\<Sum>n \<in> chains L. length (fifo (nodes b n)))"
    by (simp add: unat_of_nat take_bit_nat_eq_self del: of_nat_sum)
  moreover have "live_count b = of_nat (\<Sum>n \<in> chains L. length (fifo (nodes b n)))"
    using book_okD(4) [OF L(1)] unfolding slab_ok_def by blast
  ultimately have "unat (live_count b) = (\<Sum>n \<in> chains L. length (fifo (nodes b n)))" by metis
  then show ?thesis using book_count [OF L(1)] book_live [OF assms] by (simp add: active_orders_def L(2))
qed

theorem active_orders_exact_witness:
  "active_orders book1 = 1 \<and> 1 \<in> live_ids (book_side book1)"
proof -
  have n: "length (all_orders (book_side book1 True)) + length (all_orders (book_side book1 False)) = 1" by (simp add: book1_sides)
  have l: "unat (1 :: OrderId) < locators_size book1 \<and> se_node (locators book1 (unat (1 :: OrderId))) \<noteq> INVALID_INDEX" by code_simp
  have "book_inv book1" using book1_ok by (simp add: engine_ok_def)
  from active_orders_exact [OF this, of 1] n l show ?thesis by simp
qed

text \<open>
  The top of the book: \<^verbatim>\<open>best_bid\<close> and \<^verbatim>\<open>best_ask\<close> return nothing exactly when their side is empty, and
  otherwise the level of the best price on it, with its exact aggregates; the best bid is below the best ask.
\<close>

theorem top_of_book:
  assumes "engine_ok b"
  shows "map_option level_triple (best_bid b) =
      (case book_side b True of [] \<Rightarrow> None | l # _ \<Rightarrow> Some (queue_triple l)) \<and>
    map_option level_triple (best_ask b) =
      (case book_side b False of [] \<Rightarrow> None | l # _ \<Rightarrow> Some (queue_triple l)) \<and>
    (best_bid b = Some p \<and> best_ask b = Some q \<longrightarrow> lvl_price p < lvl_price q)"
proof -
  have inv: "book_inv b" using assms by (simp add: engine_ok_def)
  obtain L where L: "book_ok b L" using inv by (rule book_invE)
  have best: "best_level s b = (case book_levels s b of [] \<Rightarrow> None | l # _ \<Rightarrow> Some l)" for s
  proof -
    note ix = index_ok_rep [OF book_okD(5) [OF L, of s]]
    show ?thesis using ix(3,4)
      by (cases "L s") (auto simp: best_level_def rb_empty_def book_levels_shape [OF L] get_level_def)
  qed
  have top: "map_option level_triple (best_level s b) = (case book_side b s of [] \<Rightarrow> None | l # _ \<Rightarrow> Some (queue_triple l))" for s
    using book_levels_exact [OF inv, of s] unfolding best by (cases "book_levels s b"; cases "book_side b s") auto
  have pr: "lvl_price l \<in> fst ` set (book_side b s)" if "best_level s b = Some l" for s l
    using top [of s] that by (cases "book_side b s") (auto simp: level_triple_def queue_triple_def split: prod.splits)
  have "uncrossed (book_side b)" using assms by (simp add: engine_ok_def)
  then show ?thesis using top uncrossedD pr by (auto simp: best_bid_def best_ask_def)
qed

theorem top_of_book_witness:
  "map_option level_triple (best_bid book1) = None \<and> map_option level_triple (best_ask book1) = Some (101, 5, 1)"
proof -
  have "book_side book1 True = []" "map queue_triple (book_side book1 False) = [(101, 5, 1)]"
    by (simp_all add: book1_sides queue_triple_def sell5_def)
  then show ?thesis using top_of_book [OF book1_ok, of PriceLevel_init PriceLevel_init] by (auto split: list.splits)
qed

end
