(* ===== verification/Snapshot.thy ===== *)
theory Snapshot
  imports Book_Properties
begin

text \<open>
  The L2 snapshot of the book: the wire structures of \<^verbatim>\<open>include/titan/book/snapshot.hpp\<close> and
  \<^verbatim>\<open>OrderBook::serialize_l2\<close>. The flat array \<^verbatim>\<open>levels\<close> is a function on indices; the padding and
  reserved bytes, which are zeroed, are left out.
\<close>

section \<open>The structures\<close>

definition SNAPSHOT_MAGIC :: "64 word" where
  "SNAPSHOT_MAGIC = 0x544954414E534E50"

definition SNAPSHOT_VERSION :: "32 word" where
  "SNAPSHOT_VERSION = 1"

record SnapshotLevel =
  sl_price :: PriceTick
  sl_total_qty :: "64 word"
  sl_order_count :: "32 word"
  sl_side :: "8 word"

record SnapshotHeader =
  sh_magic :: "64 word"
  sh_version :: "32 word"
  sh_level_count :: "32 word"
  sh_feed_seq :: Seq
  sh_bid_levels :: "32 word"
  sh_ask_levels :: "32 word"
  sh_checksum :: "64 word"

record SnapshotBuffer =
  sb_header :: SnapshotHeader
  sb_levels :: "nat \<Rightarrow> SnapshotLevel"

section \<open>Serialisation\<close>

text \<open>The local state of \<^verbatim>\<open>serialize_l2\<close>: the array, \<open>n\<close> and \<open>chk\<close>, as the lambda \<^verbatim>\<open>emit_level\<close> changes it.\<close>

type_synonym l2_state = "(nat \<Rightarrow> SnapshotLevel) \<times> nat \<times> 64 word"

definition level_hash :: "SnapshotLevel \<Rightarrow> 64 word" where
  "level_hash l = of_int (sl_price l) + sl_total_qty l + ucast (sl_order_count l) + ucast (sl_side l)"

definition snapshot_level :: "8 word \<Rightarrow> PriceLevel \<Rightarrow> SnapshotLevel" where
  "snapshot_level side lvl =
     \<lparr>sl_price = lvl_price lvl, sl_total_qty = total_qty lvl, sl_order_count = order_count lvl, sl_side = side\<rparr>"

definition emit_level :: "PriceLevel \<Rightarrow> 8 word \<Rightarrow> l2_state \<Rightarrow> l2_state" where
  "emit_level lvl side = (\<lambda>(levels, n, chk).
     let l = snapshot_level side lvl in (levels(n := l), Suc n, chk + level_hash l))"

text \<open>One of the two loops, with its counter (\<^verbatim>\<open>nb\<close> or \<^verbatim>\<open>na\<close>).\<close>

definition emit_side :: "bool \<Rightarrow> 8 word \<Rightarrow> nat \<Rightarrow> OrderBook \<Rightarrow> l2_state \<Rightarrow> nat \<times> l2_state" where
  "emit_side buy side half b st =
     (let t = index_of buy b;
          (it, k, st) = while (\<lambda>(it, k, st). it \<noteq> NIL \<and> k < half)
            (\<lambda>(it, k, st). (rb_next t it, Suc k, emit_level (n_val t it) side st)) (rb_begin t, 0, st)
      in (k, st))"

definition serialize_l2 :: "nat \<Rightarrow> OrderBook \<Rightarrow> Seq \<Rightarrow> SnapshotBuffer \<Rightarrow> SnapshotBuffer" where
  "serialize_l2 MaxLevels b feed_seq buf =
     (let half = MaxLevels div 2 mod 2 ^ 32;
          (nb, st) = emit_side True 0 half b (sb_levels buf, 0, 0);
          (na, levels, n, chk) = emit_side False 1 half b st
      in \<lparr>sb_header = \<lparr>sh_magic = SNAPSHOT_MAGIC, sh_version = SNAPSHOT_VERSION, sh_level_count = of_nat n,
            sh_feed_seq = feed_seq, sh_bid_levels = of_nat nb, sh_ask_levels = of_nat na, sh_checksum = chk\<rparr>,
          sb_levels = levels\<rparr>)"

section \<open>What it writes\<close>

definition emit_all :: "8 word \<Rightarrow> PriceLevel list \<Rightarrow> l2_state \<Rightarrow> l2_state" where
  "emit_all side ls st = fold (\<lambda>l. emit_level l side) ls st"

lemma emit_all_state:
  "emit_all side ls (lv, n, chk) =
     ((\<lambda>i. if n \<le> i \<and> i < n + length ls then snapshot_level side (ls ! (i - n)) else lv i),
      n + length ls, chk + sum_list (map (level_hash \<circ> snapshot_level side) ls))"
proof (induction ls arbitrary: lv n chk)
  case (Cons l ls)
  have "emit_all side (l # ls) (lv, n, chk) =
      emit_all side ls (lv(n := snapshot_level side l), Suc n, chk + level_hash (snapshot_level side l))"
    by (simp add: emit_all_def emit_level_def Let_def)
  also have "\<dots> = ((\<lambda>i. if n \<le> i \<and> i < n + length (l # ls) then snapshot_level side ((l # ls) ! (i - n)) else lv i),
      n + length (l # ls), chk + sum_list (map (level_hash \<circ> snapshot_level side) (l # ls)))"
    unfolding Cons.IH by (auto simp: fun_eq_iff nth_Cons' Suc_diff_Suc)
  finally show ?case .
qed (auto simp: emit_all_def fun_eq_iff)

lemma emit_loop:
  assumes "chain (n_succ t) pv p xs NIL" "NIL \<notin> set xs"
  shows "\<exists>it. while (\<lambda>(it, k, st). it \<noteq> NIL \<and> k < half)
      (\<lambda>(it, k, st). (rb_next t it, Suc k, emit_level (n_val t it) side st)) (first NIL xs, k, st) =
    (it, k + length (take (half - k) xs), emit_all side (map (n_val t) (take (half - k) xs)) st)"
  using assms
proof (induction xs arbitrary: k st p)
  case Nil
  show ?case by (subst while_unfold) (simp add: emit_all_def)
next
  case (Cons x xs)
  have nx: "rb_next t x = first NIL xs" using Cons.prems(1) by (simp add: rb_next_def)
  show ?case
  proof (cases "k < half")
    case True
    then have d: "half - k = Suc (half - Suc k)" by simp
    obtain q where "chain (n_succ t) pv q xs NIL" using Cons.prems(1) by auto
    from Cons.IH [OF this, of "Suc k" "emit_level (n_val t x) side st"] Cons.prems(2) obtain it where
      "while (\<lambda>(it, k, st). it \<noteq> NIL \<and> k < half) (\<lambda>(it, k, st). (rb_next t it, Suc k, emit_level (n_val t it) side st))
        (first NIL xs, Suc k, emit_level (n_val t x) side st) =
       (it, Suc k + length (take (half - Suc k) xs),
        emit_all side (map (n_val t) (take (half - Suc k) xs)) (emit_level (n_val t x) side st))" by auto
    then show ?thesis using True Cons.prems(2) nx
      by (subst while_unfold) (simp add: d emit_all_def)
  next
    case False
    then show ?thesis by (subst while_unfold) (simp add: emit_all_def)
  qed
qed

lemma emit_side_levels:
  assumes "book_ok b L"
  shows "emit_side buy side half b st =
    (length (take half (book_levels buy b)), emit_all side (take half (book_levels buy b)) st)"
proof -
  note ix = index_ok_rep [OF book_okD(5) [OF assms, of buy]]
  let ?t = "index_of buy b" and ?xs = "map fst (L buy)"
  have lv: "book_levels buy b = map (n_val ?t) ?xs"
    by (simp add: book_levels_shape [OF assms] get_level_def split_beta)
  from emit_loop [OF ix(5,2), where k = 0 and half = half and side = side and st = st] show ?thesis
    unfolding emit_side_def Let_def ix(3) lv by (auto simp: take_map)
qed

lemma serialize_l2_eq:
  assumes "book_ok b L" "MaxLevels < 2 ^ 32"
  defines "bs \<equiv> take (MaxLevels div 2) (book_levels True b)" and "as \<equiv> take (MaxLevels div 2) (book_levels False b)"
  shows "serialize_l2 MaxLevels b seq buf =
    \<lparr>sb_header = \<lparr>sh_magic = SNAPSHOT_MAGIC, sh_version = SNAPSHOT_VERSION, sh_level_count = of_nat (length bs + length as),
       sh_feed_seq = seq, sh_bid_levels = of_nat (length bs), sh_ask_levels = of_nat (length as),
       sh_checksum = sum_list (map (level_hash \<circ> snapshot_level 0) bs) + sum_list (map (level_hash \<circ> snapshot_level 1) as)\<rparr>,
     sb_levels = (\<lambda>i. if length bs \<le> i \<and> i < length bs + length as then snapshot_level 1 (as ! (i - length bs))
       else if i < length bs then snapshot_level 0 (bs ! i) else sb_levels buf i)\<rparr>"
proof -
  have h: "MaxLevels div 2 mod 2 ^ 32 = MaxLevels div 2" using assms(2) by simp
  show ?thesis
    unfolding serialize_l2_def Let_def h emit_side_levels [OF assms(1)] bs_def [symmetric] as_def [symmetric] prod.case emit_all_state
    by (simp add: emit_all_state cong: if_cong)
qed

lemma level_count_words: "MaxLevels < 2 ^ 32 \<Longrightarrow> k \<le> MaxLevels \<Longrightarrow> unat (of_nat k :: 32 word) = k"
  by (simp add: unat_of_nat take_bit_nat_eq_self)

text \<open>
  C32. A snapshot is a faithful L2 image: its first entries are the best \<^verbatim>\<open>MaxLevels/2\<close> bid levels and then
  the best \<^verbatim>\<open>MaxLevels/2\<close> ask levels, each with the exact open quantity and number of orders at its price;
  the counts of the header say how many of each there are, and no index beyond the array is written.
\<close>

theorem serialize_l2_image:
  assumes "book_inv b" "MaxLevels < 2 ^ 32"
  shows "let buf' = serialize_l2 MaxLevels b seq buf; half = MaxLevels div 2;
      bid = take half (book_side b True); ask = take half (book_side b False);
      n = unat (sh_level_count (sb_header buf')) in
    map (\<lambda>i. (sl_side (sb_levels buf' i), sl_price (sb_levels buf' i), unat (sl_total_qty (sb_levels buf' i)),
        unat (sl_order_count (sb_levels buf' i)))) [0..<n] =
      map (\<lambda>l. (0, queue_triple l)) bid @ map (\<lambda>l. (1, queue_triple l)) ask \<and>
    n = length bid + length ask \<and> n \<le> MaxLevels \<and>
    unat (sh_bid_levels (sb_header buf')) = length bid \<and> unat (sh_ask_levels (sb_header buf')) = length ask \<and>
    sh_feed_seq (sb_header buf') = seq \<and> (\<forall>i \<ge> MaxLevels. sb_levels buf' i = sb_levels buf i)"
proof -
  obtain L where L: "book_ok b L" "book_side b = side_view b L" using assms(1) by (rule book_invE)
  let ?h = "MaxLevels div 2"
  define bs where "bs = take ?h (book_levels True b)"
  define as where "as = take ?h (book_levels False b)"
  have le: "length bs + length as \<le> MaxLevels" by (simp add: bs_def as_def)
  let ?buf = "serialize_l2 MaxLevels b seq buf"
  have hd: "sh_level_count (sb_header ?buf) = of_nat (length bs + length as)" "sh_bid_levels (sb_header ?buf) = of_nat (length bs)"
    "sh_ask_levels (sb_header ?buf) = of_nat (length as)" "sh_feed_seq (sb_header ?buf) = seq"
    and lv: "sb_levels ?buf = (\<lambda>i. if length bs \<le> i \<and> i < length bs + length as then snapshot_level 1 (as ! (i - length bs))
      else if i < length bs then snapshot_level 0 (bs ! i) else sb_levels buf i)"
    unfolding serialize_l2_eq [OF L(1) assms(2)] bs_def [symmetric] as_def [symmetric] by simp_all
  note n = level_count_words [OF assms(2)]
  have tr: "map level_triple bs = map queue_triple (take ?h (book_side b True))"
    "map level_triple as = map queue_triple (take ?h (book_side b False))"
    using book_levels_exact [OF assms(1)] by (simp_all add: bs_def as_def take_map [symmetric])
  then have len: "length bs = length (take ?h (book_side b True))" "length as = length (take ?h (book_side b False))"
    by (metis length_map)+
  let ?f = "\<lambda>i. (sl_side (sb_levels ?buf i), sl_price (sb_levels ?buf i), unat (sl_total_qty (sb_levels ?buf i)),
      unat (sl_order_count (sb_levels ?buf i)))"
  have "map ?f [0..<length bs + length as] = map (\<lambda>l. (0, level_triple l)) bs @ map (\<lambda>l. (1, level_triple l)) as"
    by (rule nth_equalityI) (auto simp: lv nth_append snapshot_level_def level_triple_def)
  also have "\<dots> = map (Pair 0) (map level_triple bs) @ map (Pair 1) (map level_triple as)" by simp
  finally have img: "map ?f [0..<length bs + length as] =
      map (\<lambda>l. (0, queue_triple l)) (take ?h (book_side b True)) @ map (\<lambda>l. (1, queue_triple l)) (take ?h (book_side b False))"
    unfolding tr by simp
  have un: "unat (sh_level_count (sb_header ?buf)) = length bs + length as" "unat (sh_bid_levels (sb_header ?buf)) = length bs"
    "unat (sh_ask_levels (sb_header ?buf)) = length as"
    unfolding hd by (rule n [OF le] n [OF add_leD1 [OF le]] n [OF add_leD2 [OF le]])+
  have "\<forall>i \<ge> MaxLevels. sb_levels ?buf i = sb_levels buf i" using le by (auto simp: lv)
  then show ?thesis unfolding Let_def un using img le len hd(4) by (simp only: simp_thms)
qed

theorem serialize_l2_image_witness:
  "\<forall>buf. let buf' = serialize_l2 56 book1 9 buf in
    unat (sh_level_count (sb_header buf')) = 1 \<and> sh_feed_seq (sb_header buf') = 9 \<and>
    unat (sh_bid_levels (sb_header buf')) = 0 \<and> unat (sh_ask_levels (sb_header buf')) = 1"
proof -
  have "book_inv book1" using book1_ok by (simp add: engine_ok_def)
  from serialize_l2_image [OF this, of 56 9] show ?thesis
    by (simp add: Let_def book1_sides)
qed

text \<open>
  The checksum that the writer stores is the one a reader computes over the entries it received: the
  64-bit sum of every entry's fields, over exactly the entries that the header counts.
\<close>

theorem serialize_l2_checksum:
  assumes "book_inv b" "MaxLevels < 2 ^ 32"
  shows "let buf' = serialize_l2 MaxLevels b seq buf in
    sh_checksum (sb_header buf') =
      sum_list (map (\<lambda>i. level_hash (sb_levels buf' i)) [0..<unat (sh_level_count (sb_header buf'))])"
proof -
  obtain L where L: "book_ok b L" using assms(1) by (rule book_invE)
  define bs where "bs = take (MaxLevels div 2) (book_levels True b)"
  define as where "as = take (MaxLevels div 2) (book_levels False b)"
  have "length bs + length as \<le> MaxLevels" by (simp add: bs_def as_def)
  note n = level_count_words [OF assms(2) this]
  let ?buf = "serialize_l2 MaxLevels b seq buf"
  have hd: "sh_level_count (sb_header ?buf) = of_nat (length bs + length as)"
    "sh_checksum (sb_header ?buf) = sum_list (map (level_hash \<circ> snapshot_level 0) bs) + sum_list (map (level_hash \<circ> snapshot_level 1) as)"
    and lv: "sb_levels ?buf = (\<lambda>i. if length bs \<le> i \<and> i < length bs + length as then snapshot_level 1 (as ! (i - length bs))
      else if i < length bs then snapshot_level 0 (bs ! i) else sb_levels buf i)"
    unfolding serialize_l2_eq [OF L assms(2)] bs_def [symmetric] as_def [symmetric] by simp_all
  have "map (\<lambda>i. level_hash (sb_levels ?buf i)) [0..<length bs + length as] =
      map (level_hash \<circ> snapshot_level 0) bs @ map (level_hash \<circ> snapshot_level 1) as"
    by (rule nth_equalityI) (auto simp: lv nth_append)
  then show ?thesis unfolding Let_def hd n by simp
qed

theorem serialize_l2_checksum_witness:
  "\<forall>buf. let buf' = serialize_l2 56 book1 9 buf in
    sh_checksum (sb_header buf') =
      sum_list (map (\<lambda>i. level_hash (sb_levels buf' i)) [0..<unat (sh_level_count (sb_header buf'))])"
proof -
  have "book_inv book1" using book1_ok by (simp add: engine_ok_def)
  from serialize_l2_checksum [OF this, of 56 9] show ?thesis by simp
qed

end
