(* ===== verification/Pipeline.thy ===== *)
theory Pipeline
  imports Sequencer Spsc_Ring Snapshot
begin

text \<open>
  The server of \<^verbatim>\<open>src/main.cpp\<close>: gateways, sequencer, matcher and publisher as threads that share the two rings, in any
  interleaving. A step of a thread is one attempt to publish, one wave of a batch, the start of a batch of a ring, one item of it handled, or its end,
  which frees the slots; what a thread does in between touches only its own state.

  \<^item> The inbound ring is the list of orders in it; \<^verbatim>\<open>Mpsc_Ring\<close> shows that it is a queue. A batch that the sequencer takes is
    any prefix of it.
  \<^item> The publisher hands its batches to \<^verbatim>\<open>udp.publish\<close>, which \<^verbatim>\<open>Udp_Publisher\<close> models; here they are collected
    in \<open>pb_udp\<close>. The lines that it prints are left out.
  \<^item> The snapshots that the matcher serialises are collected in \<open>mt_snaps\<close>; \<^verbatim>\<open>Snapshot_Pool\<close> shows how they reach the snapshot thread.
\<close>

section \<open>Constants\<close>

definition RING_BITS :: nat where
  "RING_BITS = 20"

definition MAX_NODES :: nat where
  "MAX_NODES = 2 ^ 16"

definition ID_CAP :: nat where
  "ID_CAP = 2 ^ 22"

definition WAL_CAP :: "64 word" where
  "WAL_CAP = 2 ^ 22"

definition PUB_HWM :: nat where
  "PUB_HWM = 2 ^ 12"

definition SNAP_MAX_LEVELS :: nat where
  "SNAP_MAX_LEVELS = 56"

definition SNAPSHOT_EVERY :: "64 word" where
  "SNAPSHOT_EVERY = 10000"

definition EgressSink_HWM :: nat where
  "EgressSink_HWM = 2 ^ 14"

definition hash_trade :: "TradeEvent \<Rightarrow> 64 word" where
  "hash_trade t = te_taker_id t + te_maker_id t + of_int (te_price t) + ucast (te_quantity t) + ucast (te_status t)"

section \<open>The egress sink\<close>

text \<open>\<open>es_out\<close> is what has been given to \<^verbatim>\<open>egress.publish_batch\<close> and is not in the ring yet.\<close>

record EgressSink =
  es_buf :: "TradeEvent list"
  es_out :: "TradeEvent list"

definition sink_try_publish :: "TradeEvent \<Rightarrow> EgressSink \<Rightarrow> EgressSink" where
  "sink_try_publish t s =
     (let s = s\<lparr>es_buf := es_buf s @ [t]\<rparr> in
      if length (es_buf s) \<ge> EgressSink_HWM then s\<lparr>es_out := es_out s @ es_buf s, es_buf := []\<rparr> else s)"

definition sink_flush :: "EgressSink \<Rightarrow> EgressSink" where
  "sink_flush s = (if es_buf s \<noteq> [] then s\<lparr>es_out := es_out s @ es_buf s, es_buf := []\<rparr> else s)"

section \<open>The threads\<close>

text \<open>
  \<open>mt_log\<close> is the list of all events that the matcher has emitted. \<open>mt_seq\<close>, \<open>mt_avail\<close> and \<open>pb_seq\<close>, \<open>pb_avail\<close> are the local variables
  \<^verbatim>\<open>seq\<close> and \<^verbatim>\<open>avail\<close> of the thread's \<^verbatim>\<open>consume_batch\<close>.
\<close>

record matcher_thread =
  mt_book :: OrderBook
  mt_log :: "TradeEvent list"
  mt_sink :: EgressSink
  mt_seq :: "64 word"
  mt_avail :: "64 word"
  mt_processed :: "64 word"
  mt_snaps :: "SnapshotBuffer list"
  mt_done :: bool

record publisher_thread =
  pb_seq :: "64 word"
  pb_avail :: "64 word"
  pb_batch :: "TradeEvent list"
  pb_udp :: "TradeEvent list list"
  pb_total :: "64 word"
  pb_chk :: "64 word"
  pb_done :: bool

text \<open>\<open>pl_batch\<close> is the rest of the batch that \<^verbatim>\<open>Sequencer::run\<close> works on, \<open>pl_spin\<close> the order whose \<^verbatim>\<open>try_publish\<close> is being repeated.\<close>

record Pipeline =
  pl_arrived :: "Order list"
  pl_inbound :: "Order list"
  pl_gateway_stopped :: bool
  pl_batch :: "Order list"
  pl_spin :: "Order option"
  pl_sequencer :: Sequencer
  pl_wal :: Journaler
  pl_sequencer_done :: bool
  pl_ingress :: "Order SpscRing"
  pl_matcher :: matcher_thread
  pl_egress :: "TradeEvent SpscRing"
  pl_publisher :: publisher_thread
  pl_aborted :: bool

definition blank_snapshot :: SnapshotBuffer where
  "blank_snapshot = \<lparr>sb_header = \<lparr>sh_magic = 0, sh_version = 0, sh_level_count = 0, sh_feed_seq = 0, sh_bid_levels = 0,
     sh_ask_levels = 0, sh_checksum = 0\<rparr>, sb_levels = (\<lambda>_. \<lparr>sl_price = 0, sl_total_qty = 0, sl_order_count = 0, sl_side = 0\<rparr>)\<rparr>"

definition pipeline_init :: "Pipeline" where
  "pipeline_init = \<lparr>pl_arrived = [], pl_inbound = [], pl_gateway_stopped = False, pl_batch = [], pl_spin = None,
     pl_sequencer = sequencer_init 1024 64, pl_wal = fresh_wal WAL_CAP, pl_sequencer_done = False,
     pl_ingress = spsc_init zero_order,
     pl_matcher = \<lparr>mt_book = book_init MAX_NODES ID_CAP (2 ^ 16), mt_log = [], mt_sink = \<lparr>es_buf = [], es_out = []\<rparr>,
       mt_seq = 0, mt_avail = 0, mt_processed = 0, mt_snaps = [], mt_done = False\<rparr>,
     pl_egress = spsc_init (reject_event zero_order),
     pl_publisher = \<lparr>pb_seq = 0, pb_avail = 0, pb_batch = [], pb_udp = [], pb_total = 0, pb_chk = 0, pb_done = False\<rparr>, pl_aborted = False\<rparr>"

text \<open>The gateways: an order arrives, or they have all stopped.\<close>

definition arrive :: "Order \<Rightarrow> Pipeline \<Rightarrow> Pipeline" where
  "arrive o' p = (if pl_gateway_stopped p \<or> pl_aborted p then p
     else p\<lparr>pl_arrived := pl_arrived p @ [o'], pl_inbound := pl_inbound p @ [o']\<rparr>)"

definition stop_gateways :: "Pipeline \<Rightarrow> Pipeline" where
  "stop_gateways p = p\<lparr>pl_gateway_stopped := True\<rparr>"

text \<open>
  \<^verbatim>\<open>Sequencer::run\<close> with \<^verbatim>\<open>publish\<close>: repeat the attempt to publish; else stamp and journal the next order of the batch, which ends the
  process when the log is full; else take the next batch (\<open>n\<close> orders), or flush and finish.
\<close>

definition sequencer_step :: "64 word \<Rightarrow> nat \<Rightarrow> Pipeline \<Rightarrow> Pipeline" where
  "sequencer_step pg n p =
     (if pl_aborted p \<or> pl_sequencer_done p then p
      else case pl_spin p of
        Some o' \<Rightarrow>
          let (ok, r) = spsc_try_publish RING_BITS o' (pl_ingress p); p = p\<lparr>pl_ingress := r\<rparr> in
          if ok then
            let (s, j) = publish_cadence pg (pl_sequencer p, pl_wal p)
            in p\<lparr>pl_spin := None, pl_sequencer := s, pl_wal := j\<rparr>
          else p
      | None \<Rightarrow>
          case pl_batch p of
            o' # os \<Rightarrow>
              (case publish_begin o' (pl_sequencer p, pl_wal p) of
                 Inl e \<Rightarrow> p\<lparr>pl_aborted := True\<rparr>
               | Inr (o2, s, j) \<Rightarrow> p\<lparr>pl_batch := os, pl_spin := Some o2, pl_sequencer := s, pl_wal := j\<rparr>)
          | [] \<Rightarrow>
              if \<not> pl_gateway_stopped p \<or> pl_inbound p \<noteq> []
              then p\<lparr>pl_batch := take n (pl_inbound p), pl_inbound := drop n (pl_inbound p)\<rparr>
              else let (s, j) = sequencer_flush pg (pl_sequencer p, pl_wal p)
                   in p\<lparr>pl_sequencer := s, pl_wal := j, pl_sequencer_done := True\<rparr>)"

text \<open>The handler of the matcher thread: match one order, and take a snapshot after every 10000th.\<close>

definition matcher_handle :: "Order \<Rightarrow> matcher_thread \<Rightarrow> matcher_thread" where
  "matcher_handle inc m =
     (let (r, b, log) = submit inc (mt_book m, mt_log m);
          evs = drop (length (mt_log m)) log;
          m = m\<lparr>mt_book := b, mt_log := log, mt_sink := fold sink_try_publish evs (mt_sink m), mt_processed := mt_processed m + 1\<rparr> in
      if mt_processed m mod SNAPSHOT_EVERY = 0
      then m\<lparr>mt_snaps := mt_snaps m @ [serialize_l2 SNAP_MAX_LEVELS b (o_seq inc) blank_snapshot]\<rparr>
      else m)"

definition matcher_step :: "Pipeline \<Rightarrow> Pipeline" where
  "matcher_step p =
     (let m = pl_matcher p; ring = pl_ingress p in
      if pl_aborted p \<or> mt_done m then p
      else if es_out (mt_sink m) \<noteq> [] then
        let (t, r) = spsc_publish_wave RING_BITS (es_out (mt_sink m)) (pl_egress p)
        in p\<lparr>pl_egress := r, pl_matcher := m\<lparr>mt_sink := (mt_sink m)\<lparr>es_out := drop t (es_out (mt_sink m))\<rparr>\<rparr>\<rparr>
      else if mt_seq m \<noteq> mt_avail m then
        p\<lparr>pl_matcher := (matcher_handle (spsc_batch_item RING_BITS (mt_seq m) ring) m)\<lparr>mt_seq := mt_seq m + 1\<rparr>\<rparr>
      else if mt_seq m \<noteq> sp_next ring then p\<lparr>pl_ingress := spsc_batch_close (mt_seq m) ring\<rparr>
      else if es_buf (mt_sink m) \<noteq> [] then p\<lparr>pl_matcher := m\<lparr>mt_sink := sink_flush (mt_sink m)\<rparr>\<rparr>
      else if \<not> pl_sequencer_done p \<or> \<not> spsc_empty_approx ring then
        let (avail, r) = spsc_batch_open ring
        in p\<lparr>pl_ingress := r, pl_matcher := m\<lparr>mt_avail := avail\<rparr>\<rparr>
      else p\<lparr>pl_matcher := m\<lparr>mt_done := True\<rparr>\<rparr>)"

definition publisher_flush :: "publisher_thread \<Rightarrow> publisher_thread" where
  "publisher_flush b =
     (if pb_batch b \<noteq> [] then b\<lparr>pb_udp := pb_udp b @ [pb_batch b], pb_total := pb_total b + of_nat (length (pb_batch b)), pb_batch := []\<rparr>
      else b)"

definition publisher_handle :: "TradeEvent \<Rightarrow> publisher_thread \<Rightarrow> publisher_thread" where
  "publisher_handle t b =
     (let b = b\<lparr>pb_chk := pb_chk b + hash_trade t, pb_batch := pb_batch b @ [t]\<rparr>
      in if length (pb_batch b) \<ge> PUB_HWM then publisher_flush b else b)"

definition publisher_step :: "Pipeline \<Rightarrow> Pipeline" where
  "publisher_step p =
     (let b = pl_publisher p; ring = pl_egress p in
      if pl_aborted p \<or> pb_done b then p
      else if pb_seq b \<noteq> pb_avail b then
        p\<lparr>pl_publisher := (publisher_handle (spsc_batch_item RING_BITS (pb_seq b) ring) b)\<lparr>pb_seq := pb_seq b + 1\<rparr>\<rparr>
      else if pb_seq b \<noteq> sp_next ring then
        p\<lparr>pl_egress := spsc_batch_close (pb_seq b) ring, pl_publisher := publisher_flush b\<rparr>
      else if \<not> mt_done (pl_matcher p) \<or> \<not> spsc_empty_approx ring then
        let (avail, r) = spsc_batch_open ring
        in p\<lparr>pl_egress := r, pl_publisher := b\<lparr>pb_avail := avail\<rparr>\<rparr>
      else p\<lparr>pl_publisher := (publisher_flush b)\<lparr>pb_done := True\<rparr>\<rparr>)"

inductive pipeline_reach :: "64 word \<Rightarrow> Pipeline \<Rightarrow> bool" for pg where
  start: "pipeline_reach pg pipeline_init"
| arrival: "pipeline_reach pg p \<Longrightarrow> pipeline_reach pg (arrive o' p)"
| stop: "pipeline_reach pg p \<Longrightarrow> pipeline_reach pg (stop_gateways p)"
| sequence: "pipeline_reach pg p \<Longrightarrow> pipeline_reach pg (sequencer_step pg n p)"
| match: "pipeline_reach pg p \<Longrightarrow> pipeline_reach pg (matcher_step p)"
| publish: "pipeline_reach pg p \<Longrightarrow> pipeline_reach pg (publisher_step p)"

section \<open>Invariant\<close>

definition start_state :: "OrderBook \<times> TradeEvent list" where
  "start_state = (book_init MAX_NODES ID_CAP (2 ^ 16), [])"

text \<open>The sequencer: the log holds the first arrivals with their sequence numbers, the rest is still in its batch or in the inbound ring.\<close>

definition seq_inv :: "Pipeline \<Rightarrow> bool" where
  "seq_inv p \<longleftrightarrow> (let n = unat (journal_count (pl_wal p)) in journal_ok (pl_wal p) \<and> jr_capacity (pl_wal p) = WAL_CAP \<and>
     wal_records (pl_wal p) = stamp 0 (take n (pl_arrived p)) \<and> pl_arrived p = take n (pl_arrived p) @ pl_batch p @ pl_inbound p \<and>
     sq_next_seq (pl_sequencer p) = of_nat n) \<and>
     (pl_sequencer_done p \<longrightarrow> pl_gateway_stopped p \<and> pl_batch p = [] \<and> pl_inbound p = [] \<and> pl_spin p = None)"

definition spinning :: "Pipeline \<Rightarrow> Order list" where
  "spinning p = (case pl_spin p of None \<Rightarrow> [] | Some o' \<Rightarrow> [o'])"

text \<open>The way to the matcher: the log is what was matched, what is in the ring and not read yet, and what is about to enter it.\<close>

definition ingress_inv :: "Order list \<Rightarrow> Pipeline \<Rightarrow> bool" where
  "ingress_inv handled p \<longleftrightarrow> (let m = pl_matcher p in spsc_reading RING_BITS (mt_seq m) (mt_avail m) (pl_ingress p) \<and>
     wal_records (pl_wal p) = handled @ spsc_unread RING_BITS (mt_seq m) (pl_ingress p) @ spinning p)"

definition snapshot_after :: "Order list \<Rightarrow> nat \<Rightarrow> SnapshotBuffer" where
  "snapshot_after os m = serialize_l2 SNAP_MAX_LEVELS (fst (run_submits (take m os) start_state)) (of_nat (m - 1)) blank_snapshot"

definition match_inv :: "Order list \<Rightarrow> matcher_thread \<Rightarrow> bool" where
  "match_inv handled m \<longleftrightarrow> run_submits handled start_state = (mt_book m, mt_log m) \<and> engine_ok (mt_book m) \<and>
     mt_processed m = of_nat (length handled) \<and>
     mt_snaps m = map (\<lambda>i. snapshot_after handled (10000 * Suc i)) [0..<length handled div 10000]"

text \<open>The way to the feed: what the matcher emitted has been published, or is in the publisher's batch, in the ring, or in the sink.\<close>

definition egress_inv :: "Pipeline \<Rightarrow> bool" where
  "egress_inv p \<longleftrightarrow> (let m = pl_matcher p; b = pl_publisher p in spsc_reading RING_BITS (pb_seq b) (pb_avail b) (pl_egress p) \<and>
     mt_log m = concat (pb_udp b) @ pb_batch b @ spsc_unread RING_BITS (pb_seq b) (pl_egress p) @ es_out (mt_sink m) @ es_buf (mt_sink m) \<and>
     pb_chk b = sum_list (map hash_trade (concat (pb_udp b) @ pb_batch b)) \<and> pb_total b = of_nat (length (concat (pb_udp b))))"

definition done_inv :: "Pipeline \<Rightarrow> bool" where
  "done_inv p \<longleftrightarrow> (let m = pl_matcher p; b = pl_publisher p in
     (mt_done m \<longrightarrow> pl_sequencer_done p \<and> spsc_contents RING_BITS (pl_ingress p) = [] \<and>
        es_out (mt_sink m) = [] \<and> es_buf (mt_sink m) = []) \<and>
     (pb_done b \<longrightarrow> mt_done m \<and> spsc_contents RING_BITS (pl_egress p) = [] \<and> pb_batch b = []))"

definition pipe_inv :: "Pipeline \<Rightarrow> bool" where
  "pipe_inv p \<longleftrightarrow> seq_inv p \<and> (\<exists>handled. ingress_inv handled p \<and> match_inv handled (pl_matcher p)) \<and> egress_inv p \<and> done_inv p"

lemma pipe_invE:
  assumes "pipe_inv p"
  obtains handled where "seq_inv p" "ingress_inv handled p" "match_inv handled (pl_matcher p)" "egress_inv p" "done_inv p"
  using assms by (auto simp: pipe_inv_def)

lemma pipe_invI: "seq_inv p \<Longrightarrow> ingress_inv handled p \<Longrightarrow> match_inv handled (pl_matcher p) \<Longrightarrow> egress_inv p \<Longrightarrow> done_inv p \<Longrightarrow> pipe_inv p"
  by (auto simp: pipe_inv_def)

lemma RING_BITS_ok: "0 < RING_BITS" "RING_BITS < 64"
  by (simp_all add: RING_BITS_def)

lemma pipe_inv_init: "pipe_inv pipeline_init"
proof (rule pipe_invI [where handled = "[]"])
  have "journal_ok (fresh_wal WAL_CAP)" by (rule fresh_wal_ok) (simp add: WAL_CAP_def)
  then show "seq_inv pipeline_init" by (simp add: seq_inv_def pipeline_init_def)
  show "ingress_inv [] pipeline_init"
    by (simp add: ingress_inv_def pipeline_init_def spsc_init_reading RING_BITS_ok spinning_def)
  show "match_inv [] (pl_matcher pipeline_init)"
    using book_init_engine [of MAX_NODES ID_CAP "2 ^ 16"] by (simp add: match_inv_def pipeline_init_def start_state_def MAX_NODES_def)
  show "egress_inv pipeline_init" by (simp add: egress_inv_def pipeline_init_def spsc_init_reading RING_BITS_ok)
  show "done_inv pipeline_init" by (simp add: done_inv_def pipeline_init_def)
qed

lemma arrive_inv: "pipe_inv p \<Longrightarrow> pipe_inv (arrive o' p)"
proof (elim pipe_invE, goal_cases)
  case (1 handled)
  let ?n = "unat (journal_count (pl_wal p))"
  have "?n \<le> length (pl_arrived p)" using 1(1) by (metis seq_inv_def stamp_length wal_records_length length_take min.cobounded1)
  then show ?case
    using 1 by (intro pipe_invI [of _ handled])
      (auto simp: arrive_def seq_inv_def ingress_inv_def egress_inv_def done_inv_def spinning_def Let_def)
qed

lemma stop_inv: "pipe_inv p \<Longrightarrow> pipe_inv (stop_gateways p)"
  by (elim pipe_invE, intro pipe_invI)
    (auto simp: stop_gateways_def seq_inv_def ingress_inv_def egress_inv_def done_inv_def spinning_def Let_def)

section \<open>The sequencer's steps\<close>

text \<open>Steps of the sequencer leave the matcher and the publisher alone.\<close>

lemma pipe_inv_sequencer:
  assumes "pipe_inv p" "seq_inv p'" "\<And>handled. ingress_inv handled p \<Longrightarrow> ingress_inv handled p'" "\<not> pl_sequencer_done p"
    "pl_matcher p' = pl_matcher p" "pl_egress p' = pl_egress p" "pl_publisher p' = pl_publisher p"
  shows "pipe_inv p'"
proof (rule pipe_invE [OF assms(1)])
  fix handled
  assume i: "ingress_inv handled p" "match_inv handled (pl_matcher p)" "egress_inv p" "done_inv p"
  then have "\<not> mt_done (pl_matcher p)" "\<not> pb_done (pl_publisher p)" using assms(4) by (auto simp: done_inv_def Let_def)
  then show ?thesis using i assms(2-) by (intro pipe_invI [of _ handled]) (auto simp: egress_inv_def done_inv_def Let_def)
qed

lemma publish_begin_inv:
  assumes inv: "pipe_inv p" and st: "pl_spin p = None" "pl_batch p = o' # os" "\<not> pl_sequencer_done p"
    and b: "publish_begin o' (pl_sequencer p, pl_wal p) = Inr (o2, s, j)"
  shows "pipe_inv (p\<lparr>pl_batch := os, pl_spin := Some o2, pl_sequencer := s, pl_wal := j\<rparr>)"
proof (rule pipe_inv_sequencer [OF inv _ _ st(3)])
  let ?n = "unat (journal_count (pl_wal p))"
  have q: "journal_ok (pl_wal p)" "wal_records (pl_wal p) = stamp 0 (take ?n (pl_arrived p))"
    "pl_arrived p = take ?n (pl_arrived p) @ (o' # os) @ pl_inbound p" "sq_next_seq (pl_sequencer p) = of_nat ?n"
    "jr_capacity (pl_wal p) = WAL_CAP"
    using inv st by (auto simp: pipe_inv_def seq_inv_def Let_def)
  note c = publish_begin_cases [OF q(1), of "pl_sequencer p" o', unfolded b]
  have len: "length (take ?n (pl_arrived p)) = ?n" using q(2) by (metis stamp_length wal_records_length)
  have tk: "take (Suc ?n) (pl_arrived p) = take ?n (pl_arrived p) @ [o']" using len by (subst q(3)) simp
  have "drop (Suc ?n) (pl_arrived p) = os @ pl_inbound p" using len by (subst q(3)) simp
  then have "pl_arrived p = take (Suc ?n) (pl_arrived p) @ os @ pl_inbound p" by (metis append_take_drop_id)
  then show "seq_inv (p\<lparr>pl_batch := os, pl_spin := Some o2, pl_sequencer := s, pl_wal := j\<rparr>)"
    using c q(2,4,5) tk st(3) len by (simp add: seq_inv_def Let_def stamp_append algebra_simps)
  show "ingress_inv handled (p\<lparr>pl_batch := os, pl_spin := Some o2, pl_sequencer := s, pl_wal := j\<rparr>)" if "ingress_inv handled p" for handled
    using that c st(1) by (simp add: ingress_inv_def spinning_def)
qed simp_all

lemma publish_spin_inv:
  assumes inv: "pipe_inv p" and st: "pl_spin p = Some o'" "\<not> pl_sequencer_done p"
    and t: "spsc_try_publish RING_BITS o' (pl_ingress p) = (ok, r)"
    and k: "publish_cadence pg (pl_sequencer p, pl_wal p) = (s, j)"
  shows "pipe_inv (if ok then p\<lparr>pl_ingress := r, pl_spin := None, pl_sequencer := s, pl_wal := j\<rparr> else p\<lparr>pl_ingress := r\<rparr>)"
proof (rule pipe_inv_sequencer [OF inv _ _ st(2)])
  note f = publish_cadence_frame [OF k]
  show "seq_inv (if ok then p\<lparr>pl_ingress := r, pl_spin := None, pl_sequencer := s, pl_wal := j\<rparr> else p\<lparr>pl_ingress := r\<rparr>)"
    using inv f st(2) by (auto simp: pipe_inv_def seq_inv_def Let_def)
  show "ingress_inv handled (if ok then p\<lparr>pl_ingress := r, pl_spin := None, pl_sequencer := s, pl_wal := j\<rparr> else p\<lparr>pl_ingress := r\<rparr>)"
    if "ingress_inv handled p" for handled
    using that spsc_reading_push [OF _ t] f st(1) by (auto simp: ingress_inv_def spinning_def Let_def)
qed simp_all

lemma sequencer_step_inv:
  assumes "pipe_inv p"
  shows "pipe_inv (sequencer_step pg n p)"
proof (cases "pl_aborted p \<or> pl_sequencer_done p")
  case False
  then have nd: "\<not> pl_sequencer_done p" by simp
  show ?thesis
  proof (cases "pl_spin p")
    case (Some o')
    obtain ok r where t: "spsc_try_publish RING_BITS o' (pl_ingress p) = (ok, r)" by force
    obtain s j where k: "publish_cadence pg (pl_sequencer p, pl_wal p) = (s, j)" by force
    show ?thesis using publish_spin_inv [OF assms Some nd t k] False Some t k by (simp add: sequencer_step_def split: if_splits)
  next
    case None
    have spin: "spinning p = []" using None by (simp add: spinning_def)
    show ?thesis
    proof (cases "pl_batch p")
      case (Cons o' os)
      show ?thesis
      proof (cases "publish_begin o' (pl_sequencer p, pl_wal p)")
        case (Inl e)
        then have "sequencer_step pg n p = p\<lparr>pl_aborted := True\<rparr>" using False None Cons by (simp add: sequencer_step_def)
        moreover have "seq_inv p" using assms by (simp add: pipe_inv_def)
        ultimately show ?thesis by (intro pipe_inv_sequencer [OF assms _ _ nd]) (simp_all add: seq_inv_def ingress_inv_def spinning_def)
      next
        case (Inr x)
        then obtain o2 s j where x: "publish_begin o' (pl_sequencer p, pl_wal p) = Inr (o2, s, j)" by (cases x) auto
        then show ?thesis using publish_begin_inv [OF assms None Cons nd x] False None Cons by (simp add: sequencer_step_def)
      qed
    next
      case Nil
      show ?thesis
      proof (rule pipe_inv_sequencer [OF assms _ _ nd])
        show "seq_inv (sequencer_step pg n p)"
          using assms False None Nil by (auto simp: sequencer_step_def pipe_inv_def seq_inv_def sequencer_flush_def Let_def)
        show "ingress_inv handled (sequencer_step pg n p)" if "ingress_inv handled p" for handled
          using that False None Nil by (simp add: sequencer_step_def ingress_inv_def spinning_def sequencer_flush_def)
      qed (use False None Nil in \<open>simp_all add: sequencer_step_def sequencer_flush_def\<close>)
    qed
  qed
qed (use assms in \<open>simp add: sequencer_step_def\<close>)

section \<open>The matcher's steps\<close>

lemma sink_contents: "es_out (fold sink_try_publish evs s) @ es_buf (fold sink_try_publish evs s) = es_out s @ es_buf s @ evs"
  by (induction evs arbitrary: s) (simp_all add: sink_try_publish_def Let_def)

lemma matcher_handle_frame [frame, simp]:
  "mt_seq (matcher_handle inc m) = mt_seq m" "mt_avail (matcher_handle inc m) = mt_avail m" "mt_done (matcher_handle inc m) = mt_done m"
  by (simp_all add: matcher_handle_def Let_def split: prod.splits)

lemma matcher_handle_inv:
  assumes m: "match_inv handled m" and q: "o_seq inc = of_nat (length handled)" "Suc (length handled) < 2 ^ 64"
  shows "match_inv (handled @ [inc]) (matcher_handle inc m)"
    "\<exists>evs. mt_log (matcher_handle inc m) = mt_log m @ evs \<and>
       es_out (mt_sink (matcher_handle inc m)) @ es_buf (mt_sink (matcher_handle inc m)) = es_out (mt_sink m) @ es_buf (mt_sink m) @ evs"
proof -
  obtain r b log where s: "submit inc (mt_book m, mt_log m) = (r, b, log)" by (metis prod_cases3)
  have run: "run_submits handled start_state = (mt_book m, mt_log m)" "engine_ok (mt_book m)"
    and pr: "mt_processed m = of_nat (length handled)" using m by (auto simp: match_inv_def)
  obtain evs where evs: "log = mt_log m @ evs" "engine_ok b" using submit_book [OF run(2) s] by metis
  define m' where "m' = m\<lparr>mt_book := b, mt_log := log, mt_sink := fold sink_try_publish evs (mt_sink m), mt_processed := mt_processed m + 1\<rparr>"
  have h: "matcher_handle inc m = (if (mt_processed m + 1) mod SNAPSHOT_EVERY = 0
      then m'\<lparr>mt_snaps := mt_snaps m @ [serialize_l2 SNAP_MAX_LEVELS b (o_seq inc) blank_snapshot]\<rparr> else m')"
    using s evs(1) by (simp add: matcher_handle_def m'_def Let_def)
  show "\<exists>evs. mt_log (matcher_handle inc m) = mt_log m @ evs \<and>
       es_out (mt_sink (matcher_handle inc m)) @ es_buf (mt_sink (matcher_handle inc m)) = es_out (mt_sink m) @ es_buf (mt_sink m) @ evs"
    using sink_contents [of evs "mt_sink m"] evs(1) by (intro exI [of _ evs]) (simp add: h m'_def)
  have run': "run_submits (handled @ [inc]) start_state = (b, log)" using run(1) s by simp
  let ?k = "Suc (length handled)"
  have "mt_processed m + 1 = of_nat ?k" using pr by simp
  then have "unat (mt_processed m + 1) = ?k" using q(2) by (simp add: unat_of_nat take_bit_nat_eq_self del: of_nat_Suc)
  then have due: "(mt_processed m + 1) mod SNAPSHOT_EVERY = 0 \<longleftrightarrow> ?k mod 10000 = 0"
    by (simp add: word_unat_eq_iff unat_mod SNAPSHOT_EVERY_def)
  have snap: "serialize_l2 SNAP_MAX_LEVELS b (o_seq inc) blank_snapshot = snapshot_after (handled @ [inc]) ?k"
    using run' q(1) by (simp add: snapshot_after_def)
  have old: "snapshot_after (handled @ [inc]) (10000 * Suc i) = snapshot_after handled (10000 * Suc i)" if "i < length handled div 10000" for i
  proof -
    have "10000 * Suc i \<le> length handled" using that by (simp add: less_eq_div_iff_mult_less_eq Suc_le_eq)
    then show ?thesis by (simp add: snapshot_after_def)
  qed
  have snaps: "mt_snaps m = map (\<lambda>i. snapshot_after (handled @ [inc]) (10000 * Suc i)) [0..<length handled div 10000]"
    using m old by (simp add: match_inv_def)
  have "mt_snaps (matcher_handle inc m) = map (\<lambda>i. snapshot_after (handled @ [inc]) (10000 * Suc i)) [0..<?k div 10000]"
  proof (cases "?k mod 10000 = 0")
    case True
    then have d: "?k div 10000 = Suc (length handled div 10000)" by (simp add: div_Suc)
    moreover have "10000 * (?k div 10000) = ?k" using True mult_div_mod_eq [of 10000 ?k] by simp
    ultimately have "10000 * Suc (length handled div 10000) = ?k" by simp
    then show ?thesis using True d due snap snaps by (simp add: h m'_def del: mult_Suc_right)
  next
    case False
    then show ?thesis using due snaps by (simp add: h m'_def div_Suc)
  qed
  moreover have "mt_book (matcher_handle inc m) = b" "mt_log (matcher_handle inc m) = log" "mt_processed (matcher_handle inc m) = of_nat ?k"
    using pr by (simp_all add: h m'_def)
  ultimately show "match_inv (handled @ [inc]) (matcher_handle inc m)" using run' evs(2) by (simp add: match_inv_def)
qed

lemma match_inv_cong:
  "mt_book m' = mt_book m \<Longrightarrow> mt_log m' = mt_log m \<Longrightarrow> mt_processed m' = mt_processed m \<Longrightarrow> mt_snaps m' = mt_snaps m \<Longrightarrow>
   match_inv handled m \<Longrightarrow> match_inv handled m'"
  by (simp add: match_inv_def)

text \<open>Steps of the matcher leave the sequencer and the publisher alone.\<close>

lemma pipe_inv_matcher:
  assumes inv: "pipe_inv p" "\<not> mt_done (pl_matcher p)" "\<not> mt_done m'"
    and ing: "spsc_reading RING_BITS (mt_seq m') (mt_avail m') r"
      "wal_records (pl_wal p) = handled @ spsc_unread RING_BITS (mt_seq m') r @ spinning p" "match_inv handled m'"
    and eg: "spsc_reading RING_BITS (pb_seq (pl_publisher p)) (pb_avail (pl_publisher p)) e"
      "mt_log m' = concat (pb_udp (pl_publisher p)) @ pb_batch (pl_publisher p) @ spsc_unread RING_BITS (pb_seq (pl_publisher p)) e @
      es_out (mt_sink m') @ es_buf (mt_sink m')"
  shows "pipe_inv (p\<lparr>pl_matcher := m', pl_ingress := r, pl_egress := e\<rparr>)"
proof (rule pipe_invI [of _ handled])
  have p: "seq_inv p" "egress_inv p" "done_inv p" using inv(1) by (auto simp: pipe_inv_def)
  show "seq_inv (p\<lparr>pl_matcher := m', pl_ingress := r, pl_egress := e\<rparr>)" using p(1) by (simp add: seq_inv_def)
  show "ingress_inv handled (p\<lparr>pl_matcher := m', pl_ingress := r, pl_egress := e\<rparr>)" using ing by (simp add: ingress_inv_def spinning_def)
  show "egress_inv (p\<lparr>pl_matcher := m', pl_ingress := r, pl_egress := e\<rparr>)" using p(2) eg by (simp add: egress_inv_def Let_def)
  show "done_inv (p\<lparr>pl_matcher := m', pl_ingress := r, pl_egress := e\<rparr>)" using p(3) inv(2,3) by (auto simp: done_inv_def Let_def)
qed (simp add: ing)

text \<open>The next order that the matcher reads carries the number of orders that were matched before.\<close>

lemma next_order_seq:
  assumes "seq_inv p" "ingress_inv handled p" "spsc_unread RING_BITS (mt_seq (pl_matcher p)) (pl_ingress p) = o' # os"
  shows "o_seq o' = of_nat (length handled)" "Suc (length handled) < 2 ^ 64"
proof -
  let ?n = "unat (journal_count (pl_wal p))" and ?w = "wal_records (pl_wal p)"
  have w: "?w = stamp 0 (take ?n (pl_arrived p))" using assms(1) by (simp add: seq_inv_def Let_def)
  have len: "length ?w = ?n" by simp
  have "?w = handled @ o' # os @ spinning p" using assms(2,3) by (simp add: ingress_inv_def Let_def)
  then have o: "?w ! length handled = o'" "length handled < ?n" using len by (auto simp: nth_append simp del: wal_records_length)
  then have "length handled < length (take ?n (pl_arrived p))" using w len by (metis stamp_length)
  then show "o_seq o' = of_nat (length handled)" unfolding o(1) [symmetric] w by (simp add: stamp_nth)
  show "Suc (length handled) < 2 ^ 64" using o(2) unsigned_less [of "journal_count (pl_wal p)", where ?'a = nat] by simp
qed

lemma matcher_item_inv:
  assumes inv: "pipe_inv p" "\<not> mt_done (pl_matcher p)" "es_out (mt_sink (pl_matcher p)) = []" "mt_seq (pl_matcher p) \<noteq> mt_avail (pl_matcher p)"
  shows "pipe_inv (p\<lparr>pl_matcher := (matcher_handle (spsc_batch_item RING_BITS (mt_seq (pl_matcher p)) (pl_ingress p)) (pl_matcher p))
    \<lparr>mt_seq := mt_seq (pl_matcher p) + 1\<rparr>\<rparr>)"
proof -
  let ?m = "pl_matcher p"
  let ?o = "spsc_batch_item RING_BITS (mt_seq ?m) (pl_ingress p)"
  let ?m' = "(matcher_handle ?o ?m)\<lparr>mt_seq := mt_seq ?m + 1\<rparr>"
  from inv(1) obtain handled where i: "seq_inv p" "ingress_inv handled p" "match_inv handled ?m" "egress_inv p" by (rule pipe_invE)
  have ing: "spsc_reading RING_BITS (mt_seq ?m) (mt_avail ?m) (pl_ingress p)"
    "wal_records (pl_wal p) = handled @ spsc_unread RING_BITS (mt_seq ?m) (pl_ingress p) @ spinning p"
    using i(2) by (simp_all add: ingress_inv_def Let_def)
  note it = spsc_batch_item [OF ing(1) inv(4)]
  note h = matcher_handle_inv [OF i(3) next_order_seq [OF i(1,2) it(2)]]
  obtain evs where "mt_log (matcher_handle ?o ?m) = mt_log ?m @ evs"
    "es_out (mt_sink (matcher_handle ?o ?m)) @ es_buf (mt_sink (matcher_handle ?o ?m)) = es_out (mt_sink ?m) @ es_buf (mt_sink ?m) @ evs"
    using h(2) by blast
  moreover have "match_inv (handled @ [?o]) ?m'" by (rule match_inv_cong [OF _ _ _ _ h(1)]) simp_all
  moreover have "spsc_reading RING_BITS (mt_seq ?m') (mt_avail ?m') (pl_ingress p)" using it(1) by simp
  moreover have "wal_records (pl_wal p) = (handled @ [?o]) @ spsc_unread RING_BITS (mt_seq ?m') (pl_ingress p) @ spinning p" using ing(2) it(2) by simp
  ultimately show ?thesis
    using pipe_inv_matcher [OF inv(1,2), of ?m' "pl_ingress p" "handled @ [?o]" "pl_egress p"] i(4) inv(2,3)
    by (simp add: egress_inv_def Let_def)
qed

lemma matcher_step_inv:
  assumes inv: "pipe_inv p"
  shows "pipe_inv (matcher_step p)"
proof (cases "pl_aborted p \<or> mt_done (pl_matcher p)")
  case False
  let ?m = "pl_matcher p" and ?b = "pl_publisher p"
  from inv obtain handled where i: "seq_inv p" "ingress_inv handled p" "match_inv handled ?m" "egress_inv p" by (rule pipe_invE)
  have ing: "spsc_reading RING_BITS (mt_seq ?m) (mt_avail ?m) (pl_ingress p)"
    "wal_records (pl_wal p) = handled @ spsc_unread RING_BITS (mt_seq ?m) (pl_ingress p) @ spinning p"
    using i(2) by (simp_all add: ingress_inv_def Let_def)
  have eg: "spsc_reading RING_BITS (pb_seq ?b) (pb_avail ?b) (pl_egress p)" "mt_log ?m = concat (pb_udp ?b) @ pb_batch ?b @
      spsc_unread RING_BITS (pb_seq ?b) (pl_egress p) @ es_out (mt_sink ?m) @ es_buf (mt_sink ?m)"
    using i(4) by (simp_all add: egress_inv_def Let_def)
  have nd: "\<not> mt_done ?m" using False by simp
  consider (wave) "es_out (mt_sink ?m) \<noteq> []" | (item) "es_out (mt_sink ?m) = []" "mt_seq ?m \<noteq> mt_avail ?m"
    | (close) "es_out (mt_sink ?m) = []" "mt_seq ?m = mt_avail ?m" "mt_seq ?m \<noteq> sp_next (pl_ingress p)"
    | (flush) "es_out (mt_sink ?m) = []" "mt_seq ?m = mt_avail ?m" "mt_seq ?m = sp_next (pl_ingress p)" "es_buf (mt_sink ?m) \<noteq> []"
    | (idle) "es_out (mt_sink ?m) = []" "mt_seq ?m = mt_avail ?m" "mt_seq ?m = sp_next (pl_ingress p)" "es_buf (mt_sink ?m) = []" by blast
  then show ?thesis
  proof cases
    case wave
    obtain t r where w: "spsc_publish_wave RING_BITS (es_out (mt_sink ?m)) (pl_egress p) = (t, r)" by force
    note sw = spsc_reading_wave [OF eg(1) w]
    let ?m' = "?m\<lparr>mt_sink := (mt_sink ?m)\<lparr>es_out := drop t (es_out (mt_sink ?m))\<rparr>\<rparr>"
    have "matcher_step p = p\<lparr>pl_matcher := ?m', pl_ingress := pl_ingress p, pl_egress := r\<rparr>"
      using False wave w by (simp add: matcher_step_def Let_def)
    moreover have "match_inv handled ?m'" by (rule match_inv_cong [OF _ _ _ _ i(3)]) simp_all
    moreover have "mt_log ?m = concat (pb_udp ?b) @ pb_batch ?b @ spsc_unread RING_BITS (pb_seq ?b) r @ drop t (es_out (mt_sink ?m)) @ es_buf (mt_sink ?m)"
      using append_take_drop_id [of t "es_out (mt_sink ?m)"] unfolding eg(2) sw(2) by (metis append.assoc)
    ultimately show ?thesis using pipe_inv_matcher [OF inv nd, of ?m' "pl_ingress p" handled r] ing sw(1) nd by simp
  next
    case item
    then have "matcher_step p = p\<lparr>pl_matcher := (matcher_handle (spsc_batch_item RING_BITS (mt_seq ?m) (pl_ingress p)) ?m)\<lparr>mt_seq := mt_seq ?m + 1\<rparr>\<rparr>"
      using False by (simp add: matcher_step_def Let_def)
    then show ?thesis using matcher_item_inv [OF inv nd item] by simp
  next
    case close
    let ?r = "spsc_batch_close (mt_seq ?m) (pl_ingress p)"
    have r: "spsc_reading RING_BITS (mt_seq ?m) (mt_avail ?m) ?r" "spsc_unread RING_BITS (mt_seq ?m) ?r = spsc_unread RING_BITS (mt_seq ?m) (pl_ingress p)"
      using spsc_batch_closed [of RING_BITS "mt_seq ?m" "pl_ingress p"] ing(1) close(2) by simp_all
    have "matcher_step p = p\<lparr>pl_matcher := ?m, pl_ingress := ?r, pl_egress := pl_egress p\<rparr>"
      using False close by (simp add: matcher_step_def Let_def)
    then show ?thesis using pipe_inv_matcher [OF inv nd nd r(1), of handled "pl_egress p"] r(2) ing(2) i(3) eg by simp
  next
    case flush
    let ?m' = "?m\<lparr>mt_sink := sink_flush (mt_sink ?m)\<rparr>"
    have "matcher_step p = p\<lparr>pl_matcher := ?m', pl_ingress := pl_ingress p, pl_egress := pl_egress p\<rparr>"
      using False flush by (simp add: matcher_step_def Let_def)
    moreover have "match_inv handled ?m'" by (rule match_inv_cong [OF _ _ _ _ i(3)]) simp_all
    ultimately show ?thesis
      using pipe_inv_matcher [OF inv nd, of ?m' "pl_ingress p" handled "pl_egress p"] ing eg flush nd by (simp add: sink_flush_def)
  next
    case idle
    show ?thesis
    proof (cases "\<not> pl_sequencer_done p \<or> \<not> spsc_empty_approx (pl_ingress p)")
      case True
      obtain a r where d: "spsc_batch_open (pl_ingress p) = (a, r)" by force
      note op = spsc_batch_open [OF spsc_reading_ok [OF ing(1)] d]
      let ?m' = "?m\<lparr>mt_avail := a\<rparr>"
      have "matcher_step p = p\<lparr>pl_matcher := ?m', pl_ingress := r, pl_egress := pl_egress p\<rparr>"
        using False idle True d by (simp add: matcher_step_def Let_def)
      moreover have "match_inv handled ?m'" by (rule match_inv_cong [OF _ _ _ _ i(3)]) simp_all
      moreover have "spsc_unread RING_BITS (mt_seq ?m) r = spsc_unread RING_BITS (mt_seq ?m) (pl_ingress p)"
        using op(2,3) by (simp add: spsc_unread_def)
      ultimately show ?thesis
        using pipe_inv_matcher [OF inv nd, of ?m' r handled "pl_egress p"] ing(2) eg op(1) idle nd by simp
    next
      case stop: False
      then have "matcher_step p = p\<lparr>pl_matcher := ?m\<lparr>mt_done := True\<rparr>\<rparr>" using False idle by (simp add: matcher_step_def Let_def)
      moreover have "match_inv handled (?m\<lparr>mt_done := True\<rparr>)" by (rule match_inv_cong [OF _ _ _ _ i(3)]) simp_all
      moreover have "spsc_contents RING_BITS (pl_ingress p) = []" using stop spsc_empty_contents by blast
      moreover have "\<not> pb_done ?b" using inv nd by (auto simp: pipe_inv_def done_inv_def Let_def)
      moreover have "seq_inv (p\<lparr>pl_matcher := ?m\<lparr>mt_done := True\<rparr>\<rparr>)" using i(1) by (simp add: seq_inv_def)
      moreover have "egress_inv (p\<lparr>pl_matcher := ?m\<lparr>mt_done := True\<rparr>\<rparr>)" using i(4) by (simp add: egress_inv_def Let_def)
      moreover have "ingress_inv handled (p\<lparr>pl_matcher := ?m\<lparr>mt_done := True\<rparr>\<rparr>)" using ing by (simp add: ingress_inv_def spinning_def)
      ultimately show ?thesis using stop idle by (intro pipe_invI [of _ handled]) (simp_all add: done_inv_def)
    qed
  qed
qed (use assms in \<open>auto simp: matcher_step_def Let_def\<close>)

section \<open>The publisher's steps\<close>

definition pub_inv :: "TradeEvent list \<Rightarrow> publisher_thread \<Rightarrow> bool" where
  "pub_inv seen b \<longleftrightarrow> concat (pb_udp b) @ pb_batch b = seen \<and> pb_chk b = sum_list (map hash_trade seen) \<and>
     pb_total b = of_nat (length (concat (pb_udp b)))"

lemma publisher_flush_inv: "pub_inv seen b \<Longrightarrow> pub_inv seen (publisher_flush b) \<and> pb_batch (publisher_flush b) = []"
  by (auto simp: pub_inv_def publisher_flush_def)

lemma publisher_handle_inv: "pub_inv seen b \<Longrightarrow> pub_inv (seen @ [t]) (publisher_handle t b)"
  using publisher_flush_inv [of "seen @ [t]" "b\<lparr>pb_chk := pb_chk b + hash_trade t, pb_batch := pb_batch b @ [t]\<rparr>"]
  by (auto simp: pub_inv_def publisher_handle_def Let_def)

lemma publisher_fold_inv: "pub_inv seen b \<Longrightarrow> pub_inv (seen @ ts) (fold publisher_handle ts b)"
proof (induction ts arbitrary: seen b)
  case (Cons t ts)
  from Cons.IH [OF publisher_handle_inv [OF Cons.prems]] show ?case by simp
qed simp

lemma egress_invI:
  assumes "spsc_reading RING_BITS (pb_seq (pl_publisher p)) (pb_avail (pl_publisher p)) (pl_egress p)" "pub_inv seen (pl_publisher p)"
    "mt_log (pl_matcher p) = seen @ spsc_unread RING_BITS (pb_seq (pl_publisher p)) (pl_egress p) @
       es_out (mt_sink (pl_matcher p)) @ es_buf (mt_sink (pl_matcher p))"
  shows "egress_inv p"
proof -
  have seen: "seen = concat (pb_udp (pl_publisher p)) @ pb_batch (pl_publisher p)" using assms(2) by (simp add: pub_inv_def)
  show ?thesis using assms unfolding seen by (simp add: egress_inv_def Let_def pub_inv_def)
qed

lemma publisher_frame [frame, simp]:
  "pb_seq (publisher_flush b) = pb_seq b" "pb_avail (publisher_flush b) = pb_avail b" "pb_done (publisher_flush b) = pb_done b"
  "pb_seq (publisher_handle t b) = pb_seq b" "pb_avail (publisher_handle t b) = pb_avail b" "pb_done (publisher_handle t b) = pb_done b"
  by (simp_all add: publisher_flush_def publisher_handle_def Let_def)

lemma pub_inv_cong: "pb_udp b' = pb_udp b \<Longrightarrow> pb_batch b' = pb_batch b \<Longrightarrow> pb_chk b' = pb_chk b \<Longrightarrow> pb_total b' = pb_total b \<Longrightarrow> pub_inv seen b \<Longrightarrow> pub_inv seen b'"
  by (simp add: pub_inv_def)

text \<open>Steps of the publisher leave the sequencer and the matcher alone.\<close>

lemma pipe_inv_publisher:
  assumes inv: "pipe_inv p" and eg: "spsc_reading RING_BITS (pb_seq b') (pb_avail b') e" "pub_inv seen b'"
      "mt_log (pl_matcher p) = seen @ spsc_unread RING_BITS (pb_seq b') e @ es_out (mt_sink (pl_matcher p)) @ es_buf (mt_sink (pl_matcher p))"
    and dn: "pb_done b' \<Longrightarrow> mt_done (pl_matcher p) \<and> spsc_contents RING_BITS e = [] \<and> pb_batch b' = []"
  shows "pipe_inv (p\<lparr>pl_egress := e, pl_publisher := b'\<rparr>)"
proof (rule pipe_invE [OF inv])
  fix handled
  assume i: "seq_inv p" "ingress_inv handled p" "match_inv handled (pl_matcher p)" "done_inv p"
  show ?thesis
  proof (rule pipe_invI [of _ handled])
    show "seq_inv (p\<lparr>pl_egress := e, pl_publisher := b'\<rparr>)" using i(1) by (simp add: seq_inv_def)
    show "ingress_inv handled (p\<lparr>pl_egress := e, pl_publisher := b'\<rparr>)" using i(2) by (simp add: ingress_inv_def spinning_def)
    show "egress_inv (p\<lparr>pl_egress := e, pl_publisher := b'\<rparr>)" by (rule egress_invI [of _ seen]) (simp_all add: eg)
    show "done_inv (p\<lparr>pl_egress := e, pl_publisher := b'\<rparr>)" using i(4) dn by (simp add: done_inv_def Let_def)
  qed (simp add: i(3))
qed

lemma publisher_step_inv:
  assumes inv: "pipe_inv p"
  shows "pipe_inv (publisher_step p)"
proof (cases "pl_aborted p \<or> pb_done (pl_publisher p)")
  case False
  let ?b = "pl_publisher p" and ?m = "pl_matcher p" and ?e = "pl_egress p"
  let ?seen = "concat (pb_udp ?b) @ pb_batch ?b" and ?rest = "es_out (mt_sink (pl_matcher p)) @ es_buf (mt_sink (pl_matcher p))"
  have eg: "spsc_reading RING_BITS (pb_seq ?b) (pb_avail ?b) ?e" "mt_log ?m = ?seen @ spsc_unread RING_BITS (pb_seq ?b) ?e @ ?rest" "pub_inv ?seen ?b"
    using inv by (auto simp: pipe_inv_def egress_inv_def Let_def pub_inv_def)
  have nd: "\<not> pb_done ?b" using False by simp
  consider (item) "pb_seq ?b \<noteq> pb_avail ?b" | (close) "pb_seq ?b = pb_avail ?b" "pb_seq ?b \<noteq> sp_next ?e"
    | (idle) "pb_seq ?b = pb_avail ?b" "pb_seq ?b = sp_next ?e" by blast
  then show ?thesis
  proof cases
    case item
    let ?t = "spsc_batch_item RING_BITS (pb_seq ?b) ?e"
    let ?b' = "(publisher_handle ?t ?b)\<lparr>pb_seq := pb_seq ?b + 1\<rparr>"
    note it = spsc_batch_item [OF eg(1) item]
    have "publisher_step p = p\<lparr>pl_egress := ?e, pl_publisher := ?b'\<rparr>" using False item by (simp add: publisher_step_def Let_def)
    moreover have "pub_inv (?seen @ [?t]) ?b'" by (rule pub_inv_cong [OF _ _ _ _ publisher_handle_inv [OF eg(3)]]) simp_all
    ultimately show ?thesis using pipe_inv_publisher [OF inv, of ?b' ?e "?seen @ [?t]"] it eg(2) nd by simp
  next
    case close
    let ?e' = "spsc_batch_close (pb_seq ?b) ?e" and ?b' = "publisher_flush ?b"
    have r: "spsc_reading RING_BITS (pb_seq ?b) (pb_avail ?b) ?e'" "spsc_unread RING_BITS (pb_seq ?b) ?e' = spsc_unread RING_BITS (pb_seq ?b) ?e"
      using spsc_batch_closed [of RING_BITS "pb_seq ?b" ?e] eg(1) close(1) by simp_all
    have "publisher_step p = p\<lparr>pl_egress := ?e', pl_publisher := ?b'\<rparr>" using False close by (simp add: publisher_step_def Let_def)
    then show ?thesis using pipe_inv_publisher [OF inv, of ?b' ?e' ?seen] publisher_flush_inv [OF eg(3)] r eg(2) nd by simp
  next
    case idle
    show ?thesis
    proof (cases "\<not> mt_done ?m \<or> \<not> spsc_empty_approx ?e")
      case True
      obtain a r where d: "spsc_batch_open ?e = (a, r)" by force
      note op = spsc_batch_open [OF spsc_reading_ok [OF eg(1)] d]
      have "publisher_step p = p\<lparr>pl_egress := r, pl_publisher := ?b\<lparr>pb_avail := a\<rparr>\<rparr>" using False idle True d by (simp add: publisher_step_def Let_def)
      moreover have "pub_inv ?seen (?b\<lparr>pb_avail := a\<rparr>)" by (rule pub_inv_cong [OF _ _ _ _ eg(3)]) simp_all
      moreover have "spsc_unread RING_BITS (pb_seq ?b) r = spsc_unread RING_BITS (pb_seq ?b) ?e" using op(2,3) by (simp add: spsc_unread_def)
      ultimately show ?thesis using pipe_inv_publisher [OF inv, of "?b\<lparr>pb_avail := a\<rparr>" r ?seen] op(1) idle(2) eg(2) nd by simp
    next
      case stop: False
      let ?b' = "(publisher_flush ?b)\<lparr>pb_done := True\<rparr>"
      have b': "pub_inv ?seen ?b'" "pb_batch ?b' = []" using publisher_flush_inv [OF eg(3)] by (auto simp: pub_inv_def)
      have e: "spsc_contents RING_BITS ?e = []" using stop spsc_empty_contents by blast
      have "publisher_step p = p\<lparr>pl_egress := ?e, pl_publisher := ?b'\<rparr>" using False idle stop by (simp add: publisher_step_def Let_def)
      then show ?thesis using pipe_inv_publisher [OF inv, of ?b' ?e ?seen] eg b' stop e by simp
    qed
  qed
qed (use assms in \<open>auto simp: publisher_step_def Let_def\<close>)

lemma pipeline_reach_inv: "pipeline_reach pg p \<Longrightarrow> pipe_inv p"
  by (induction rule: pipeline_reach.induct)
    (simp_all add: pipe_inv_init arrive_inv stop_inv sequencer_step_inv matcher_step_inv publisher_step_inv)

section \<open>Properties of the whole\<close>

text \<open>
  C6. In every interleaving of the threads the pipeline is faithful to the log: the log holds the arrivals in order, stamped 0, 1, 2
  and so on, and each order enters it before it can reach the matcher; the matcher's book and events are those of submitting a
  prefix of the log in order, and the rest of the log is on its way in the ingress ring and the sequencer's hand;
  the events are, in order, those published, those in the publisher's batch, in the egress ring and in the sink. Nothing is lost, duplicated or reordered.
\<close>

theorem pipeline_faithful:
  assumes "pipeline_reach pg p"
  shows "\<exists>handled n. wal_records (pl_wal p) = stamp 0 (take n (pl_arrived p)) \<and>
    pl_arrived p = take n (pl_arrived p) @ pl_batch p @ pl_inbound p \<and>
    wal_records (pl_wal p) = handled @ spsc_unread RING_BITS (mt_seq (pl_matcher p)) (pl_ingress p) @ spinning p \<and>
    run_submits handled start_state = (mt_book (pl_matcher p), mt_log (pl_matcher p)) \<and>
    mt_log (pl_matcher p) = concat (pb_udp (pl_publisher p)) @ pb_batch (pl_publisher p) @
      spsc_unread RING_BITS (pb_seq (pl_publisher p)) (pl_egress p) @ es_out (mt_sink (pl_matcher p)) @ es_buf (mt_sink (pl_matcher p))"
proof (rule pipe_invE [OF pipeline_reach_inv [OF assms]])
  fix handled
  assume "seq_inv p" "ingress_inv handled p" "match_inv handled (pl_matcher p)" "egress_inv p"
  then show ?thesis
    by (intro exI [of _ handled] exI [of _ "unat (journal_count (pl_wal p))"])
      (simp add: seq_inv_def ingress_inv_def match_inv_def egress_inv_def Let_def)
qed

theorem pipeline_faithful_witness:
  "\<exists>n. wal_records (pl_wal (sequencer_step 4096 1 (sequencer_step 4096 1 (arrive sell5 pipeline_init)))) = stamp 0 (take n [sell5])"
proof -
  let ?p = "sequencer_step 4096 1 (sequencer_step 4096 1 (arrive sell5 pipeline_init))"
  have r: "pipeline_reach 4096 ?p" by (intro pipeline_reach.intros)
  have "pl_arrived ?p = [sell5]"
    by (simp add: sequencer_step_def arrive_def pipeline_init_def split: sum.splits prod.splits)
  with pipeline_faithful [OF r] show ?thesis by auto
qed

lemma replay_stamped:
  assumes "wal_records j = stamp 0 os"
  shows "replay j st = (length os, run_submits (stamp 0 os) st)"
proof (cases "os = []")
  case True
  then show ?thesis using arg_cong [OF assms, of length] by (simp add: replay_def)
next
  case False
  have n: "unat (journal_count j) = length os" using arg_cong [OF assms, of length] by simp
  have d: "jr_data j k = (os ! k)\<lparr>o_seq := of_nat k\<rparr>" if "k < length os" for k
    using that n arg_cong [OF assms, of "\<lambda>l. l ! k"] by (simp add: wal_records_def stamp_nth)
  have "replay j st = (length os, run_submits (map (jr_data j) [0..<length os]) st)"
  proof (rule replay_spec)
    show "o_seq (jr_data j k) = o_seq (jr_data j 0) + of_nat k" if "k < length os" for k
      using that d [OF that] d [of 0] False by simp
  qed (use n False in simp_all)
  then show ?thesis using assms n by (simp add: wal_records_def)
qed

end
