(* ===== verification/Pipeline_Liveness.thy ===== *)
theory Pipeline_Liveness
  imports Pipeline
begin

text \<open>
  The shutdown cascade ends: when the gateways have stopped, the threads can always bring everything that is under way to the
  feed. Each step that makes progress lowers a lexicographic measure: the orders that are not matched, weighted by how far
  they have to go, then the events that are not published, then the batches that are open and the threads that have not finished.
\<close>

inductive thread_step :: "64 word \<Rightarrow> Pipeline \<Rightarrow> Pipeline \<Rightarrow> bool" for pg where
  sequencer: "thread_step pg p (sequencer_step pg n p)"
| matcher: "thread_step pg p (matcher_step p)"
| publisher: "thread_step pg p (publisher_step p)"

inductive_cases thread_stepE: "thread_step pg p p'"

definition order_weight :: "Pipeline \<Rightarrow> nat" where
  "order_weight p = 5 * length (pl_inbound p) + 4 * length (pl_batch p) + 3 * length (spinning p) +
     ring_weight RING_BITS (mt_seq (pl_matcher p)) (mt_avail (pl_matcher p)) (pl_ingress p)"

definition event_weight :: "Pipeline \<Rightarrow> nat" where
  "event_weight p = 4 * length (es_buf (mt_sink (pl_matcher p))) + 3 * length (es_out (mt_sink (pl_matcher p))) +
     ring_weight RING_BITS (pb_seq (pl_publisher p)) (pb_avail (pl_publisher p)) (pl_egress p)"

definition open_threads :: "Pipeline \<Rightarrow> nat" where
  "open_threads p = open_batch (mt_seq (pl_matcher p)) (pl_ingress p) + open_batch (pb_seq (pl_publisher p)) (pl_egress p) + (if pl_sequencer_done p then 0 else 1) + (if mt_done (pl_matcher p) then 0 else 1) + (if pb_done (pl_publisher p) then 0 else 1)"

definition progress :: "(Pipeline \<times> Pipeline) set" where
  "progress = inv_image (less_than <*lex*> less_than <*lex*> less_than) (\<lambda>p. (order_weight p, event_weight p, open_threads p))"

lemma wf_progress: "wf progress"
  by (simp add: progress_def wf_lex_prod)

lemma progress_iff:
  "(p', p) \<in> progress \<longleftrightarrow> order_weight p' < order_weight p \<or> order_weight p' = order_weight p \<and>
     (event_weight p' < event_weight p \<or> event_weight p' = event_weight p \<and> open_threads p' < open_threads p)"
  by (auto simp: progress_def)

text \<open>The states of the cascade: the gateways have stopped, and the log has room for what has arrived.\<close>

definition draining :: "Pipeline \<Rightarrow> bool" where
  "draining p \<longleftrightarrow> pipe_inv p \<and> pl_gateway_stopped p \<and> \<not> pl_aborted p \<and> length (pl_arrived p) \<le> unat WAL_CAP"

lemmas weight_defs = progress_iff order_weight_def event_weight_def open_threads_def spinning_def

lemma publisher_progress:
  assumes "draining p" "spsc_contents RING_BITS (pl_egress p) \<noteq> []"
  shows "draining (publisher_step p) \<and> (publisher_step p, p) \<in> progress \<and> pl_arrived (publisher_step p) = pl_arrived p"
proof -
  let ?b = "pl_publisher p" and ?e = "pl_egress p"
  have inv: "pipe_inv p" "spsc_reading RING_BITS (pb_seq ?b) (pb_avail ?b) ?e" "\<not> pb_done ?b" "\<not> pl_aborted p"
    using assms by (auto simp: draining_def pipe_inv_def egress_inv_def done_inv_def Let_def)
  obtain a r where o: "spsc_batch_open ?e = (a, r)" by force
  have ne: "\<not> spsc_empty_approx ?e" using assms(2) spsc_empty_contents by blast
  consider (item) "pb_seq ?b \<noteq> pb_avail ?b" | (close) "pb_seq ?b = pb_avail ?b" "pb_seq ?b \<noteq> sp_next ?e"
    | (idle) "pb_seq ?b = pb_avail ?b" "pb_seq ?b = sp_next ?e" by blast
  then have "(publisher_step p, p) \<in> progress \<and> pl_arrived (publisher_step p) = pl_arrived p \<and>
      pl_gateway_stopped (publisher_step p) = pl_gateway_stopped p \<and> pl_aborted (publisher_step p) = pl_aborted p"
  proof cases
    case item
    then show ?thesis using ring_weight_item [OF inv(2)] inv(3,4) by (simp add: publisher_step_def Let_def weight_defs)
  next
    case close
    then show ?thesis using ring_weight_close [of RING_BITS "pb_seq ?b" ?e] inv(2-4) by (simp add: publisher_step_def Let_def weight_defs)
  next
    case idle
    then show ?thesis using ring_weight_open [OF spsc_reading_ok [OF inv(2)] assms(2) o] o ne inv(3,4) by (simp add: publisher_step_def Let_def weight_defs)
  qed
  then show ?thesis using assms(1) publisher_step_inv [OF inv(1)] by (simp add: draining_def)
qed

lemma matcher_progress:
  assumes "draining p" "spsc_contents RING_BITS (pl_egress p) = []" "\<not> mt_done (pl_matcher p)"
    "es_out (mt_sink (pl_matcher p)) \<noteq> [] \<or> es_buf (mt_sink (pl_matcher p)) \<noteq> [] \<or> spsc_contents RING_BITS (pl_ingress p) \<noteq> []"
  shows "draining (matcher_step p) \<and> (matcher_step p, p) \<in> progress \<and> pl_arrived (matcher_step p) = pl_arrived p"
proof -
  let ?m = "pl_matcher p" and ?b = "pl_publisher p" and ?r = "pl_ingress p"
  have inv: "pipe_inv p" "spsc_reading RING_BITS (pb_seq ?b) (pb_avail ?b) (pl_egress p)"
    "spsc_reading RING_BITS (mt_seq ?m) (mt_avail ?m) ?r" "\<not> pl_aborted p"
    using assms(1) by (auto simp: draining_def pipe_inv_def egress_inv_def ingress_inv_def Let_def)
  consider (wave) "es_out (mt_sink ?m) \<noteq> []" | (item) "es_out (mt_sink ?m) = []" "mt_seq ?m \<noteq> mt_avail ?m"
    | (close) "es_out (mt_sink ?m) = []" "mt_seq ?m = mt_avail ?m" "mt_seq ?m \<noteq> sp_next ?r"
    | (flush) "es_out (mt_sink ?m) = []" "mt_seq ?m = mt_avail ?m" "mt_seq ?m = sp_next ?r" "es_buf (mt_sink ?m) \<noteq> []"
    | (idle) "es_out (mt_sink ?m) = []" "mt_seq ?m = mt_avail ?m" "mt_seq ?m = sp_next ?r" "es_buf (mt_sink ?m) = []" by blast
  then have "(matcher_step p, p) \<in> progress \<and> pl_arrived (matcher_step p) = pl_arrived p \<and> pl_gateway_stopped (matcher_step p) = pl_gateway_stopped p \<and>
      pl_aborted (matcher_step p) = pl_aborted p"
  proof cases
    case wave
    obtain t r where w: "spsc_publish_wave RING_BITS (es_out (mt_sink ?m)) (pl_egress p) = (t, r)" by force
    note sw = spsc_wave [OF spsc_reading_ok [OF inv(2)] w]
    have t: "0 < t" "t \<le> length (es_out (mt_sink ?m))" using sw(3,4) assms(2) wave by auto
    then have "3 * (length (es_out (mt_sink ?m)) - t) + 2 * t < 3 * length (es_out (mt_sink ?m))" by simp
    then show ?thesis using wave w t ring_weight_extend [OF inv(2) sw(1) _ sw(2)] spsc_reading_wave(3) [OF inv(2) w] assms(3) inv(4)
      by (simp add: matcher_step_def Let_def weight_defs)
  next
    case item
    then show ?thesis using ring_weight_item [OF inv(3)] assms(3) inv(4) by (simp add: matcher_step_def Let_def weight_defs)
  next
    case close
    then show ?thesis using ring_weight_close [of RING_BITS "mt_seq ?m" ?r] inv(3,4) assms(3) by (simp add: matcher_step_def Let_def weight_defs)
  next
    case flush
    then show ?thesis using assms(3) inv(4) by (simp add: matcher_step_def Let_def weight_defs sink_flush_def)
  next
    case idle
    obtain a r where o: "spsc_batch_open ?r = (a, r)" by force
    have ne: "spsc_contents RING_BITS ?r \<noteq> []" "\<not> spsc_empty_approx ?r" using assms(4) idle spsc_empty_contents by blast+
    then show ?thesis using idle ring_weight_open [OF spsc_reading_ok [OF inv(3)] ne(1) o] o assms(3) inv(4)
      by (simp add: matcher_step_def Let_def weight_defs)
  qed
  then show ?thesis using assms(1) matcher_step_inv [OF inv(1)] by (simp add: draining_def)
qed

text \<open>With empty rings and an idle matcher the sequencer goes on: its spin ends, and the log is not full.\<close>

lemma sequencer_progress:
  assumes dr: "draining p" and idle: "spsc_contents RING_BITS (pl_ingress p) = []" "\<not> pl_sequencer_done p"
  shows "\<exists>n. let p' = sequencer_step pg n p in draining p' \<and> (p', p) \<in> progress \<and> pl_arrived p' = pl_arrived p"
proof -
  have inv: "pipe_inv p" "spsc_reading RING_BITS (mt_seq (pl_matcher p)) (mt_avail (pl_matcher p)) (pl_ingress p)" "\<not> pl_aborted p" "pl_gateway_stopped p"
    using dr by (auto simp: draining_def pipe_inv_def ingress_inv_def Let_def)
  let ?n = "length (pl_inbound p)" and ?c = "unat (journal_count (pl_wal p))"
  have q: "journal_ok (pl_wal p)" "jr_capacity (pl_wal p) = WAL_CAP" "pl_arrived p = take ?c (pl_arrived p) @ pl_batch p @ pl_inbound p"
    "wal_records (pl_wal p) = stamp 0 (take ?c (pl_arrived p))"
    using inv(1) by (auto simp: pipe_inv_def seq_inv_def Let_def)
  have len: "length (pl_arrived p) = ?c + length (pl_batch p) + ?n"
    using arg_cong [OF q(3), of length] arg_cong [OF q(4), of length] by simp
  have "(sequencer_step pg ?n p, p) \<in> progress \<and> pl_arrived (sequencer_step pg ?n p) = pl_arrived p \<and>
      pl_gateway_stopped (sequencer_step pg ?n p) \<and> \<not> pl_aborted (sequencer_step pg ?n p)"
  proof (cases "pl_spin p")
    case (Some o')
    obtain ok r where t: "spsc_try_publish RING_BITS o' (pl_ingress p) = (ok, r)" by force
    then have r: "ok" "spsc_ok RING_BITS r" "spsc_contents RING_BITS r = spsc_contents RING_BITS (pl_ingress p) @ [o']"
      using spsc_publish [OF spsc_reading_ok [OF inv(2)], of o'] idle(1) by simp_all
    show ?thesis using t r(1) ring_weight_extend [OF inv(2) r(2) _ r(3)] spsc_reading_push(3) [OF inv(2) t] Some idle inv(3,4)
      by (simp add: sequencer_step_def weight_defs split: prod.splits)
  next
    case None
    show ?thesis
    proof (cases "pl_batch p")
      case (Cons o' os)
      have "?c < unat WAL_CAP" using dr len Cons by (simp add: draining_def)
      then obtain o2 s j where b: "publish_begin o' (pl_sequencer p, pl_wal p) = Inr (o2, s, j)"
        using publish_begin_cases [OF q(1), of "pl_sequencer p" o'] q(2) by (auto split: sum.splits prod.splits)
      show ?thesis using b None Cons idle inv(3,4)
        by (simp add: sequencer_step_def weight_defs)
    next
      case Nil
      then show ?thesis using None idle inv(3,4)
        by (auto simp: sequencer_step_def weight_defs sequencer_flush_def)
    qed
  qed
  then show ?thesis using dr sequencer_step_inv [OF inv(1), of pg ?n] by (intro exI [of _ ?n]) (simp add: draining_def Let_def)
qed

text \<open>Some thread can always make progress until the publisher has finished.\<close>

lemma draining_progress:
  assumes dr: "draining p" "\<not> pb_done (pl_publisher p)"
  shows "\<exists>p'. thread_step pg p p' \<and> draining p' \<and> (p', p) \<in> progress \<and> pl_arrived p' = pl_arrived p"
proof -
  let ?m = "pl_matcher p"
  have inv: "pipe_inv p" "\<not> pl_aborted p"
    "spsc_reading RING_BITS (mt_seq ?m) (mt_avail ?m) (pl_ingress p)"
    "spsc_reading RING_BITS (pb_seq (pl_publisher p)) (pb_avail (pl_publisher p)) (pl_egress p)"
    using dr(1) by (auto simp: draining_def pipe_inv_def egress_inv_def ingress_inv_def Let_def)
  let ?busy = "es_out (mt_sink ?m) \<noteq> [] \<or> es_buf (mt_sink ?m) \<noteq> [] \<or> spsc_contents RING_BITS (pl_ingress p) \<noteq> []"
  consider (publish) "spsc_contents RING_BITS (pl_egress p) \<noteq> []"
    | (match) "spsc_contents RING_BITS (pl_egress p) = []" "\<not> mt_done ?m" ?busy
    | (sequence) "spsc_contents RING_BITS (pl_ingress p) = []" "\<not> pl_sequencer_done p"
    | (finish) "spsc_contents RING_BITS (pl_egress p) = []" "\<not> mt_done ?m" "\<not> ?busy" "pl_sequencer_done p"
    | (last) "spsc_contents RING_BITS (pl_egress p) = []" "mt_done ?m"
    by blast
  then show ?thesis
  proof cases
    case publish
    then show ?thesis using publisher_progress [OF dr(1)] thread_step.publisher by blast
  next
    case match
    then show ?thesis using matcher_progress [OF dr(1)] thread_step.matcher by blast
  next
    case sequence
    then show ?thesis using sequencer_progress [OF dr(1), of pg] thread_step.sequencer unfolding Let_def by blast
  next
    case finish
    then have st: "matcher_step p = p\<lparr>pl_matcher := ?m\<lparr>mt_done := True\<rparr>\<rparr>"
      using inv(2) spsc_reading_empty [OF inv(3)] spsc_empty_contents [of "pl_ingress p" RING_BITS] by (simp add: matcher_step_def Let_def)
    have "(matcher_step p, p) \<in> progress"
      using finish by (simp add: st weight_defs)
    moreover have "draining (matcher_step p)" using dr(1) matcher_step_inv [OF inv(1)] by (simp add: draining_def st)
    moreover have "pl_arrived (matcher_step p) = pl_arrived p" by (simp add: st)
    ultimately show ?thesis using thread_step.matcher by blast
  next
    case last
    then have st: "publisher_step p = p\<lparr>pl_publisher := (publisher_flush (pl_publisher p))\<lparr>pb_done := True\<rparr>\<rparr>"
      using inv(2) dr(2) spsc_reading_empty [OF inv(4)] spsc_empty_contents [of "pl_egress p" RING_BITS] by (simp add: publisher_step_def Let_def)
    have "(publisher_step p, p) \<in> progress"
      using dr(2) by (simp add: st weight_defs)
    moreover have "draining (publisher_step p)" using dr(1) publisher_step_inv [OF inv(1)] by (simp add: draining_def st)
    moreover have "pl_arrived (publisher_step p) = pl_arrived p" by (simp add: st)
    ultimately show ?thesis using thread_step.publisher by blast
  qed
qed

lemma draining_ends:
  assumes "draining p"
  shows "\<exists>p'. (thread_step pg)\<^sup>*\<^sup>* p p' \<and> pb_done (pl_publisher p') \<and> pl_arrived p' = pl_arrived p"
proof -
  have "\<exists>p'. (thread_step pg)\<^sup>*\<^sup>* p p' \<and> (draining p' \<and> pl_arrived p' = pl_arrived p) \<and> pb_done (pl_publisher p')"
    by (rule schedule_ends [OF wf_progress]) (use draining_progress [of _ pg] assms in \<open>metis+\<close>)
  then show ?thesis by blast
qed

text \<open>The threads take no arrivals away, and only the sequencer can abort: when an order finds the log full.\<close>

lemma step_frame:
  "pl_arrived (sequencer_step pg n p) = pl_arrived p" "pl_arrived (matcher_step p) = pl_arrived p" "pl_arrived (publisher_step p) = pl_arrived p"
  "pl_aborted (matcher_step p) = pl_aborted p" "pl_aborted (publisher_step p) = pl_aborted p"
  by (simp_all add: sequencer_step_def matcher_step_def publisher_step_def Let_def split: option.split list.split sum.split prod.split)

lemma abort_full:
  "pipeline_reach pg p \<Longrightarrow> pl_aborted p \<Longrightarrow> unat WAL_CAP < length (pl_arrived p)"
proof (induction rule: pipeline_reach.induct)
  case (sequence p n)
  show ?case
  proof (cases "pl_aborted p")
    case False
    let ?j = "pl_wal p"
    from pipeline_reach_inv [OF sequence.hyps] have si: "seq_inv p" by (rule pipe_invE)
    then have ok: "journal_ok ?j" "jr_capacity ?j = WAL_CAP" "pl_arrived p = take (unat (journal_count ?j)) (pl_arrived p) @ pl_batch p @ pl_inbound p"
      "wal_records ?j = stamp 0 (take (unat (journal_count ?j)) (pl_arrived p))" by (auto simp: seq_inv_def Let_def)
    obtain o' os e where b: "pl_batch p = o' # os" "publish_begin o' (pl_sequencer p, ?j) = Inl e"
      using sequence.prems False by (auto simp: sequencer_step_def Let_def split: if_splits option.splits list.splits sum.splits prod.splits)
    have "journal_count ?j = WAL_CAP" using publish_begin_cases [OF ok(1), where o' = o' and s = "pl_sequencer p"] b(2) ok(2) by simp
    moreover have "length (wal_records ?j) = unat (journal_count ?j)" by (rule wal_records_length)
    ultimately have "length (take (unat (journal_count ?j)) (pl_arrived p)) = unat WAL_CAP" using ok(4) by (metis stamp_length)
    moreover have "0 < length (pl_batch p)" using b(1) by simp
    ultimately have "unat WAL_CAP < length (pl_arrived p)" using arg_cong [OF ok(3), of length, unfolded length_append] by linarith
    then show ?thesis by (simp only: step_frame)
  qed (use sequence in \<open>simp add: step_frame\<close>)
qed (auto simp: pipeline_init_def arrive_def stop_gateways_def step_frame split: if_splits)

lemma thread_steps_reach: "(thread_step pg)\<^sup>*\<^sup>* p p' \<Longrightarrow> pipeline_reach pg p \<Longrightarrow> pipeline_reach pg p'"
  by (induction rule: rtranclp_induct) (auto elim!: thread_stepE intro: pipeline_reach.intros)

lemma thread_steps_arrived: "(thread_step pg)\<^sup>*\<^sup>* p p' \<Longrightarrow> pl_arrived p' = pl_arrived p"
  by (induction rule: rtranclp_induct) (auto elim!: thread_stepE simp: step_frame)

lemma shutdown_handled:
  assumes "pipeline_reach pg p" "pb_done (pl_publisher p)"
  shows "match_inv (stamp 0 (pl_arrived p)) (pl_matcher p)" "wal_records (pl_wal p) = stamp 0 (pl_arrived p)"
proof -
  from pipeline_reach_inv [OF assms(1)] obtain handled where
    i: "seq_inv p" "ingress_inv handled p" "match_inv handled (pl_matcher p)" "egress_inv p" "done_inv p" by (rule pipe_invE)
  let ?n = "unat (journal_count (pl_wal p))"
  have d: "pl_sequencer_done p" "spsc_unread RING_BITS (mt_seq (pl_matcher p)) (pl_ingress p) = []"
    using i(5) assms(2) by (auto simp: done_inv_def spsc_unread_def Let_def)
  have q: "wal_records (pl_wal p) = stamp 0 (take ?n (pl_arrived p))" "pl_arrived p = take ?n (pl_arrived p)" "spinning p = []"
    using i(1) d(1) by (auto simp: seq_inv_def spinning_def Let_def)
  then show "wal_records (pl_wal p) = stamp 0 (pl_arrived p)" by simp
  moreover have "handled = wal_records (pl_wal p)" using i(2) d q(3) by (simp add: ingress_inv_def Let_def)
  ultimately show "match_inv (stamp 0 (pl_arrived p)) (pl_matcher p)" using i(3) by simp
qed

text \<open>
  C8. The shutdown cascade can be completed exactly when the log is large enough: from every reachable state in which the gateways have stopped, the threads have steps that bring the
  publisher to its end if and only if no more orders have arrived than the log holds. Up to that number no ring, batch or spin loop blocks another for good and nothing aborts; beyond it
  the sequencer aborts the process at the full log, and no schedule finishes.
\<close>

theorem pipeline_drains:
  assumes "pipeline_reach pg p" "pl_gateway_stopped p"
  shows "(\<exists>p'. (thread_step pg)\<^sup>*\<^sup>* p p' \<and> pb_done (pl_publisher p')) \<longleftrightarrow> length (pl_arrived p) \<le> unat WAL_CAP"
proof
  assume "\<exists>p'. (thread_step pg)\<^sup>*\<^sup>* p p' \<and> pb_done (pl_publisher p')"
  then obtain p' where p': "(thread_step pg)\<^sup>*\<^sup>* p p'" "pb_done (pl_publisher p')" by blast
  have r: "pipeline_reach pg p'" by (rule thread_steps_reach [OF p'(1) assms(1)])
  from pipeline_reach_inv [OF r] have "seq_inv p'" by (rule pipe_invE)
  then have "journal_count (pl_wal p') \<le> WAL_CAP" by (auto simp: seq_inv_def journal_ok_def Let_def)
  moreover have "length (wal_records (pl_wal p')) = length (pl_arrived p')" using shutdown_handled(2) [OF r p'(2)] by simp
  ultimately show "length (pl_arrived p) \<le> unat WAL_CAP" using thread_steps_arrived [OF p'(1)] by (simp add: wal_records_length word_le_nat_alt)
next
  assume "length (pl_arrived p) \<le> unat WAL_CAP"
  then have "draining p" using abort_full [OF assms(1)] pipeline_reach_inv [OF assms(1)] assms(2) by (auto simp: draining_def)
  then show "\<exists>p'. (thread_step pg)\<^sup>*\<^sup>* p p' \<and> pb_done (pl_publisher p')" using draining_ends by blast
qed

definition stopped_with :: "Order list \<Rightarrow> Pipeline" where
  "stopped_with os = stop_gateways (fold arrive os pipeline_init)"

lemma arrive_all:
  "\<not> pl_gateway_stopped p \<Longrightarrow> \<not> pl_aborted p \<Longrightarrow> pl_arrived (fold arrive os p) = pl_arrived p @ os \<and> \<not> pl_aborted (fold arrive os p)"
proof (induction os arbitrary: p)
  case (Cons o' os)
  from Cons.IH [of "arrive o' p"] Cons.prems show ?case by (simp add: arrive_def)
qed simp

lemma arrive_reach: "pipeline_reach pg p \<Longrightarrow> pipeline_reach pg (fold arrive os p)"
  by (induction os arbitrary: p) (auto intro: pipeline_reach.intros)

lemma stopped_with:
  "pipeline_reach pg (stopped_with os)" "pl_gateway_stopped (stopped_with os)" "\<not> pl_aborted (stopped_with os)" "pl_arrived (stopped_with os) = os"
  using arrive_all [of pipeline_init os] arrive_reach [OF pipeline_reach.start, of pg os]
  by (auto simp: stopped_with_def stop_gateways_def pipeline_init_def intro: pipeline_reach.stop [unfolded stop_gateways_def])

theorem pipeline_drains_witness:
  "\<exists>p'. (thread_step 4096)\<^sup>*\<^sup>* (stopped_with [sell5, buy3]) p' \<and> pb_done (pl_publisher p')"
  using pipeline_drains [OF stopped_with(1,2), of 4096 "[sell5, buy3]"] stopped_with(4) [of "[sell5, buy3]"] by (simp add: WAL_CAP_def)

section \<open>After the shutdown\<close>

lemma shutdown_exists:
  assumes "length os \<le> unat WAL_CAP"
  obtains p where "pipeline_reach pg p" "pb_done (pl_publisher p)" "pl_arrived p = os"
proof -
  note s = stopped_with(1) [of pg os] stopped_with(2-4) [of os]
  have "draining (stopped_with os)" using pipeline_reach_inv [OF s(1)] s(2-4) assms by (simp add: draining_def)
  then show thesis using draining_ends [of "stopped_with os" pg] thread_steps_reach [OF _ s(1)] s(4) that by auto
qed

text \<open>
  C7. A clean shutdown loses nothing: once the publisher has finished, every order that arrived is in the log, has been matched in the order of the log,
  and every event of the matcher has been handed to the feed, in order, with the checksum of exactly these events; and replaying the log
  gives the book and the events of the live run.
\<close>

theorem pipeline_shutdown:
  assumes "pipeline_reach pg p" "pb_done (pl_publisher p)"
  shows "wal_records (pl_wal p) = stamp 0 (pl_arrived p) \<and>
    run_submits (stamp 0 (pl_arrived p)) start_state = (mt_book (pl_matcher p), mt_log (pl_matcher p)) \<and>
    concat (pb_udp (pl_publisher p)) = mt_log (pl_matcher p) \<and>
    pb_chk (pl_publisher p) = sum_list (map hash_trade (mt_log (pl_matcher p))) \<and>
    replay (pl_wal p) start_state = (length (pl_arrived p), mt_book (pl_matcher p), mt_log (pl_matcher p))"
proof -
  note h = shutdown_handled [OF assms]
  have eg: "egress_inv p" "done_inv p" using pipeline_reach_inv [OF assms(1)] by (auto simp: pipe_inv_def)
  have "concat (pb_udp (pl_publisher p)) = mt_log (pl_matcher p)"
    "pb_chk (pl_publisher p) = sum_list (map hash_trade (mt_log (pl_matcher p)))"
    using eg assms(2) by (auto simp: egress_inv_def done_inv_def spsc_unread_def Let_def)
  then show ?thesis using h replay_stamped [OF h(2), of start_state] by (simp add: match_inv_def)
qed

theorem pipeline_shutdown_witness:
  "\<exists>p. pipeline_reach 4096 p \<and> pl_arrived p = [sell5, buy3] \<and>
     concat (pb_udp (pl_publisher p)) = snd (run_submits [sell5\<lparr>o_seq := 0\<rparr>, buy3\<lparr>o_seq := 1\<rparr>] start_state)"
proof -
  have "length [sell5, buy3] \<le> unat WAL_CAP" by (simp add: WAL_CAP_def)
  then obtain p where p: "pipeline_reach 4096 p" "pb_done (pl_publisher p)" "pl_arrived p = [sell5, buy3]" by (rule shutdown_exists)
  from pipeline_shutdown [OF p(1,2)] p show ?thesis by (intro exI [of _ p]) simp
qed

text \<open>
  C18. The snapshots are consistent: after \<open>n\<close> orders of the log were matched, the snapshots taken are those after every 10000th of them, and each is the
  image of the book after exactly the orders up to the sequence number that it carries. A client that starts from it and
  applies the feed from the next sequence number on misses nothing.
\<close>

theorem snapshot_as_of:
  assumes "pipeline_reach pg p"
  shows "\<exists>n \<le> length (wal_records (pl_wal p)). mt_processed (pl_matcher p) = of_nat n \<and>
    mt_snaps (pl_matcher p) = map (\<lambda>i. let k = 10000 * Suc i in
      serialize_l2 SNAP_MAX_LEVELS (fst (run_submits (take k (wal_records (pl_wal p))) start_state)) (of_nat (k - 1)) blank_snapshot) [0..<n div 10000]"
proof (rule pipe_invE [OF pipeline_reach_inv [OF assms]])
  fix handled
  assume i: "ingress_inv handled p" "match_inv handled (pl_matcher p)"
  have w: "\<exists>rest. wal_records (pl_wal p) = handled @ rest" using i(1) by (simp add: ingress_inv_def Let_def)
  have "take (10000 * Suc i) (wal_records (pl_wal p)) = take (10000 * Suc i) handled" if "i < length handled div 10000" for i
  proof -
    have "10000 * Suc i \<le> length handled" using that by (simp add: less_eq_div_iff_mult_less_eq Suc_le_eq)
    then show ?thesis using w by (auto simp del: mult_Suc_right)
  qed
  then show ?thesis using i(2) w
    by (intro exI [of _ "length handled"]) (auto simp: match_inv_def snapshot_after_def Let_def simp del: wal_records_length mult_Suc_right)
qed

theorem snapshot_as_of_witness:
  "\<exists>p. pipeline_reach 4096 p \<and> map (\<lambda>s. sh_feed_seq (sb_header s)) (mt_snaps (pl_matcher p)) = [9999]"
proof -
  have "length (replicate 10000 sell5) \<le> unat WAL_CAP" by (simp add: WAL_CAP_def)
  then obtain p where p: "pipeline_reach 4096 p" "pb_done (pl_publisher p)" "pl_arrived p = replicate 10000 sell5" by (rule shutdown_exists)
  have h: "mt_processed (pl_matcher p) = 10000" "length (wal_records (pl_wal p)) = 10000"
    using shutdown_handled [OF p(1,2)] p(3) by (simp_all add: match_inv_def del: wal_records_length)
  obtain n where n: "n \<le> 10000" "(10000 :: 64 word) = of_nat n" "mt_snaps (pl_matcher p) = map (\<lambda>i. let k = 10000 * Suc i in
      serialize_l2 SNAP_MAX_LEVELS (fst (run_submits (take k (wal_records (pl_wal p))) start_state)) (of_nat (k - 1)) blank_snapshot) [0..<n div 10000]"
    using snapshot_as_of [OF p(1)] h by auto
  have "unat (of_nat n :: 64 word) = n" using n(1) by (simp add: unat_of_nat take_bit_nat_eq_self)
  then have "n = 10000" using arg_cong [OF n(2), of unat] by simp
  moreover have "sh_feed_seq (sb_header (serialize_l2 m b q buf)) = q" for m b q buf by (simp add: serialize_l2_def Let_def split: prod.splits)
  ultimately show ?thesis using n(3) p(1) by (intro exI [of _ p]) (simp add: Let_def)
qed

end
