(* ===== verification/Wal_Durability.thy ===== *)
theory Wal_Durability
  imports Sequencer
begin

text \<open>
  The durability cadence of the sequencer: which ranges of the log are flushed, in which way, when
  \<open>n\<close> orders have been published. After every \<open>F\<close> orders there is a flush of the records since the last one,
  synchronous for every \<open>S\<close>-th of them (never, if \<open>S\<close> is 0). What follows for
  the durability of the records is stated at the end.
\<close>

definition flush_flag :: "nat \<Rightarrow> nat \<Rightarrow> ms_flag" where
  "flush_flag S k = (if S \<noteq> 0 \<and> Suc k mod S = 0 then MS_SYNC else MS_ASYNC)"

definition flush_schedule :: "nat \<Rightarrow> nat \<Rightarrow> nat \<Rightarrow> nat \<Rightarrow> nat \<Rightarrow> (nat \<times> nat \<times> nat \<times> ms_flag) list" where
  "flush_schedule pg bytes F S m = concat (map (\<lambda>k. flush_ranges pg bytes (flush_flag S k) (k * F) (Suc k * F)) [0..<m])"

definition cadence_inv :: "nat \<Rightarrow> nat \<Rightarrow> nat \<Rightarrow> nat \<Rightarrow> nat \<Rightarrow> Sequencer \<times> Journaler \<Rightarrow> bool" where
  "cadence_inv pg bytes F S n = (\<lambda>(s, j). journal_ok j \<and> unat (jr_map_bytes j) = bytes \<and> unat (journal_count j) = n \<and>
     unat (sq_flush_interval s) = F \<and> unat (sq_sync_every s) = S \<and> unat (sq_since_flush s) = n mod F \<and>
     unat (sq_flush_no s) = (if S = 0 then 0 else n div F) \<and> unat (jr_synced_count j) = n div F * F \<and>
     map call_range (jr_msync j) = flush_schedule pg bytes F S (n div F))"

lemma unat_inc: "Suc (unat (x :: 'a :: len word)) \<le> m \<Longrightarrow> m < 2 ^ LENGTH('a) \<Longrightarrow> unat (x + 1) = Suc (unat x)"
  by (simp add: unat_word_ariths)

text \<open>What the cadence does after the \<open>n\<close>-th order: nothing, or one flush of the kind that is due.\<close>

lemma publish_cadence_step:
  assumes "unat (sq_flush_interval s) = F" "0 < F" "unat (sq_sync_every s) = S" "unat (sq_since_flush s) = n mod F"
    "unat (sq_flush_no s) = (if S = 0 then 0 else n div F)" "Suc n < 2 ^ 64"
  shows "\<exists>s'. publish_cadence pg (s, j) = (s', if Suc n mod F = 0 then sync_dirty pg (flush_flag S (n div F)) j else j) \<and>
     unat (sq_flush_interval s') = F \<and> unat (sq_sync_every s') = S \<and> unat (sq_since_flush s') = Suc n mod F \<and>
     unat (sq_flush_no s') = (if S = 0 then 0 else Suc n div F)"
proof -
  have F: "F < 2 ^ 32" using assms(1) unsigned_less [of "sq_flush_interval s", where ?'a = nat] by simp
  have since: "unat (sq_since_flush s + 1) = Suc (n mod F)"
    using unat_inc [of "sq_since_flush s" F] assms(2,4) F mod_less_divisor [OF assms(2), of n] by (simp add: Suc_le_eq)
  have due: "sq_flush_interval s \<le> sq_since_flush s + 1 \<longleftrightarrow> Suc n mod F = 0"
    using assms(1,2) since mod_less_divisor [OF assms(2), of n] by (auto simp: word_le_nat_alt mod_Suc)
  have "n div F \<le> n" by simp
  then have no: "unat (sq_flush_no s + 1) = Suc (n div F)" if "S \<noteq> 0"
    using unat_inc [of "sq_flush_no s" "Suc n"] assms(5,6) that by simp
  have S0: "sq_sync_every s = 0 \<longleftrightarrow> S = 0" using assms(3) by (auto simp: word_unat_eq_iff)
  have Sx: "unat (ucast (sq_sync_every s) :: 64 word) = S"
    using assms(3) unsigned_less [of "sq_sync_every s", where ?'a = nat]
    by (simp add: unsigned_ucast_eq take_bit_nat_eq_self)
  have sync: "(sq_flush_no s + 1) mod ucast (sq_sync_every s) = 0 \<longleftrightarrow> Suc (n div F) mod S = 0" if "S \<noteq> 0"
    using no [OF that] Sx by (simp add: word_unat_eq_iff unat_mod)
  show ?thesis
  proof (cases "Suc n mod F = 0")
    case True
    then show ?thesis using due S0 sync no assms(1,3)
      by (auto simp: publish_cadence_def Let_def flush_sync_def flush_async_def flush_flag_def div_Suc assms(5))
  next
    case False
    then show ?thesis using due since assms(1,3,5) by (auto simp: publish_cadence_def Let_def mod_Suc div_Suc)
  qed
qed

lemma cadence_inv_step:
  assumes inv: "cadence_inv (unat pg) bytes F S n (s, j)" and F: "0 < F" and pg: "0 < unat pg" "bytes + unat pg < 2 ^ 64"
    and b: "publish_begin o' (s, j) = Inr (o2, s1, j1)"
  shows "cadence_inv (unat pg) bytes F S (Suc n) (publish_cadence pg (s1, j1))"
proof -
  have ok: "journal_ok j" using inv by (simp add: cadence_inv_def)
  note c = publish_begin_cases [OF ok, of s o', unfolded b]
  have "Suc n < 2 ^ 64" using c inv unsigned_less [of "journal_count j1", where ?'a = nat] by (simp add: cadence_inv_def)
  then obtain s2 where s2: "publish_cadence pg (s1, j1) = (s2, if Suc n mod F = 0 then sync_dirty pg (flush_flag S (n div F)) j1 else j1)"
    "unat (sq_flush_interval s2) = F" "unat (sq_sync_every s2) = S" "unat (sq_since_flush s2) = Suc n mod F"
    "unat (sq_flush_no s2) = (if S = 0 then 0 else Suc n div F)"
    using publish_cadence_step [of s1 F S n pg j1] inv c F by (auto simp: cadence_inv_def)
  show ?thesis
  proof (cases "Suc n mod F = 0")
    case True
    then have d: "Suc n div F = Suc (n div F)" by (simp add: div_Suc)
    have m: "Suc n = Suc (n div F) * F" using True d by (metis mult.commute div_mult_mod_eq add.right_neutral)
    have j1: "journal_ok j1" "unat (jr_map_bytes j1) = bytes" "unat (journal_count j1) = Suc n" "unat (jr_synced_count j1) = n div F * F"
      "map call_range (jr_msync j1) = flush_schedule (unat pg) bytes F S (n div F)"
      using c inv by (auto simp: cadence_inv_def)
    have "jr_synced_count j1 \<noteq> journal_count j1" using j1(3,4) m F by (auto simp: word_unat_eq_iff)
    then have "map call_range (jr_msync (sync_dirty pg (flush_flag S (n div F)) j1)) = flush_schedule (unat pg) bytes F S (Suc n div F)"
      using sync_dirty_ranges [OF j1(1) pg(1), of "flush_flag S (n div F)"] j1 pg(2) d m by (simp add: flush_schedule_def)
    moreover have "unat (jr_synced_count (sync_dirty pg (flush_flag S (n div F)) j1)) = Suc n div F * F"
      using sync_dirty_cursor [of j1] j1 d m by (simp add: journal_ok_def)
    ultimately show ?thesis using s2 True j1 by (simp add: cadence_inv_def sync_dirty_ok)
  next
    case False
    then have "Suc n div F = n div F" by (simp add: div_Suc)
    then show ?thesis using s2 False c inv by (auto simp: cadence_inv_def)
  qed
qed

lemma publish_all_cadence:
  assumes "cadence_inv (unat pg) bytes F S n st" "0 < F" "0 < unat pg" "bytes + unat pg < 2 ^ 64" "publish_all pg os st = Inr st'"
  shows "cadence_inv (unat pg) bytes F S (n + length os) st'"
  using assms(1,5)
proof (induction os arbitrary: n st)
  case (Cons o' os)
  obtain s j where st: "st = (s, j)" by force
  obtain o2 s1 j1 where b: "publish_begin o' (s, j) = Inr (o2, s1, j1)" "publish_all pg os (publish_cadence pg (s1, j1)) = Inr st'"
    using Cons.prems(2) st by (auto split: sum.splits prod.splits)
  from Cons.IH [OF cadence_inv_step [OF Cons.prems(1) [unfolded st] assms(2-4) b(1)] b(2)] show ?case by simp
qed simp

section \<open>What is not covered\<close>

lemma cadence_inv_fresh:
  assumes "64 + unat cap * 40 < 2 ^ 64" "f \<noteq> 0"
  shows "cadence_inv pg (64 + unat cap * 40) (unat f) (unat e) 0 (sequencer_init f e, fresh_wal cap)"
  using fresh_wal_ok [OF assms(1)] unat_offset [OF assms(1)] assms(2)
  by (simp add: cadence_inv_def sequencer_init_def flush_schedule_def fresh_wal_def journal_count_def)

text \<open>No flush other than the one of its own interval comes near the middle of an interval.\<close>

lemma flush_misses:
  assumes "(c, b, e, MS_SYNC) \<in> set (flush_ranges 4096 bytes fl (k * 1024) c')" "103 \<le> i mod 1024" "i mod 1024 < 921"
    "k < i div 1024 \<and> c' \<le> Suc k * 1024 \<or> i div 1024 < k"
  shows "\<not> (b \<le> 64 + 40 * i \<and> 64 + 40 * i < e)"
proof -
  define a where "a = i div 1024"
  define d where "d = i mod 1024"
  note m = assms(2,3) [folded d_def]
  have i: "i = a * 1024 + d" unfolding a_def d_def by simp
  have lo: "64 + k * 1024 * 40 < dirty_from 4096 (k * 1024) + 4096"
    using div_mult_mod_eq [of "64 + k * 1024 * 40" 4096] mod_less_divisor [of 4096 "64 + k * 1024 * 40"] by (simp add: dirty_from_def)
  have hi: "dirty_upto 4096 bytes c' \<le> 64 + c' * 40 + 4095" by (simp add: dirty_upto_def min.coboundedI2)
  consider "b = dirty_from 4096 (k * 1024)" "e = dirty_upto 4096 bytes c'" | "e = 4096"
    using assms(1) by (auto simp: flush_ranges_def split: if_splits)
  then show ?thesis
  proof cases
    case 1
    show ?thesis
    proof (cases "a < k")
      case True
      then have "Suc a \<le> k" "64 + k * 40960 < b + 4096" using lo 1(1) by simp_all
      then have "64 + 40 * i < b" using m unfolding i by simp
      then show ?thesis by simp
    next
      case False
      then have "c' \<le> Suc k * 1024" "Suc k \<le> a" using assms(4) a_def by auto
      then have "e \<le> 64 + 40 * i" using 1(2) hi m unfolding i by simp
      then show ?thesis by simp
    qed
  next
    case 2
    then show ?thesis using m unfolding i by simp
  qed
qed

text \<open>
  C22. With the default cadence (a flush every 1024 orders, every 64th of them synchronous) and pages of 4096 bytes, a synchronous
  checkpoint does not make the earlier records durable: a record in the middle of an interval that was flushed
  asynchronously, one of the records 103 to 920 of its 1024, is covered by no synchronous \<^verbatim>\<open>msync\<close>, however many orders and checkpoints follow, and
  not by the final checkpoint of the sequencer either.
\<close>

theorem checkpoint_gap:
  assumes "unat cap < 2 ^ 58" "publish_all 4096 os (sequencer_init 1024 64, fresh_wal cap) = Inr st"
    "i div 1024 < length os div 1024" "Suc (i div 1024) mod 64 \<noteq> 0" "103 \<le> i mod 1024" "i mod 1024 < 921"
  shows "\<not> record_durable (snd (sequencer_flush 4096 st)) i"
proof -
  obtain s j where st: "st = (s, j)" by force
  let ?n = "length os" and ?bytes = "64 + unat cap * 40"
  have cap: "?bytes + 4096 < 2 ^ 64" using assms(1) by simp
  have inv: "cadence_inv 4096 ?bytes 1024 64 ?n (s, j)"
    using publish_all_cadence [of 4096 ?bytes 1024 64 0 "(sequencer_init 1024 64, fresh_wal cap)" os st]
      cadence_inv_fresh [of cap 1024 4096 64] cap assms(2) st by simp
  have ranges: "map call_range (jr_msync (flush_sync 4096 j)) =
      flush_schedule 4096 ?bytes 1024 64 (?n div 1024) @ flush_ranges 4096 ?bytes MS_SYNC (?n div 1024 * 1024) ?n"
    using sync_dirty_ranges [of j 4096 MS_SYNC] inv cap by (simp add: cadence_inv_def flush_sync_def)
  have "\<not> (b \<le> 64 + 40 * i \<and> 64 + 40 * i < e)" if "(c, b, e, MS_SYNC) \<in> set (map call_range (jr_msync (flush_sync 4096 j)))" for c b e
    using that unfolding ranges set_append
  proof
    assume "(c, b, e, MS_SYNC) \<in> set (flush_schedule 4096 ?bytes 1024 64 (?n div 1024))"
    then obtain k where k: "(c, b, e, MS_SYNC) \<in> set (flush_ranges 4096 ?bytes (flush_flag 64 k) (k * 1024) (Suc k * 1024))"
      by (auto simp: flush_schedule_def)
    then have "flush_flag 64 k = MS_SYNC" by (auto simp: flush_ranges_def split: if_splits)
    then have "k \<noteq> i div 1024" using assms(4) by (auto simp: flush_flag_def split: if_splits)
    then show ?thesis by (intro flush_misses [OF k assms(5,6)]) auto
  next
    assume "(c, b, e, MS_SYNC) \<in> set (flush_ranges 4096 ?bytes MS_SYNC (?n div 1024 * 1024) ?n)"
    then show ?thesis using assms(3) by (intro flush_misses [OF _ assms(5,6)]) auto
  qed
  then have "\<not> byte_durable (flush_sync 4096 j) i (64 + 40 * i)" unfolding byte_durable_ranges by fastforce
  then show ?thesis using st by (auto simp: sequencer_flush_def record_durable_def list_all_iff)
qed

theorem checkpoint_gap_witness:
  "\<exists>st. publish_all 4096 (replicate 65536 zero_order) (sequencer_init 1024 64, fresh_wal 70000) = Inr st \<and>
     \<not> record_durable (snd (sequencer_flush 4096 st)) 500"
proof -
  obtain st where st: "publish_all 4096 (replicate 65536 zero_order) (sequencer_init 1024 64, fresh_wal 70000) = Inr st"
    using publish_fresh [where cap = 70000 and pg = 4096 and os = "replicate 65536 zero_order" and flush_interval = 1024 and sync_every = 64]
    by (auto split: sum.splits)
  then show ?thesis using checkpoint_gap [OF _ st, of 500] by auto
qed

end
