(* ===== verification/Snapshot_Pool.thy ===== *)
theory Snapshot_Pool
  imports Titan_Prelude
begin

text \<open>
  The lock-free triple buffer between the matcher (writer) and the snapshot thread (reader),
  \<^verbatim>\<open>SnapshotPool\<close> of \<^verbatim>\<open>include/titan/book/snapshot.hpp\<close>. All its atomic accesses are sequentially
  consistent, so that an execution is an interleaving of the accesses of the two threads. Each
  function below performs the next access of its thread, with the program point as part of the
  state; the body of \<^verbatim>\<open>fill\<close>, which is not atomic, takes the buffer through a torn state (\<open>None\<close>).
\<close>

section \<open>State and steps\<close>

datatype writer_pc =
    W_idle
  | W_scan int nat
  | W_fill nat
  | W_publish nat

datatype reader_pc =
    R_idle
  | R_try nat
  | R_loaded nat nat
  | R_marked nat nat
  | R_lost nat nat
  | R_hold nat

record 'b pool =
  published :: int
  in_use :: "nat \<Rightarrow> bool"
  buffers :: "nat \<Rightarrow> 'b option"
  writer :: writer_pc
  reader :: reader_pc
  skipped :: nat

definition pool_init :: "'b pool" where
  "pool_init = \<lparr>published = -1, in_use = (\<lambda>_. False), buffers = (\<lambda>_. None), writer = W_idle, reader = R_idle, skipped = 0\<rparr>"

definition CLAIM_RETRIES :: nat where
  "CLAIM_RETRIES = 1024"

text \<open>
  \<^verbatim>\<open>try_snapshot\<close> with \<^verbatim>\<open>reserve_free_slot\<close>: load \<^verbatim>\<open>published_\<close>, look at the slots in turn, fill the first
  free one (with \<open>v\<close>), publish it; give up when there is none.
\<close>

definition writer_step :: "nat \<Rightarrow> 'b \<Rightarrow> 'b pool \<Rightarrow> 'b pool" where
  "writer_step Slots v s = (case writer s of
     W_idle \<Rightarrow> s\<lparr>writer := W_scan (published s) 0\<rparr>
   | W_scan pub j \<Rightarrow>
       if j \<ge> Slots then s\<lparr>writer := W_idle, skipped := Suc (skipped s)\<rparr>
       else if int j = pub \<or> in_use s j then s\<lparr>writer := W_scan pub (Suc j)\<rparr>
       else s\<lparr>writer := W_fill j, buffers := (buffers s)(j := None)\<rparr>
   | W_fill j \<Rightarrow> s\<lparr>writer := W_publish j, buffers := (buffers s)(j := Some v)\<rparr>
   | W_publish j \<Rightarrow> s\<lparr>writer := W_idle, published := int j\<rparr>)"

text \<open>\<^verbatim>\<open>acquire\<close>, with the number of the attempt, and \<^verbatim>\<open>release\<close>.\<close>

definition reader_step :: "'b pool \<Rightarrow> 'b pool" where
  "reader_step s = (case reader s of
     R_idle \<Rightarrow> s\<lparr>reader := R_try 0\<rparr>
   | R_try a \<Rightarrow>
       if a \<ge> CLAIM_RETRIES then s\<lparr>reader := R_idle\<rparr>
       else if published s < 0 then s\<lparr>reader := R_idle\<rparr>
       else s\<lparr>reader := R_loaded a (nat (published s))\<rparr>
   | R_loaded a i \<Rightarrow> s\<lparr>reader := R_marked a i, in_use := (in_use s)(i := True)\<rparr>
   | R_marked a i \<Rightarrow> if published s = int i then s\<lparr>reader := R_hold i\<rparr> else s\<lparr>reader := R_lost a i\<rparr>
   | R_lost a i \<Rightarrow> s\<lparr>reader := R_try (Suc a), in_use := (in_use s)(i := False)\<rparr>
   | R_hold i \<Rightarrow> s\<lparr>reader := R_idle, in_use := (in_use s)(i := False)\<rparr>)"

inductive pool_reach :: "nat \<Rightarrow> 'b pool \<Rightarrow> bool" for Slots where
  start: "pool_reach Slots pool_init"
| write_step: "pool_reach Slots s \<Longrightarrow> pool_reach Slots (writer_step Slots v s)"
| read_step: "pool_reach Slots s \<Longrightarrow> pool_reach Slots (reader_step s)"

section \<open>Invariant\<close>

text \<open>The slot that the reader has loaded, and whether its flag is up.\<close>

fun reader_slot :: "reader_pc \<Rightarrow> nat option" where
  "reader_slot (R_loaded a i) = Some i" | "reader_slot (R_marked a i) = Some i"
| "reader_slot (R_lost a i) = Some i" | "reader_slot (R_hold i) = Some i" | "reader_slot _ = None"

fun reader_mark :: "reader_pc \<Rightarrow> nat option" where
  "reader_mark (R_marked a i) = Some i" | "reader_mark (R_lost a i) = Some i"
| "reader_mark (R_hold i) = Some i" | "reader_mark _ = None"

fun writer_slot :: "writer_pc \<Rightarrow> nat option" where
  "writer_slot (W_fill j) = Some j" | "writer_slot (W_publish j) = Some j" | "writer_slot _ = None"

text \<open>
  While the writer scans, at most one slot other than the published one has been passed over, and
  the reader still has that slot, or has the published one, or none.
\<close>

definition scan_ok :: "'b pool \<Rightarrow> bool" where
  "scan_ok s = (case writer s of
     W_scan pub j \<Rightarrow> pub = published s \<and>
       (\<forall>k < j. int k \<noteq> pub \<longrightarrow> (\<forall>i. reader_slot (reader s) = Some i \<longrightarrow> i = k \<or> int i = pub) \<and>
         (\<forall>k' < j. int k' \<noteq> pub \<longrightarrow> k' = k))
   | _ \<Rightarrow> True)"

definition pool_inv :: "nat \<Rightarrow> 'b pool \<Rightarrow> bool" where
  "pool_inv Slots s \<longleftrightarrow>
     (\<forall>i. in_use s i \<longleftrightarrow> reader_mark (reader s) = Some i) \<and>
     (\<forall>j. writer_slot (writer s) = Some j \<longrightarrow> published s \<noteq> int j \<and> reader s \<noteq> R_hold j \<and> j < Slots) \<and>
     (\<forall>j. writer s = W_publish j \<longrightarrow> buffers s j \<noteq> None) \<and>
     (\<forall>i. published s = int i \<longrightarrow> buffers s i \<noteq> None \<and> i < Slots) \<and> published s \<ge> -1 \<and>
     (\<forall>i. reader s = R_hold i \<longrightarrow> buffers s i \<noteq> None) \<and>
     (\<forall>i. reader_slot (reader s) = Some i \<longrightarrow> i < Slots) \<and> scan_ok s"

lemma pool_inv_init: "pool_inv Slots pool_init"
  by (simp add: pool_inv_def pool_init_def scan_ok_def)

lemma pool_invD:
  assumes "pool_inv Slots s"
  shows "in_use s i \<longleftrightarrow> reader_mark (reader s) = Some i"
    "writer_slot (writer s) = Some j \<Longrightarrow> published s \<noteq> int j \<and> reader s \<noteq> R_hold j \<and> j < Slots"
    "writer s = W_publish j \<Longrightarrow> buffers s j \<noteq> None"
    "published s = int i \<Longrightarrow> buffers s i \<noteq> None \<and> i < Slots" "published s \<ge> -1"
    "reader s = R_hold i \<Longrightarrow> buffers s i \<noteq> None"
    "reader_slot (reader s) = Some i \<Longrightarrow> i < Slots" "scan_ok s"
  using assms by (simp_all add: pool_inv_def)

lemma reader_mark_slot: "reader_mark r = Some i \<Longrightarrow> reader_slot r = Some i"
  by (cases r) auto

lemma scan_next:
  assumes "scan_ok s" "writer s = W_scan pub j" "int j = pub \<or> reader_slot (reader s) = Some j"
  shows "scan_ok (s\<lparr>writer := W_scan pub (Suc j)\<rparr>)"
proof -
  have old: "pub = published s" "\<And>k i. k < j \<Longrightarrow> int k \<noteq> pub \<Longrightarrow> reader_slot (reader s) = Some i \<Longrightarrow> i = k \<or> int i = pub"
    "\<And>k k'. k < j \<Longrightarrow> int k \<noteq> pub \<Longrightarrow> k' < j \<Longrightarrow> int k' \<noteq> pub \<Longrightarrow> k' = k"
    using assms(1,2) by (auto simp: scan_ok_def)
  show ?thesis
  proof (cases "int j = pub")
    case True
    then show ?thesis using old by (auto simp: scan_ok_def less_Suc_eq)
  next
    case False
    then have "int k = pub" if "k < j" for k using old(2) [OF that _, of j] assms(3) that by auto
    then show ?thesis using old(1) False assms(3) by (auto simp: scan_ok_def less_Suc_eq)
  qed
qed

lemma writer_step_inv:
  assumes inv: "pool_inv Slots s"
  shows "pool_inv Slots (writer_step Slots v s)"
proof (cases "writer s")
  case W_idle
  then show ?thesis using inv by (simp add: pool_inv_def writer_step_def scan_ok_def)
next
  case (W_scan pub j)
  note d = pool_invD [OF inv]
  show ?thesis
  proof (cases "j < Slots \<and> (int j = pub \<or> in_use s j)")
    case True
    then have "scan_ok (s\<lparr>writer := W_scan pub (Suc j)\<rparr>)"
      using scan_next [OF d(8) W_scan] d(1) reader_mark_slot by blast
    then show ?thesis using inv True W_scan by (simp add: pool_inv_def writer_step_def)
  next
    case False
    have "pub = published s" using d(8) W_scan by (simp add: scan_ok_def)
    then show ?thesis using inv False W_scan by (auto simp: pool_inv_def writer_step_def scan_ok_def)
  qed
next
  case (W_fill j)
  then show ?thesis using inv by (simp add: pool_inv_def writer_step_def scan_ok_def)
next
  case (W_publish j)
  then show ?thesis using inv by (simp add: pool_inv_def writer_step_def scan_ok_def)
qed

lemma reader_step_inv: "pool_inv Slots s \<Longrightarrow> pool_inv Slots (reader_step s)"
  by (auto simp: pool_inv_def writer_step_def reader_step_def scan_ok_def less_Suc_eq split: writer_pc.splits reader_pc.splits if_splits)

lemma pool_reach_inv: "pool_reach Slots s \<Longrightarrow> pool_inv Slots s"
  by (induction rule: pool_reach.induct) (auto intro: pool_inv_init writer_step_inv reader_step_inv)

section \<open>Properties\<close>

text \<open>
  C13. A reader never sees a torn snapshot. Whenever \<^verbatim>\<open>acquire\<close> has handed out a buffer and it is not
  yet released, that buffer is completely written, and no step of the writer changes it, however
  the two threads are interleaved. Nor is the published buffer ever overwritten.
\<close>

theorem snapshot_never_torn:
  assumes "pool_reach Slots s" "reader s = R_hold i"
  shows "i < Slots \<and> buffers s i \<noteq> None \<and> buffers (writer_step Slots v s) i = buffers s i"
proof -
  note d = pool_invD [OF pool_reach_inv [OF assms(1)]]
  have "in_use s i" "writer_slot (writer s) \<noteq> Some i" using d(1,2) assms(2) by auto
  then have "buffers (writer_step Slots v s) i = buffers s i"
    by (auto simp: writer_step_def split: writer_pc.splits)
  then show ?thesis using d(6,7) assms(2) by simp
qed

text \<open>
  C14. With three slots and one reader the writer always finds a free slot: \<^verbatim>\<open>reserve_free_slot\<close> never
  returns \<open>-1\<close>, so that no snapshot cycle is ever skipped, in any interleaving with the reader.
\<close>

theorem writer_never_skips:
  assumes "pool_reach Slots s" "Slots \<ge> 3"
  shows "skipped s = 0 \<and> writer s \<noteq> W_scan pub Slots"
proof -
  have no: "\<not> (writer s = W_scan pub j \<and> j \<ge> Slots)" if "pool_reach Slots s" for s :: "'a pool" and pub j
  proof
    assume w: "writer s = W_scan pub j \<and> j \<ge> Slots"
    have "\<forall>k < j. int k \<noteq> pub \<longrightarrow> (\<forall>k' < j. int k' \<noteq> pub \<longrightarrow> k' = k)"
      using pool_invD(8) [OF pool_reach_inv [OF that]] w by (simp add: scan_ok_def)
    moreover have "0 < j" "1 < j" "2 < j" using w assms(2) by auto
    ultimately have "int 0 = pub \<or> int 1 = pub" "int 0 = pub \<or> int 2 = pub" "int 1 = pub \<or> int 2 = pub"
      by (metis zero_neq_one, metis zero_neq_numeral, metis one_eq_numeral_iff num.distinct(1))
    then show False by auto
  qed
  have "skipped s = 0" using assms(1)
  proof induction
    case (write_step s v)
    then show ?case using no [OF write_step.hyps(1)] by (auto simp: writer_step_def split: writer_pc.splits)
  next
    case (read_step s)
    then show ?case by (auto simp: reader_step_def split: reader_pc.splits)
  qed (simp add: pool_init_def)
  then show ?thesis using no [OF assms(1)] by blast
qed

text \<open>A run of both threads: one complete \<^verbatim>\<open>try_snapshot\<close> of \<open>7\<close>, then \<^verbatim>\<open>acquire\<close>, then the start of a second one.\<close>

definition pool_run :: "nat pool" where
  "pool_run =
     (let w = writer_step 3 7; r = reader_step
      in (w \<circ> w \<circ> r \<circ> r \<circ> r \<circ> r \<circ> w \<circ> w \<circ> w \<circ> w) pool_init)"

lemma pool_run_reach: "pool_reach 3 pool_run"
  unfolding pool_run_def Let_def comp_def by (intro pool_reach.intros)

theorem snapshot_never_torn_witness:
  "reader pool_run = R_hold 0 \<and> buffers pool_run 0 \<noteq> None \<and> buffers (writer_step 3 9 pool_run) 0 = buffers pool_run 0"
proof -
  have "reader pool_run = R_hold 0"
    by (simp add: pool_run_def Let_def pool_init_def writer_step_def reader_step_def CLAIM_RETRIES_def)
  with snapshot_never_torn [OF pool_run_reach this, of 9] show ?thesis by simp
qed

theorem writer_never_skips_witness: "skipped pool_run = 0 \<and> writer pool_run \<noteq> W_scan 0 3"
  using writer_never_skips [OF pool_run_reach] by simp

end
