(* ===== verification/Udp_Publisher.thy ===== *)
theory Udp_Publisher
  imports Domain_Types
begin

text \<open>
  The multicast feed, \<^verbatim>\<open>include/titan/net/udp_publisher.hpp\<close>. The answers of the socket are a list: each call of
  \<^verbatim>\<open>sendto\<close> takes the next one. A function that needs an answer when there are no more has the value \<open>None\<close>:
  the call has not returned yet. \<open>up_wire\<close> notes the payloads that the kernel has taken.
\<close>

section \<open>The publisher\<close>

text \<open>A payload is a chunk of events or the raw bytes of another structure.\<close>

record 'p UdpPublisher =
  up_sent :: "64 word"
  up_dropped :: "64 word"
  up_datagrams :: "64 word"
  up_drops :: "64 word"
  up_wire :: "'p list"

datatype sendto_result = Returned int | Failed_EINTR | Failed_other

datatype udp_error = UDP_SOCKET_FAILED | BAD_IFACE_IP | MULTICAST_IF_FAILED | BAD_GROUP_ADDR

record udp_env =
  ue_socket :: bool
  ue_iface_ip :: bool
  ue_multicast_if :: bool
  ue_group :: bool

text \<open>The constructor; the first component says whether it has closed the socket.\<close>

definition udp_create :: "udp_env \<Rightarrow> bool \<times> (udp_error + 'p UdpPublisher)" where
  "udp_create env =
     (if \<not> ue_socket env then (False, Inl UDP_SOCKET_FAILED)
      else if \<not> ue_iface_ip env then (True, Inl BAD_IFACE_IP)
      else if \<not> ue_multicast_if env then (True, Inl MULTICAST_IF_FAILED)
      else if \<not> ue_group env then (True, Inl BAD_GROUP_ADDR)
      else (False, Inr \<lparr>up_sent = 0, up_dropped = 0, up_datagrams = 0, up_drops = 0, up_wire = []\<rparr>))"

definition sizeof_TradeEvent :: nat where
  "sizeof_TradeEvent = 40"

definition MAX_DGRAM_BYTES :: nat where
  "MAX_DGRAM_BYTES = 1440"

definition TRADES_PER_DGRAM :: nat where
  "TRADES_PER_DGRAM = MAX_DGRAM_BYTES div sizeof_TradeEvent"

text \<open>The loop of \<^verbatim>\<open>publish\<close>, from index \<open>i\<close> of the batch.\<close>

fun udp_publish_loop :: "sendto_result list \<Rightarrow> TradeEvent list \<Rightarrow> nat \<Rightarrow> TradeEvent list UdpPublisher \<Rightarrow>
    (sendto_result list \<times> TradeEvent list UdpPublisher) option" where
  "udp_publish_loop [] batch i u = (if i < length batch then None else Some ([], u))"
| "udp_publish_loop (s # script) batch i u =
     (if i < length batch then
        let chunk = min (length batch - i) TRADES_PER_DGRAM;
            bytes = chunk * sizeof_TradeEvent in
        if s = Failed_EINTR then udp_publish_loop script batch i u
        else udp_publish_loop script batch (i + chunk)
          (if s = Returned (int bytes)
           then u\<lparr>up_datagrams := up_datagrams u + 1, up_sent := up_sent u + of_nat chunk, up_wire := up_wire u @ [take chunk (drop i batch)]\<rparr>
           else u\<lparr>up_drops := up_drops u + 1, up_dropped := up_dropped u + of_nat chunk\<rparr>)
      else Some (s # script, u))"

definition udp_publish :: "sendto_result list \<Rightarrow> TradeEvent list \<Rightarrow> TradeEvent list UdpPublisher \<Rightarrow>
    (sendto_result list \<times> TradeEvent list UdpPublisher) option" where
  "udp_publish script batch u = udp_publish_loop script batch 0 u"

fun send_raw :: "sendto_result list \<Rightarrow> 'p \<Rightarrow> nat \<Rightarrow> 'p UdpPublisher \<Rightarrow> (bool \<times> sendto_result list \<times> 'p UdpPublisher) option" where
  "send_raw [] data bytes u = None"
| "send_raw (s # script) data bytes u =
     (if s = Failed_EINTR then send_raw script data bytes u
      else if s = Returned (int bytes)
      then Some (True, script, u\<lparr>up_datagrams := up_datagrams u + 1, up_wire := up_wire u @ [data]\<rparr>)
      else Some (False, script, u\<lparr>up_drops := up_drops u + 1\<rparr>))"

section \<open>Chunks\<close>

function chunks :: "'a list \<Rightarrow> 'a list list" where
  "chunks xs = (if xs = [] then [] else take 36 xs # chunks (drop 36 xs))"
  by pat_completeness auto
termination by (relation "measure length") auto

declare chunks.simps [simp del]

lemma chunks_Nil [simp]: "chunks [] = []"
  by (simp add: chunks.simps)

lemma chunks_nonempty: "xs \<noteq> [] \<Longrightarrow> chunks xs = take 36 xs # chunks (drop 36 xs)"
  by (subst chunks.simps) simp

lemma chunks_partition: "concat (chunks xs) = xs"
  by (induction xs rule: chunks.induct) (subst chunks.simps, simp)

lemma chunks_size: "c \<in> set (chunks xs) \<Longrightarrow> 0 < length c \<and> length c \<le> 36"
proof (induction xs rule: chunks.induct)
  case (1 xs)
  show ?case
  proof (cases "xs = []")
    case False
    then show ?thesis using 1 chunks_nonempty [OF False] by auto
  qed (use 1 in simp)
qed

text \<open>The answers that decide about a chunk, and the chunks that they accept.\<close>

definition decisive :: "sendto_result list \<Rightarrow> sendto_result list" where
  "decisive = filter (\<lambda>s. s \<noteq> Failed_EINTR)"

definition accepted :: "TradeEvent list list \<Rightarrow> sendto_result list \<Rightarrow> TradeEvent list list" where
  "accepted cs script = map fst (filter (\<lambda>(c, s). s = Returned (int (length c * 40))) (zip cs script))"

definition refused :: "TradeEvent list list \<Rightarrow> sendto_result list \<Rightarrow> TradeEvent list list" where
  "refused cs script = map fst (filter (\<lambda>(c, s). s \<noteq> Returned (int (length c * 40))) (zip cs script))"

lemma accepted_Cons [simp]:
  "accepted (c # cs) (s # script) = (if s = Returned (int (length c * 40)) then [c] else []) @ accepted cs script"
  "refused (c # cs) (s # script) = (if s = Returned (int (length c * 40)) then [] else [c]) @ refused cs script"
  "accepted [] script = []" "refused [] script = []"
  by (auto simp: accepted_def refused_def)

lemma accepted_refused: "length cs \<le> length script \<Longrightarrow> length (accepted cs script) + length (refused cs script) = length cs \<and>
    length (concat (accepted cs script)) + length (concat (refused cs script)) = length (concat cs)"
proof (induction cs arbitrary: script)
  case (Cons c cs)
  then obtain s rest where "script = s # rest" by (cases script) auto
  then show ?case using Cons by auto
qed simp

lemma udp_publish_loop_spec:
  assumes "length (chunks (drop i batch)) \<le> length (decisive script)"
  defines "cs \<equiv> chunks (drop i batch)"
  shows "\<exists>rest. udp_publish_loop script batch i u = Some (rest,
     u\<lparr>up_sent := up_sent u + of_nat (length (concat (accepted cs (decisive script)))),
       up_dropped := up_dropped u + of_nat (length (concat (refused cs (decisive script)))),
       up_datagrams := up_datagrams u + of_nat (length (accepted cs (decisive script))),
       up_drops := up_drops u + of_nat (length (refused cs (decisive script))),
       up_wire := up_wire u @ accepted cs (decisive script)\<rparr>)"
  using assms(1) unfolding cs_def
proof (induction script arbitrary: i u)
  case Nil
  then have "drop i batch = []" using chunks_nonempty [of "drop i batch"] by (auto simp: decisive_def)
  then show ?case by simp
next
  case (Cons s script)
  show ?case
  proof (cases "i < length batch")
    case True
    then have ne: "drop i batch \<noteq> []" by simp
    let ?n = "min (length batch - i) 36"
    have ck: "chunks (drop i batch) = take 36 (drop i batch) # chunks (drop (i + ?n) batch)"
      using chunks_nonempty [OF ne] by (auto simp: min_def add.commute)
    have len: "length (take 36 (drop i batch)) = ?n" "take ?n (drop i batch) = take 36 (drop i batch)"
      by (auto simp: min_def)
    note T = TRADES_PER_DGRAM_def MAX_DGRAM_BYTES_def sizeof_TradeEvent_def
    show ?thesis
    proof (cases "s = Failed_EINTR")
      case False
      let ?u = "if s = Returned (int (?n * 40))
           then u\<lparr>up_datagrams := up_datagrams u + 1, up_sent := up_sent u + of_nat ?n, up_wire := up_wire u @ [take ?n (drop i batch)]\<rparr>
           else u\<lparr>up_drops := up_drops u + 1, up_dropped := up_dropped u + of_nat ?n\<rparr>"
      have "udp_publish_loop (s # script) batch i u = udp_publish_loop script batch (i + ?n) ?u"
        using True False by (simp add: T Let_def)
      moreover have "length (chunks (drop (i + ?n) batch)) \<le> length (decisive script)"
        using Cons.prems False ck by (simp add: decisive_def)
      ultimately show ?thesis using Cons.IH [of "i + ?n" ?u] False ck len
        by (auto simp: decisive_def algebra_simps)
    qed (use True Cons in \<open>auto simp: decisive_def T\<close>)
  qed simp
qed

text \<open>
  Publishing a batch returns as soon as the socket has decided about every chunk, whatever interruptions come between. The
  chunks partition the batch in order, each fits an MTU-safe datagram; the datagrams on the wire are the chunks that
  the kernel has taken in full, and the four counters account for every event and every datagram, sent or dropped.
\<close>

theorem udp_publish_accounts:
  assumes "length (chunks batch) \<le> length (decisive script)"
  shows "concat (chunks batch) = batch \<and> list_all (\<lambda>c. 0 < length c \<and> length c * sizeof_TradeEvent \<le> MAX_DGRAM_BYTES) (chunks batch) \<and>
    (case udp_publish script batch u of
       None \<Rightarrow> False
     | Some (rest, u') \<Rightarrow> up_wire u' = up_wire u @ accepted (chunks batch) (decisive script) \<and>
         up_sent u' + up_dropped u' = up_sent u + up_dropped u + of_nat (length batch) \<and>
         up_datagrams u' + up_drops u' = up_datagrams u + up_drops u + of_nat (length (chunks batch)) \<and>
         up_sent u' = up_sent u + of_nat (length (concat (accepted (chunks batch) (decisive script)))))"
proof -
  have "concat (chunks batch) = batch" by (rule chunks_partition)
  moreover have "list_all (\<lambda>c. 0 < length c \<and> length c * sizeof_TradeEvent \<le> MAX_DGRAM_BYTES) (chunks batch)"
    using chunks_size by (fastforce simp: list_all_iff sizeof_TradeEvent_def MAX_DGRAM_BYTES_def)
  moreover obtain rest u' where u: "udp_publish script batch u = Some (rest, u')"
    "u' = u\<lparr>up_sent := up_sent u + of_nat (length (concat (accepted (chunks batch) (decisive script)))),
       up_dropped := up_dropped u + of_nat (length (concat (refused (chunks batch) (decisive script)))),
       up_datagrams := up_datagrams u + of_nat (length (accepted (chunks batch) (decisive script))),
       up_drops := up_drops u + of_nat (length (refused (chunks batch) (decisive script))),
       up_wire := up_wire u @ accepted (chunks batch) (decisive script)\<rparr>"
    using udp_publish_loop_spec [of 0 batch script u] assms by (auto simp: udp_publish_def)
  moreover have "(of_nat (length (accepted (chunks batch) (decisive script))) :: 64 word) + of_nat (length (refused (chunks batch) (decisive script))) =
      of_nat (length (chunks batch))"
    "(of_nat (length (concat (accepted (chunks batch) (decisive script)))) :: 64 word) +
      of_nat (length (concat (refused (chunks batch) (decisive script)))) = of_nat (length batch)"
    using accepted_refused [OF assms] chunks_partition [of batch] by (simp_all only: of_nat_add [symmetric])
  ultimately show ?thesis by (simp add: algebra_simps)
qed

definition one_trade :: TradeEvent where
  "one_trade = \<lparr>te_taker_id = 2, te_maker_id = 1, te_price = 101, te_feed_seq = 2, te_quantity = 3, te_taker_side = BUY, te_status = 0\<rparr>"

theorem udp_publish_accounts_witness:
  "let u = \<lparr>up_sent = 0, up_dropped = 0, up_datagrams = 0, up_drops = 0, up_wire = []\<rparr> in
   case udp_publish [Failed_EINTR, Returned 1440, Failed_other] (replicate 40 one_trade) u of
     None \<Rightarrow> False | Some (rest, u') \<Rightarrow> up_sent u' + up_dropped u' = 40 \<and> up_sent u' = 36"
proof -
  have c: "chunks (replicate 40 one_trade) = [replicate 36 one_trade, replicate 4 one_trade]"
    by (simp add: chunks.simps)
  show ?thesis
    using udp_publish_accounts [of "replicate 40 one_trade" "[Failed_EINTR, Returned 1440, Failed_other]"
        "\<lparr>up_sent = 0, up_dropped = 0, up_datagrams = 0, up_drops = 0, up_wire = []\<rparr>"]
    by (auto simp: c decisive_def split: option.splits)
qed

end
