(* ===== verification/Snapshot_Feed.thy ===== *)
theory Snapshot_Feed
  imports Snapshot Udp_Publisher
begin

text \<open>
  The snapshot thread of \<^verbatim>\<open>src/main.cpp\<close>: \<open>send_latest\<close> multicasts the buffer that it got from the pool, once per generation. The pool
  itself, with \<^verbatim>\<open>acquire\<close> and \<^verbatim>\<open>release\<close>, is in \<^verbatim>\<open>Snapshot_Pool\<close>; here its answer is an argument.
\<close>

record snapshot_thread =
  st_udp :: "SnapshotBuffer UdpPublisher"
  st_last_seq :: "64 word"
  st_sent :: "64 word"

definition snapshot_bytes :: "SnapshotBuffer \<Rightarrow> nat" where
  "snapshot_bytes b = 64 + unat (sh_level_count (sb_header b)) * 24"

definition send_latest :: "sendto_result list \<Rightarrow> SnapshotBuffer option \<Rightarrow> snapshot_thread \<Rightarrow> (sendto_result list \<times> snapshot_thread) option" where
  "send_latest script acquired t =
     (case acquired of
        None \<Rightarrow> Some (script, t)
      | Some b \<Rightarrow>
          if sh_feed_seq (sb_header b) \<noteq> st_last_seq t then
            case send_raw script b (snapshot_bytes b) (st_udp t) of
              None \<Rightarrow> None
            | Some (ok, script, u) \<Rightarrow>
                let t = t\<lparr>st_udp := u\<rparr> in
                Some (script, if ok then t\<lparr>st_sent := st_sent t + 1, st_last_seq := sh_feed_seq (sb_header b)\<rparr> else t)
          else Some (script, t))"

lemma snapshot_fits:
  assumes "book_inv b"
  shows "snapshot_bytes (serialize_l2 56 b q buf) \<le> MAX_DGRAM_BYTES"
proof -
  obtain L where L: "book_ok b L" using assms by (rule book_invE)
  let ?n = "length (take 28 (book_levels True b)) + length (take 28 (book_levels False b))"
  have "sh_level_count (sb_header (serialize_l2 56 b q buf)) = of_nat ?n" using serialize_l2_eq [OF L, of 56] by simp
  moreover have "unat (of_nat ?n :: 32 word) = ?n" by (rule level_count_words [of 56]) simp_all
  ultimately show ?thesis by (simp add: snapshot_bytes_def MAX_DGRAM_BYTES_def)
qed

lemma send_raw_decided:
  assumes "decisive script = a # as"
  shows "\<exists>rest. decisive rest = as \<and> send_raw script d n u = Some (if a = Returned (int n)
     then (True, rest, u\<lparr>up_datagrams := up_datagrams u + 1, up_wire := up_wire u @ [d]\<rparr>)
     else (False, rest, u\<lparr>up_drops := up_drops u + 1\<rparr>))"
  using assms
proof (induction script)
  case (Cons s script)
  then show ?case by (cases "s = Failed_EINTR") (auto simp: decisive_def)
qed (simp add: decisive_def)

text \<open>
  The snapshot feed: a snapshot of the book fits one MTU-safe datagram. It is sent when it is new, and after it was
  sent the same generation is not sent again; when the kernel refuses it, the thread tries again on the next poll.
\<close>

lemma snapshot_feed:
  assumes "book_inv b" "s = serialize_l2 56 b q buf" "q \<noteq> st_last_seq t" "decisive script = a # as"
  shows "snapshot_bytes s \<le> MAX_DGRAM_BYTES \<and> (\<exists>rest t'. send_latest script (Some s) t = Some (rest, t') \<and>
    (if a = Returned (int (snapshot_bytes s))
     then up_wire (st_udp t') = up_wire (st_udp t) @ [s] \<and> send_latest rest (Some s) t' = Some (rest, t')
     else up_wire (st_udp t') = up_wire (st_udp t) \<and> st_last_seq t' = st_last_seq t))"
proof -
  have q: "sh_feed_seq (sb_header s) = q" unfolding assms(2) by (simp add: serialize_l2_def Let_def split: prod.splits)
  obtain rest where r: "send_raw script s (snapshot_bytes s) (st_udp t) = Some (if a = Returned (int (snapshot_bytes s))
     then (True, rest, (st_udp t)\<lparr>up_datagrams := up_datagrams (st_udp t) + 1, up_wire := up_wire (st_udp t) @ [s]\<rparr>)
     else (False, rest, (st_udp t)\<lparr>up_drops := up_drops (st_udp t) + 1\<rparr>))"
    using send_raw_decided [OF assms(4), of s "snapshot_bytes s" "st_udp t"] by blast
  show ?thesis using snapshot_fits [OF assms(1), of q buf] assms(2,3) r q by (auto simp: send_latest_def Let_def)
qed

end
