(* ===== verification/Mpsc_Ring.thy ===== *)
theory Mpsc_Ring
  imports Spsc_Ring "HOL-Library.Sublist"
begin

text \<open>
  The multi-producer single-consumer ring, \<^verbatim>\<open>include/titan/pipeline/mpsc_ring.hpp\<close>: any number of
  producers race for positions with a compare-and-swap, and the consumer reads each cell once the
  cell's own sequence word shows it is published. An execution interleaves the atomic accesses
  of the threads, each of which is a step here, with the program point and the local variables of every
  thread in the state. Two more fields record, for the statements only, the items in the order in
  which their positions were won and the items the consumer has handed on.
\<close>

section \<open>State and steps\<close>

datatype 'a producer_pc =
    P_idle
  | P_head 'a "64 word"
  | P_seq 'a "64 word" "64 word"
  | P_won 'a "64 word"
  | P_written 'a "64 word"

datatype consumer_pc =
    C_idle
  | C_at bool "64 word" nat
  | C_read bool "64 word" nat
  | C_free bool "64 word" nat

record 'a mpsc =
  cell_seq :: "nat \<Rightarrow> 64 word"
  cell_data :: "nat \<Rightarrow> 'a"
  enqueue_pos :: "64 word"
  dequeue_pos :: "64 word"
  producers :: "nat \<Rightarrow> 'a producer_pc"
  consumer :: consumer_pc
  claimed :: "'a list"
  consumed :: "'a list"

definition mpsc_init :: "'a \<Rightarrow> 'a mpsc" where
  "mpsc_init z = \<lparr>cell_seq = of_nat, cell_data = (\<lambda>_. z), enqueue_pos = 0, dequeue_pos = 0,
     producers = (\<lambda>_. P_idle), consumer = C_idle, claimed = [], consumed = []\<rparr>"

abbreviation set_producer :: "nat \<Rightarrow> 'a producer_pc \<Rightarrow> 'a mpsc \<Rightarrow> 'a mpsc" where
  "set_producer t pc \<equiv> producers_update (\<lambda>f. f(t := pc))"

text \<open>
  The next access of thread \<open>t\<close> in \<^verbatim>\<open>try_publish\<close> (\<open>x\<close> is the item of a new call, \<open>weak\<close> a spurious
  failure of \<^verbatim>\<open>compare_exchange_weak\<close>). The thread is idle again when the call has returned.
\<close>

definition producer_step :: "nat \<Rightarrow> 'a \<Rightarrow> bool \<Rightarrow> nat \<Rightarrow> 'a mpsc \<Rightarrow> 'a mpsc" where
  "producer_step k x weak t s = (case producers s t of
     P_idle \<Rightarrow> set_producer t (P_head x (enqueue_pos s)) s
   | P_head y pos \<Rightarrow> set_producer t (P_seq y pos (cell_seq s (ring_slot k pos))) s
   | P_seq y pos seq \<Rightarrow>
       let dif = sint seq - sint pos in
       if dif = 0 then
         if enqueue_pos s = pos \<and> \<not> weak
         then set_producer t (P_won y pos) (s\<lparr>enqueue_pos := pos + 1, claimed := claimed s @ [y]\<rparr>)
         else set_producer t (P_head y (enqueue_pos s)) s
       else if dif < 0 then set_producer t P_idle s
       else set_producer t (P_head y (enqueue_pos s)) s
   | P_won y pos \<Rightarrow> set_producer t (P_written y pos) (s\<lparr>cell_data := (cell_data s)(ring_slot k pos := y)\<rparr>)
   | P_written y pos \<Rightarrow> set_producer t P_idle (s\<lparr>cell_seq := (cell_seq s)(ring_slot k pos := pos + 1)\<rparr>))"

text \<open>
  The next access of the consumer, in \<^verbatim>\<open>consume_batch\<close>, or in \<^verbatim>\<open>try_consume\<close> when \<open>one\<close>, which stops after
  one item.
\<close>

definition consumer_step :: "nat \<Rightarrow> bool \<Rightarrow> 'a mpsc \<Rightarrow> 'a mpsc" where
  "consumer_step k one s = (case consumer s of
     C_idle \<Rightarrow> s\<lparr>consumer := C_at one (dequeue_pos s) 0\<rparr>
   | C_at one pos n \<Rightarrow>
       if (one \<and> n \<noteq> 0) \<or> sint (cell_seq s (ring_slot k pos)) - sint (pos + 1) \<noteq> 0
       then s\<lparr>consumer := C_idle, dequeue_pos := (if n \<noteq> 0 then pos else dequeue_pos s)\<rparr>
       else s\<lparr>consumer := C_read one pos n\<rparr>
   | C_read one pos n \<Rightarrow>
       s\<lparr>consumer := C_free one pos n, consumed := consumed s @ [cell_data s (ring_slot k pos)]\<rparr>
   | C_free one pos n \<Rightarrow>
       s\<lparr>consumer := C_at one (pos + 1) (Suc n), cell_seq := (cell_seq s)(ring_slot k pos := pos + 2 ^ k)\<rparr>)"

definition mpsc_size_approx :: "'a mpsc \<Rightarrow> 64 word" where
  "mpsc_size_approx s = enqueue_pos s - dequeue_pos s"

definition mpsc_empty_approx :: "'a mpsc \<Rightarrow> bool" where
  "mpsc_empty_approx s \<longleftrightarrow> mpsc_size_approx s = 0"

inductive mpsc_reach :: "nat \<Rightarrow> 'a mpsc \<Rightarrow> bool" for k where
  start: "mpsc_reach k (mpsc_init z)"
| produce: "mpsc_reach k s \<Longrightarrow> mpsc_reach k (producer_step k x weak t s)"
| consume: "mpsc_reach k s \<Longrightarrow> mpsc_reach k (consumer_step k one s)"

section \<open>Invariant\<close>

text \<open>Positions as natural numbers: \<open>F\<close> cells have been freed, \<open>N\<close> positions have been won, and \<open>g\<close> holds
  the cells' sequence numbers without wrap-around.\<close>

fun owner :: "'a producer_pc \<Rightarrow> ('a \<times> 64 word) option" where
  "owner (P_won x pos) = Some (x, pos)" | "owner (P_written x pos) = Some (x, pos)" | "owner _ = None"

definition window_ok :: "nat \<Rightarrow> nat \<Rightarrow> (nat \<Rightarrow> nat) \<Rightarrow> 'a mpsc \<Rightarrow> bool" where
  "window_ok S F g s \<longleftrightarrow> (let N = length (claimed s) in F \<le> N \<and> N \<le> F + S \<and>
     (\<forall>p. F \<le> p \<and> p < N \<longrightarrow> g (p mod S) = p \<or> g (p mod S) = Suc p \<and> cell_data s (p mod S) = claimed s ! p) \<and>
     (\<forall>p. N \<le> p \<and> p < F + S \<longrightarrow> g (p mod S) = p))"

definition producer_ok :: "nat \<Rightarrow> nat \<Rightarrow> (nat \<Rightarrow> nat) \<Rightarrow> 'a mpsc \<Rightarrow> 'a producer_pc \<Rightarrow> bool" where
  "producer_ok S F g s pc = (let N = length (claimed s) in case pc of
     P_idle \<Rightarrow> True
   | P_head x pos \<Rightarrow> \<exists>p \<le> N. pos = of_nat p
   | P_seq x pos seq \<Rightarrow> \<exists>p v. p \<le> N \<and> pos = of_nat p \<and> seq = of_nat v \<and> v \<le> g (p mod S)
   | P_won x pos \<Rightarrow> \<exists>p. F \<le> p \<and> p < N \<and> pos = of_nat p \<and> g (p mod S) = p \<and> claimed s ! p = x
   | P_written x pos \<Rightarrow> \<exists>p. F \<le> p \<and> p < N \<and> pos = of_nat p \<and> g (p mod S) = p \<and> claimed s ! p = x \<and>
       cell_data s (p mod S) = x)"

definition consumer_ok :: "nat \<Rightarrow> nat \<Rightarrow> (nat \<Rightarrow> nat) \<Rightarrow> 'a mpsc \<Rightarrow> bool" where
  "consumer_ok S F g s = (case consumer s of
     C_idle \<Rightarrow> dequeue_pos s = of_nat F \<and> consumed s = take F (claimed s)
   | C_at one pos n \<Rightarrow> pos = of_nat F \<and> consumed s = take F (claimed s) \<and> (n = 0 \<longrightarrow> dequeue_pos s = of_nat F)
   | C_read one pos n \<Rightarrow> pos = of_nat F \<and> consumed s = take F (claimed s) \<and> g (F mod S) = Suc F \<and> F < length (claimed s)
   | C_free one pos n \<Rightarrow> pos = of_nat F \<and> consumed s = take (Suc F) (claimed s) \<and> g (F mod S) = Suc F \<and>
       F < length (claimed s))"

definition mpsc_inv :: "nat \<Rightarrow> nat \<Rightarrow> (nat \<Rightarrow> nat) \<Rightarrow> 'a mpsc \<Rightarrow> bool" where
  "mpsc_inv k F g s \<longleftrightarrow> cell_seq s = (\<lambda>i. of_nat (g i)) \<and> enqueue_pos s = of_nat (length (claimed s)) \<and>
     window_ok (2 ^ k) F g s \<and> (\<forall>t. producer_ok (2 ^ k) F g s (producers s t)) \<and> consumer_ok (2 ^ k) F g s \<and>
     (\<forall>t t' x x' pos. owner (producers s t) = Some (x, pos) \<and> owner (producers s t') = Some (x', pos) \<longrightarrow> t = t') \<and>
     (\<forall>p. F \<le> p \<and> p < length (claimed s) \<and> g (p mod 2 ^ k) = p \<longrightarrow> (\<exists>t x. owner (producers s t) = Some (x, of_nat p)))"

lemma mpsc_inv_init: "mpsc_inv k 0 id (mpsc_init z)"
  by (simp add: mpsc_inv_def mpsc_init_def window_ok_def producer_ok_def consumer_ok_def Let_def)

lemma window_slot:
  assumes "F \<le> p" "p < F + S" "F \<le> q" "q < F + (S :: nat)" "p mod S = q mod S"
  shows "p = q"
proof -
  have "(F + (p - F)) mod S = (F + (q - F)) mod S" using assms by simp
  then have "p - F = q - F" by (rule mod_window_inj) (use assms in auto)
  then show ?thesis using assms by simp
qed

text \<open>Numbers below \<open>2 ^ 63\<close> are read back exactly, also as signed words.\<close>

lemma small_word:
  assumes "n < 2 ^ 63"
  shows "unat (of_nat n :: 64 word) = n" "sint (of_nat n :: 64 word) = int n"
proof -
  show u: "unat (of_nat n :: 64 word) = n" using assms by (simp add: unat_of_nat take_bit_nat_eq_self)
  have "uint (of_nat n :: 64 word) = int n" using u by (metis uint_nat)
  then have "sint (of_nat n :: 64 word) = signed_take_bit 63 (int n)" by (simp add: sint_uint)
  also have "\<dots> = int n" using assms by (intro signed_take_bit_int_eq_self) simp_all
  finally show "sint (of_nat n :: 64 word) = int n" .
qed

lemma small_eq: "m < 2 ^ 63 \<Longrightarrow> n < 2 ^ 63 \<Longrightarrow> (of_nat m :: 64 word) = of_nat n \<longleftrightarrow> m = n"
  using small_word(1) by metis

lemma slot_of_nat: "k < 63 \<Longrightarrow> p < 2 ^ 63 \<Longrightarrow> ring_slot k (of_nat p) = p mod 2 ^ k"
  by (simp add: ring_slot_mod small_word)

lemma mpsc_invD:
  assumes "mpsc_inv k F g s"
  shows "cell_seq s = (\<lambda>i. of_nat (g i))" "enqueue_pos s = of_nat (length (claimed s))" "window_ok (2 ^ k) F g s"
    "producer_ok (2 ^ k) F g s (producers s t)" "consumer_ok (2 ^ k) F g s"
    "owner (producers s t) = Some (x, pos) \<Longrightarrow> owner (producers s t') = Some (x', pos) \<Longrightarrow> t = t'"
    "F \<le> p \<Longrightarrow> p < length (claimed s) \<Longrightarrow> g (p mod 2 ^ k) = p \<Longrightarrow> \<exists>t x. owner (producers s t) = Some (x, of_nat p)"
  using assms by (auto simp: mpsc_inv_def)

lemma window_okD:
  assumes "window_ok S F g s"
  shows "F \<le> length (claimed s)" "length (claimed s) \<le> F + S"
    "F \<le> p \<Longrightarrow> p < length (claimed s) \<Longrightarrow> g (p mod S) = p \<or> g (p mod S) = Suc p \<and> cell_data s (p mod S) = claimed s ! p"
    "length (claimed s) \<le> p \<Longrightarrow> p < F + S \<Longrightarrow> g (p mod S) = p"
  using assms by (auto simp: window_ok_def Let_def)

text \<open>Every cell's number is close to its place in the window.\<close>

lemma cell_bound:
  assumes "window_ok S F g s" "0 < S"
  shows "g (p mod S) \<le> length (claimed s) + S"
proof -
  have "\<exists>q. F \<le> q \<and> q < F + S \<and> q mod S = p mod S"
  proof (intro exI conjI)
    let ?q = "F + (p + S * F - F) mod S"
    show "F \<le> ?q" "?q < F + S" using assms(2) by auto
    have "F \<le> p + S * F" using assms(2) by (simp add: trans_le_add2)
    then have "?q mod S = (F + (p + S * F - F)) mod S" by (simp add: mod_add_right_eq)
    also have "\<dots> = p mod S" using \<open>F \<le> p + S * F\<close> by simp
    finally show "?q mod S = p mod S" .
  qed
  then obtain q where q: "F \<le> q" "q < F + S" "q mod S = p mod S" by blast
  show ?thesis
    using window_okD(1) [OF assms(1)] window_okD(3,4) [OF assms(1), of q] q by (cases "q < length (claimed s)") auto
qed

section \<open>The steps keep it\<close>

lemma producer_frame:
  assumes ok: "producer_ok S F g s pc" and pre: "prefix (claimed s) (claimed s')" and mono: "\<And>i. g i \<le> g' i"
    and own: "\<And>x p. owner pc = Some (x, of_nat p) \<Longrightarrow> F \<le> p \<Longrightarrow> p < length (claimed s) \<Longrightarrow> g (p mod S) = p \<Longrightarrow>
      F' \<le> p \<and> g' (p mod S) = p \<and> cell_data s' (p mod S) = cell_data s (p mod S)"
  shows "producer_ok S F' g' s' pc"
proof -
  have len: "length (claimed s) \<le> length (claimed s')" using pre by (rule prefix_length_le)
  have nth: "claimed s' ! p = claimed s ! p" if "p < length (claimed s)" for p
    using pre that by (auto simp: prefix_def nth_append)
  show ?thesis
  proof (cases pc)
    case (P_head x pos)
    then show ?thesis using ok len by (auto simp: producer_ok_def Let_def intro: order_trans)
  next
    case (P_seq x pos seq)
    then obtain p v where "p \<le> length (claimed s)" "pos = of_nat p" "seq = of_nat v" "v \<le> g (p mod S)"
      using ok by (auto simp: producer_ok_def Let_def)
    then have "p \<le> length (claimed s') \<and> pos = of_nat p \<and> seq = of_nat v \<and> v \<le> g' (p mod S)"
      using len mono [of "p mod S"] by linarith
    then show ?thesis using P_seq by (auto simp: producer_ok_def Let_def)
  next
    case (P_won x pos)
    then obtain p where "F \<le> p" "p < length (claimed s)" "pos = of_nat p" "g (p mod S) = p" "claimed s ! p = x"
      using ok by (auto simp: producer_ok_def Let_def)
    then show ?thesis using P_won own [of x p] len nth [of p] by (auto simp: producer_ok_def Let_def intro!: exI [of _ p])
  next
    case (P_written x pos)
    then obtain p where "F \<le> p" "p < length (claimed s)" "pos = of_nat p" "g (p mod S) = p" "claimed s ! p = x" "cell_data s (p mod S) = x"
      using ok by (auto simp: producer_ok_def Let_def)
    then show ?thesis using P_written own [of x p] len nth [of p] by (auto simp: producer_ok_def Let_def intro!: exI [of _ p])
  qed (simp add: producer_ok_def)
qed

text \<open>To establish the invariant from the same \<open>F\<close> and \<open>g\<close> or new ones.\<close>

lemma mpsc_invI:
  assumes "cell_seq s = (\<lambda>i. of_nat (g i))" "enqueue_pos s = of_nat (length (claimed s))" "window_ok (2 ^ k) F g s"
    "\<And>t. producer_ok (2 ^ k) F g s (producers s t)" "consumer_ok (2 ^ k) F g s"
    "\<And>t t' x x' pos. owner (producers s t) = Some (x, pos) \<Longrightarrow> owner (producers s t') = Some (x', pos) \<Longrightarrow> t = t'"
    "\<And>p. F \<le> p \<Longrightarrow> p < length (claimed s) \<Longrightarrow> g (p mod 2 ^ k) = p \<Longrightarrow> \<exists>t x. owner (producers s t) = Some (x, of_nat p)"
  shows "mpsc_inv k F g s"
  unfolding mpsc_inv_def using assms by (intro conjI allI impI) blast+

lemma producer_ok_cong:
  "claimed s' = claimed s \<Longrightarrow> cell_data s' = cell_data s \<Longrightarrow> producer_ok S F g s' pc = producer_ok S F g s pc"
  by (cases pc) (simp_all add: producer_ok_def)

lemma window_ok_cong:
  "claimed s' = claimed s \<Longrightarrow> cell_data s' = cell_data s \<Longrightarrow> window_ok S F g s' = window_ok S F g s"
  by (simp add: window_ok_def)

lemma consumer_ok_cong:
  "consumer s' = consumer s \<Longrightarrow> claimed s' = claimed s \<Longrightarrow> consumed s' = consumed s \<Longrightarrow> dequeue_pos s' = dequeue_pos s \<Longrightarrow>
   consumer_ok S F g s' = consumer_ok S F g s"
  by (cases "consumer s") (simp_all add: consumer_ok_def)

text \<open>A step of a thread that owns no cell before or after it.\<close>

lemma inv_set_producer:
  assumes "mpsc_inv k F g s" "owner (producers s t) = None" "owner pc = None" "producer_ok (2 ^ k) F g s pc"
  shows "mpsc_inv k F g (set_producer t pc s)"
proof -
  note d = mpsc_invD [OF assms(1)]
  have own: "owner (producers (set_producer t pc s) t') = owner (producers s t')" for t' using assms(2,3) by simp
  show ?thesis
  proof (rule mpsc_invI)
    show "producer_ok (2 ^ k) F g (set_producer t pc s) (producers (set_producer t pc s) t')" for t'
      using d(4) assms(4) by (simp add: producer_ok_cong [of "set_producer t pc s" s])
    show "t1 = t2" if "owner (producers (set_producer t pc s) t1) = Some (x, pos)"
      "owner (producers (set_producer t pc s) t2) = Some (x', pos)" for t1 t2 x x' pos
      using that unfolding own by (rule d(6))
    show "\<exists>t' x. owner (producers (set_producer t pc s) t') = Some (x, of_nat p)"
      if "F \<le> p" "p < length (claimed (set_producer t pc s))" "g (p mod 2 ^ k) = p" for p
      unfolding own using d(7) that by simp
  qed (use d(1,2,3,5) in \<open>simp_all add: window_ok_cong [of "set_producer t pc s" s] consumer_ok_cong [of "set_producer t pc s" s]\<close>)
qed

lemma inv_claim:
  assumes inv: "mpsc_inv k F g s" and k: "0 < k" and pc: "producers s t = P_seq x pos seq" and dif: "sint seq = sint pos"
    and enq: "enqueue_pos s = pos" and B: "Suc (length (claimed s)) + 2 ^ k < 2 ^ 63"
  shows "mpsc_inv k F g (set_producer t (P_won x pos) (s\<lparr>enqueue_pos := pos + 1, claimed := claimed s @ [x]\<rparr>))"
    (is "mpsc_inv k F g ?s")
proof -
  note d = mpsc_invD [OF inv]
  note w = window_okD [OF d(3)]
  let ?N = "length (claimed s)" and ?S = "2 ^ k :: nat"
  obtain p v where pv: "p \<le> ?N" "pos = of_nat p" "seq = of_nat v" "v \<le> g (p mod ?S)"
    using d(4) [of t] pc by (auto simp: producer_ok_def Let_def)
  have gb: "g (p mod ?S) \<le> ?N + ?S" using cell_bound [OF d(3)] by simp
  have p: "p = ?N" using enq d(2) pv(2) small_eq [of p ?N] pv(1) B by simp
  have vp: "v = p" using dif pv(1,3,4) gb B by (simp add: pv(2) small_word)
  have S2: "2 \<le> ?S" using k by (metis One_nat_def Suc_leI power_increasing power_one_right one_le_numeral)
  have lt: "?N < F + ?S"
  proof (rule ccontr)
    assume "\<not> ?N < F + ?S"
    then have "?N = F + ?S" using w(2) by simp
    then have "p mod ?S = F mod ?S" "F < ?N" "Suc F < p" using p S2 by simp_all
    then show False using w(3) [of F] pv(4) vp by auto
  qed
  have gN: "g (?N mod ?S) = ?N" using w(4) [OF order_refl lt] .
  have pre: "prefix (claimed s) (claimed ?s)" by simp
  show ?thesis
  proof (rule mpsc_invI)
    show "cell_seq ?s = (\<lambda>i. of_nat (g i))" "enqueue_pos ?s = of_nat (length (claimed ?s))"
      using d(1) by (simp_all add: pv(2) p)
    show "window_ok ?S F g ?s" unfolding window_ok_def Let_def
    proof (intro conjI allI impI)
      fix q
      assume "F \<le> q \<and> q < length (claimed ?s)"
      then show "g (q mod ?S) = q \<or> g (q mod ?S) = Suc q \<and> cell_data ?s (q mod ?S) = claimed ?s ! q"
        using w(3) [of q] gN by (cases "q = ?N") (auto simp: nth_append less_Suc_eq)
    qed (use w(1,4) lt in auto)
    have old: "producer_ok ?S F g ?s (producers s t')" for t'
      by (rule producer_frame [OF d(4) pre]) auto
    have "producer_ok ?S F g ?s (P_won x pos)" using w(1) gN pv(2) p by (auto simp: producer_ok_def Let_def)
    then show "producer_ok ?S F g ?s (producers ?s t')" for t' using old by simp
    show "consumer_ok ?S F g ?s" using d(5) w(1) by (auto simp: consumer_ok_def split: consumer_pc.splits)
    have new: "owner (producers s t') \<noteq> Some (y, of_nat ?N)" for t' y
    proof
      assume "owner (producers s t') = Some (y, of_nat ?N)"
      then obtain q where "q < ?N" "(of_nat ?N :: 64 word) = of_nat q"
        using d(4) [of t'] by (cases "producers s t'") (auto simp: producer_ok_def Let_def)
      then show False using small_eq [of ?N q] B by simp
    qed
    show "t1 = t2" if "owner (producers ?s t1) = Some (y, ps)" "owner (producers ?s t2) = Some (y', ps)" for t1 t2 y y' ps
      using that new d(6) [of t1 y ps t2 y'] pv(2) p by (auto split: if_splits)
    show "\<exists>t' y. owner (producers ?s t') = Some (y, of_nat q)"
      if q: "F \<le> q" "q < length (claimed ?s)" "g (q mod ?S) = q" for q
    proof (cases "q = ?N")
      case True
      then show ?thesis using pv(2) p by (intro exI [of _ t]) simp
    next
      case False
      then have "q < ?N" using q(2) by simp
      then obtain t' y where "owner (producers s t') = Some (y, of_nat q)" using d(7) q(1,3) by blast
      then show ?thesis using pc by (intro exI [of _ t']) auto
    qed
  qed
qed

text \<open>The position that an owner works at.\<close>

lemma owner_position:
  assumes "mpsc_inv k F g s" "owner (producers s t) = Some (x, pos)"
  obtains p where "F \<le> p" "p < length (claimed s)" "pos = of_nat p" "g (p mod 2 ^ k) = p" "claimed s ! p = x"
  using mpsc_invD(4) [OF assms(1), of t] assms(2) that by (cases "producers s t") (auto simp: producer_ok_def Let_def)

lemma other_owner_slot:
  assumes inv: "mpsc_inv k F g s" and B: "length (claimed s) + 2 ^ k < 2 ^ 63"
    and t: "owner (producers s t) = Some (x, of_nat p)" "F \<le> p" "p < length (claimed s)"
    and t': "owner (producers s t') = Some (x', of_nat q)" "F \<le> q" "q < length (claimed s)" "t' \<noteq> t"
  shows "q mod 2 ^ k \<noteq> p mod 2 ^ k"
proof
  assume "q mod 2 ^ k = p mod 2 ^ k"
  then have "q = p" using window_okD(2) [OF mpsc_invD(3) [OF inv]] t(2,3) t'(2,3) by (intro window_slot [of F q "2 ^ k" p]) auto
  then show False using mpsc_invD(6) [OF inv] t(1) t'(1,4) by blast
qed

lemma inv_write:
  assumes inv: "mpsc_inv k F g s" and k: "k < 63" and pc: "producers s t = P_won x pos" and B: "length (claimed s) + 2 ^ k < 2 ^ 63"
  shows "mpsc_inv k F g (set_producer t (P_written x pos) (s\<lparr>cell_data := (cell_data s)(ring_slot k pos := x)\<rparr>))"
    (is "mpsc_inv k F g ?s")
proof -
  note d = mpsc_invD [OF inv]
  note w = window_okD [OF d(3)]
  let ?S = "2 ^ k :: nat"
  have ow: "owner (producers s t) = Some (x, pos)" by (simp add: pc)
  from inv ow obtain p where p: "F \<le> p" "p < length (claimed s)" "pos = of_nat p" "g (p mod ?S) = p" "claimed s ! p = x"
    by (rule owner_position)
  have sl: "ring_slot k pos = p mod ?S" using p(2,3) B by (simp add: slot_of_nat [OF k])
  have own: "owner (producers ?s t') = owner (producers s t')" for t' by (simp add: pc)
  show ?thesis
  proof (rule mpsc_invI)
    show "window_ok ?S F g ?s" unfolding window_ok_def Let_def
    proof (intro conjI allI impI)
      fix q
      assume q: "F \<le> q \<and> q < length (claimed ?s)"
      show "g (q mod ?S) = q \<or> g (q mod ?S) = Suc q \<and> cell_data ?s (q mod ?S) = claimed ?s ! q"
      proof (cases "q mod ?S = p mod ?S")
        case True
        then have "q = p" using q p w(2) by (intro window_slot [of F q ?S p]) auto
        then show ?thesis using p(4) by simp
      next
        case False
        then show ?thesis using w(3) [of q] q sl by auto
      qed
    qed (use w in auto)
    have "producer_ok ?S F g ?s (producers s t')" if "t' \<noteq> t" for t'
    proof (rule producer_frame [OF d(4)])
      fix y q
      assume "owner (producers s t') = Some (y, of_nat q)" "F \<le> q" "q < length (claimed s)" "g (q mod ?S) = q"
      then show "F \<le> q \<and> g (q mod ?S) = q \<and> cell_data ?s (q mod ?S) = cell_data s (q mod ?S)"
        using other_owner_slot [OF inv B ow [unfolded p(3)] p(1,2) _ _ _ that] sl by simp
    qed auto
    moreover have "producer_ok ?S F g ?s (P_written x pos)" using p sl by (auto simp: producer_ok_def Let_def)
    ultimately show "producer_ok ?S F g ?s (producers ?s t')" for t' by (cases "t' = t") simp_all
    show "t1 = t2" if "owner (producers ?s t1) = Some (y, ps)" "owner (producers ?s t2) = Some (y', ps)" for t1 t2 y y' ps
      using that unfolding own by (rule d(6))
    show "\<exists>t' y. owner (producers ?s t') = Some (y, of_nat q)" if "F \<le> q" "q < length (claimed ?s)" "g (q mod ?S) = q" for q
      unfolding own using d(7) that by simp
  qed (use d(1,2,5) in \<open>simp_all add: consumer_ok_cong [of ?s s]\<close>)
qed

lemma inv_publish:
  assumes inv: "mpsc_inv k F g s" and k: "k < 63" and pc: "producers s t = P_written x pos" and B: "length (claimed s) + 2 ^ k < 2 ^ 63"
  shows "\<exists>g'. mpsc_inv k F g' (set_producer t P_idle (s\<lparr>cell_seq := (cell_seq s)(ring_slot k pos := pos + 1)\<rparr>))"
    (is "\<exists>g'. mpsc_inv k F g' ?s")
proof -
  note d = mpsc_invD [OF inv]
  note w = window_okD [OF d(3)]
  let ?S = "2 ^ k :: nat"
  have ow: "owner (producers s t) = Some (x, pos)" by (simp add: pc)
  from d(4) [of t] pc obtain p where p: "F \<le> p" "p < length (claimed s)" "pos = of_nat p" "g (p mod ?S) = p" "claimed s ! p = x"
    "cell_data s (p mod ?S) = x" by (auto simp: producer_ok_def Let_def)
  have sl: "ring_slot k pos = p mod ?S" using p(2,3) B by (simp add: slot_of_nat [OF k])
  define g' where "g' = g(p mod ?S := Suc p)"
  have same: "q mod ?S = p mod ?S \<longleftrightarrow> q = p" if "F \<le> q" "q < length (claimed s)" for q
    using that p w(2) window_slot [of F q ?S p] by auto
  have wn: "window_ok ?S F g' ?s" unfolding window_ok_def Let_def
  proof (intro conjI allI impI)
    fix q
    assume q: "F \<le> q \<and> q < length (claimed ?s)"
    then show "g' (q mod ?S) = q \<or> g' (q mod ?S) = Suc q \<and> cell_data ?s (q mod ?S) = claimed ?s ! q"
      using w(3) [of q] same [of q] p(5,6) by (auto simp: g'_def)
  next
    fix q
    assume q: "length (claimed ?s) \<le> q \<and> q < F + ?S"
    then have "q mod ?S \<noteq> p mod ?S" using window_slot [of F q ?S p] p w(1,2) by auto
    then show "g' (q mod ?S) = q" using w(4) [of q] q by (simp add: g'_def)
  qed (use w in auto)
  have "mpsc_inv k F g' ?s"
  proof (rule mpsc_invI)
    show "cell_seq ?s = (\<lambda>i. of_nat (g' i))" using d(1) sl p(3) by (auto simp: g'_def)
    show "enqueue_pos ?s = of_nat (length (claimed ?s))" using d(2) by simp
    show "window_ok ?S F g' ?s" by (rule wn)
    have "producer_ok ?S F g' ?s (producers s t')" if "t' \<noteq> t" for t'
    proof (rule producer_frame [OF d(4)])
      show "g i \<le> g' i" for i by (auto simp: g'_def p(4))
      fix y q
      assume "owner (producers s t') = Some (y, of_nat q)" "F \<le> q" "q < length (claimed s)" "g (q mod ?S) = q"
      then show "F \<le> q \<and> g' (q mod ?S) = q \<and> cell_data ?s (q mod ?S) = cell_data s (q mod ?S)"
        using other_owner_slot [OF inv B ow [unfolded p(3)] p(1,2) _ _ _ that] by (simp add: g'_def)
    qed auto
    then show "producer_ok ?S F g' ?s (producers ?s t')" for t' by (cases "t' = t") (simp_all add: producer_ok_def)
    have "F = p \<Longrightarrow> consumer_ok ?S F g s \<Longrightarrow> g (F mod ?S) \<noteq> Suc F" using p(4) by simp
    then show "consumer_ok ?S F g' ?s" using d(5) same [of F] p(1,2)
      by (cases "consumer s") (auto simp: consumer_ok_def g'_def)
    show "t1 = t2" if "owner (producers ?s t1) = Some (y, ps)" "owner (producers ?s t2) = Some (y', ps)" for t1 t2 y y' ps
      using that d(6) [of t1 y ps t2 y'] by (auto split: if_splits)
    show "\<exists>t' y. owner (producers ?s t') = Some (y, of_nat q)" if q: "F \<le> q" "q < length (claimed ?s)" "g' (q mod ?S) = q" for q
    proof -
      have qn: "q < length (claimed s)" using q(2) by simp
      have "q \<noteq> p" using q(3) by (auto simp: g'_def)
      then have "g (q mod ?S) = q" using q same [OF q(1) qn] by (simp add: g'_def)
      then obtain t' y where o: "owner (producers s t') = Some (y, of_nat q)" using d(7) [OF q(1) qn] by blast
      then have "t' \<noteq> t" using \<open>q \<noteq> p\<close> ow p(2,3) qn B small_eq [of q p] by auto
      then show ?thesis using o by (intro exI [of _ t']) auto
    qed
  qed
  then show ?thesis by (intro exI [of _ g'])
qed

text \<open>A step of the consumer that leaves the cells alone.\<close>

lemma inv_set_consumer:
  assumes "mpsc_inv k F g s" "cell_seq s' = cell_seq s" "enqueue_pos s' = enqueue_pos s" "claimed s' = claimed s"
    "cell_data s' = cell_data s" "producers s' = producers s" "consumer_ok (2 ^ k) F g s'"
  shows "mpsc_inv k F g s'"
  using mpsc_invD [OF assms(1)] assms(2-7)
  by (intro mpsc_invI) (auto simp: producer_ok_cong [of s' s] window_ok_cong [of s' s])

lemma inv_free:
  assumes inv: "mpsc_inv k F g s" and k: "k < 63" and pc: "consumer s = C_free one pos n" and B: "length (claimed s) + 2 ^ k < 2 ^ 63"
  shows "\<exists>g'. mpsc_inv k (Suc F) g' (s\<lparr>consumer := C_at one (pos + 1) (Suc n), cell_seq := (cell_seq s)(ring_slot k pos := pos + 2 ^ k)\<rparr>)"
    (is "\<exists>g'. mpsc_inv k (Suc F) g' ?s")
proof -
  note d = mpsc_invD [OF inv]
  note w = window_okD [OF d(3)]
  let ?S = "2 ^ k :: nat"
  have c: "pos = of_nat F" "consumed s = take (Suc F) (claimed s)" "g (F mod ?S) = Suc F" "F < length (claimed s)"
    using d(5) pc by (auto simp: consumer_ok_def)
  have sl: "ring_slot k pos = F mod ?S" using c(1,4) B by (simp add: slot_of_nat [OF k])
  define g' where "g' = g(F mod ?S := F + ?S)"
  have other: "q mod ?S \<noteq> F mod ?S" if "F < q" "q < F + ?S" for q
    using that window_slot [of F q ?S F] by auto
  have wn: "window_ok ?S (Suc F) g' ?s" unfolding window_ok_def Let_def
  proof (intro conjI allI impI)
    fix q
    assume q: "Suc F \<le> q \<and> q < length (claimed ?s)"
    then show "g' (q mod ?S) = q \<or> g' (q mod ?S) = Suc q \<and> cell_data ?s (q mod ?S) = claimed ?s ! q"
      using w(3) [of q] w(2) other [of q] by (auto simp: g'_def)
  next
    fix q
    assume q: "length (claimed ?s) \<le> q \<and> q < Suc F + ?S"
    show "g' (q mod ?S) = q"
    proof (cases "q = F + ?S")
      case False
      then show ?thesis using w(4) [of q] q c(4) other [of q] by (simp add: g'_def)
    qed (simp add: g'_def)
  qed (use w c(4) in auto)
  have "mpsc_inv k (Suc F) g' ?s"
  proof (rule mpsc_invI)
    show "cell_seq ?s = (\<lambda>i. of_nat (g' i))" using d(1) sl c(1) by (auto simp: g'_def)
    have "producer_ok ?S (Suc F) g' ?s (producers s t)" for t
    proof (rule producer_frame [OF d(4)])
      show "prefix (claimed s) (claimed ?s)" by simp
      have "1 \<le> ?S" by simp
      then show "g i \<le> g' i" for i using c(3) by (auto simp: g'_def)
      fix x q
      assume q: "owner (producers s t) = Some (x, of_nat q)" "F \<le> q" "q < length (claimed s)" "g (q mod ?S) = q"
      then have "F < q" using c(3) by (cases "q = F") auto
      then show "Suc F \<le> q \<and> g' (q mod ?S) = q \<and> cell_data ?s (q mod ?S) = cell_data s (q mod ?S)"
        using other [of q] q w(2) by (simp add: g'_def)
    qed
    then show "producer_ok ?S (Suc F) g' ?s (producers ?s t)" for t by simp
    show "consumer_ok ?S (Suc F) g' ?s" using c by (simp add: consumer_ok_def)
    show "\<exists>t x. owner (producers ?s t) = Some (x, of_nat q)" if q: "Suc F \<le> q" "q < length (claimed ?s)" "g' (q mod ?S) = q" for q
    proof -
      have "g (q mod ?S) = q" using q other [of q] w(2) by (simp add: g'_def)
      then show ?thesis using d(7) [of q] q by simp
    qed
  qed (use d(2,6) wn in auto)
  then show ?thesis by (intro exI [of _ g'])
qed

lemma producer_step_inv:
  assumes inv: "mpsc_inv k F g s" and k: "0 < k" "k < 63" and B: "length (claimed (producer_step k x weak t s)) + 2 ^ k < 2 ^ 63"
  shows "\<exists>g'. mpsc_inv k F g' (producer_step k x weak t s)"
proof (cases "producers s t")
  case P_idle
  then have "mpsc_inv k F g (producer_step k x weak t s)"
    using inv_set_producer [OF inv, of t "P_head x (enqueue_pos s)"] mpsc_invD(2) [OF inv]
    by (auto simp: producer_step_def producer_ok_def)
  then show ?thesis by blast
next
  case (P_head y pos)
  note d = mpsc_invD [OF inv]
  obtain p where p: "p \<le> length (claimed s)" "pos = of_nat p" using d(4) [of t] P_head by (auto simp: producer_ok_def Let_def)
  have "length (claimed s) + 2 ^ k < 2 ^ 63" using B P_head by (simp add: producer_step_def)
  then have "ring_slot k pos = p mod 2 ^ k" using p slot_of_nat [OF k(2), of p] by simp
  then have "mpsc_inv k F g (producer_step k x weak t s)"
    using inv_set_producer [OF inv, of t "P_seq y pos (cell_seq s (ring_slot k pos))"] P_head p d(1)
    by (auto simp: producer_step_def producer_ok_def Let_def)
  then show ?thesis by blast
next
  case (P_seq y pos seq)
  have hd: "mpsc_inv k F g (set_producer t (P_head y (enqueue_pos s)) s)" "mpsc_inv k F g (set_producer t P_idle s)"
    using P_seq mpsc_invD(2) [OF inv] by (auto intro!: inv_set_producer [OF inv] simp: producer_ok_def Let_def)
  show ?thesis
  proof (cases "sint seq = sint pos \<and> enqueue_pos s = pos \<and> \<not> weak")
    case True
    then have "mpsc_inv k F g (producer_step k x weak t s)"
      using inv_claim [OF inv k(1) P_seq, of ] B P_seq by (simp add: producer_step_def Let_def)
    then show ?thesis by blast
  next
    case False
    then show ?thesis using hd P_seq by (auto simp: producer_step_def Let_def)
  qed
next
  case (P_won y pos)
  then have "mpsc_inv k F g (producer_step k x weak t s)"
    using inv_write [OF inv k(2) P_won] B by (simp add: producer_step_def)
  then show ?thesis by blast
next
  case (P_written y pos)
  then show ?thesis using inv_publish [OF inv k(2) P_written] B by (simp add: producer_step_def)
qed

lemma consumer_step_inv:
  assumes inv: "mpsc_inv k F g s" and k: "k < 63" and B: "length (claimed s) + 2 ^ k < 2 ^ 63"
  shows "\<exists>F' g'. mpsc_inv k F' g' (consumer_step k one s)"
proof (cases "consumer s")
  case C_idle
  then have "mpsc_inv k F g (consumer_step k one s)" using mpsc_invD(5) [OF inv]
    by (intro inv_set_consumer [OF inv]) (simp_all add: consumer_step_def consumer_ok_def)
  then show ?thesis by blast
next
  case (C_at o' pos n)
  note d = mpsc_invD [OF inv]
  note w = window_okD [OF d(3)]
  let ?S = "2 ^ k :: nat"
  have c: "pos = of_nat F" "consumed s = take F (claimed s)" "n = 0 \<longrightarrow> dequeue_pos s = of_nat F"
    using d(5) C_at by (auto simp: consumer_ok_def)
  have F: "F \<le> length (claimed s)" using w(1) .
  have gb: "g (F mod ?S) \<le> length (claimed s) + ?S" using cell_bound [OF d(3)] by simp
  have sl: "ring_slot k pos = F mod ?S" using c(1) F B slot_of_nat [OF k, of F] by simp
  have one: "pos + 1 = of_nat (Suc F)" using c(1) by simp
  have "0 < ?S" by simp
  then have "Suc F < 2 ^ 63" "g (F mod ?S) < 2 ^ 63" using gb B F by linarith+
  then have dif: "sint (cell_seq s (ring_slot k pos)) - sint (pos + 1) = 0 \<longleftrightarrow> g (F mod ?S) = Suc F"
    unfolding one d(1) sl by (simp only: small_word) linarith
  show ?thesis
  proof (cases "(o' \<and> n \<noteq> 0) \<or> g (F mod ?S) \<noteq> Suc F")
    case True
    then have "consumer_step k one s = s\<lparr>consumer := C_idle, dequeue_pos := (if n \<noteq> 0 then pos else dequeue_pos s)\<rparr>"
      using C_at dif by (simp add: consumer_step_def)
    then have "mpsc_inv k F g (consumer_step k one s)" using c
      by (intro inv_set_consumer [OF inv]) (simp_all add: consumer_ok_def)
    then show ?thesis by blast
  next
    case False
    then have "F < length (claimed s)" using w(4) [of F] F by (cases "F = length (claimed s)") auto
    moreover have "consumer_step k one s = s\<lparr>consumer := C_read o' pos n\<rparr>" using False C_at dif by (simp add: consumer_step_def)
    ultimately have "mpsc_inv k F g (consumer_step k one s)" using c False
      by (intro inv_set_consumer [OF inv]) (simp_all add: consumer_ok_def)
    then show ?thesis by blast
  qed
next
  case (C_read o' pos n)
  note d = mpsc_invD [OF inv]
  have c: "pos = of_nat F" "consumed s = take F (claimed s)" "g (F mod 2 ^ k) = Suc F" "F < length (claimed s)"
    using d(5) C_read by (auto simp: consumer_ok_def)
  have "ring_slot k pos = F mod 2 ^ k" using c(1,4) B slot_of_nat [OF k, of F] by simp
  moreover have "cell_data s (F mod 2 ^ k) = claimed s ! F" using window_okD(3) [OF d(3), of F] c by auto
  ultimately have "mpsc_inv k F g (consumer_step k one s)" using c C_read
    by (intro inv_set_consumer [OF inv]) (simp_all add: consumer_step_def consumer_ok_def take_Suc_conv_app_nth)
  then show ?thesis by blast
next
  case (C_free o' pos n)
  then show ?thesis using inv_free [OF inv k C_free B] by (auto simp: consumer_step_def)
qed

lemma claimed_mono: "length (claimed s) \<le> length (claimed (producer_step k x weak t s))" "claimed (consumer_step k one s) = claimed s"
  by (simp_all add: producer_step_def consumer_step_def Let_def split: producer_pc.splits consumer_pc.splits)

lemma mpsc_reach_inv:
  "mpsc_reach k s \<Longrightarrow> 0 < k \<Longrightarrow> k < 63 \<Longrightarrow> length (claimed s) + 2 ^ k < 2 ^ 63 \<Longrightarrow> \<exists>F g. mpsc_inv k F g s"
proof (induction rule: mpsc_reach.induct)
  case (start z)
  show ?case by (intro exI) (rule mpsc_inv_init)
next
  case (produce s x weak t)
  then show ?case using producer_step_inv claimed_mono(1) [of s k x weak t] by (meson le_less_trans add_le_mono1)
next
  case (consume s one)
  then show ?case using consumer_step_inv claimed_mono(2) by metis
qed

section \<open>Properties\<close>

text \<open>
  C12. The ring is linearisable as a bounded FIFO queue, with any number of concurrent producers and in
  every interleaving of their accesses with the consumer's: what the consumer has handed on is an
  initial part of the items in the order in which their positions were won, so that every item is
  delivered at most once, complete, in order and never before its producer has published it; and no
  more than \<open>Size\<close> items are ever in flight. It holds for the first \<open>2 ^ 63 - Size\<close> items, which is where
  the signed comparison of sequence numbers is exact.
\<close>

theorem mpsc_fifo:
  assumes "mpsc_reach k s" "0 < k" "k < 63" "length (claimed s) + 2 ^ k < 2 ^ 63"
  shows "prefix (consumed s) (claimed s) \<and> length (claimed s) \<le> length (consumed s) + 2 ^ k"
proof -
  obtain F g where inv: "mpsc_inv k F g s" using mpsc_reach_inv [OF assms] by blast
  note w = window_okD [OF mpsc_invD(3) [OF inv]]
  have "consumed s = take F (claimed s) \<or> consumed s = take (Suc F) (claimed s)"
    using mpsc_invD(5) [OF inv] by (auto simp: consumer_ok_def split: consumer_pc.splits)
  then show ?thesis using w(1,2) take_is_prefix by auto
qed

text \<open>
  Nothing is lost: when no \<^verbatim>\<open>try_publish\<close> is under way and the consumer, looking at its next cell, finds
  it not published, it has handed on every item that was ever accepted.
\<close>

theorem mpsc_drained:
  assumes "mpsc_reach k s" "0 < k" "k < 63" "length (claimed s) + 2 ^ k < 2 ^ 63"
    "\<forall>t. producers s t = P_idle" "consumer s = C_at False pos n" "consumer (consumer_step k False s) = C_idle"
  shows "consumed s = claimed s"
proof -
  obtain F g where inv: "mpsc_inv k F g s" using mpsc_reach_inv [OF assms(1-4)] by blast
  note d = mpsc_invD [OF inv]
  note w = window_okD [OF d(3)]
  have c: "pos = of_nat F" "consumed s = take F (claimed s)" using d(5) assms(6) by (auto simp: consumer_ok_def)
  have "\<not> F < length (claimed s)"
  proof
    assume F: "F < length (claimed s)"
    have "g (F mod 2 ^ k) \<noteq> F" using d(7) [OF order_refl F] assms(5) by auto
    then have g: "g (F mod 2 ^ k) = Suc F" using w(3) [OF order_refl F] by blast
    have "ring_slot k pos = F mod 2 ^ k" using c(1) F assms(4) slot_of_nat [OF assms(3), of F] by simp
    then have "cell_seq s (ring_slot k pos) = pos + 1" using d(1) g c(1) by simp
    then show False using assms(6,7) by (simp add: consumer_step_def)
  qed
  then show ?thesis using c(2) by simp
qed

text \<open>A run on a ring of two cells: one producer publishes an item, and the consumer takes it.\<close>

definition mpsc_run1 :: "nat mpsc" where
  "mpsc_run1 = (let a = producer_step 1 10 False 0 in a (a (a (a (a (mpsc_init 0))))))"

definition mpsc_run2 :: "nat mpsc" where
  "mpsc_run2 = (let c = consumer_step 1 False in c (c (c (c mpsc_run1))))"

lemma mpsc_run1_eq:
  "mpsc_run1 = \<lparr>cell_seq = of_nat(0 := 1), cell_data = (\<lambda>_. 0)(0 := 10), enqueue_pos = 1, dequeue_pos = 0,
     producers = \<lambda>_. P_idle, consumer = C_idle, claimed = [10], consumed = []\<rparr>"
  by (simp add: mpsc_run1_def Let_def mpsc_init_def producer_step_def ring_slot_def fun_eq_iff)

lemma mpsc_run2_eq:
  "mpsc_run2 = \<lparr>cell_seq = of_nat(0 := 2), cell_data = (\<lambda>_. 0)(0 := 10), enqueue_pos = 1, dequeue_pos = 0,
     producers = \<lambda>_. P_idle, consumer = C_at False 1 1, claimed = [10], consumed = [10]\<rparr>"
  by (simp add: mpsc_run2_def mpsc_run1_eq Let_def consumer_step_def ring_slot_def fun_eq_iff)

lemma mpsc_run2_reach: "mpsc_reach 1 mpsc_run2"
  unfolding mpsc_run2_def mpsc_run1_def Let_def by (intro mpsc_reach.intros)

theorem mpsc_fifo_witness: "prefix (consumed mpsc_run2) (claimed mpsc_run2) \<and> consumed mpsc_run2 = [10]"
  using mpsc_fifo [OF mpsc_run2_reach] by (simp add: mpsc_run2_eq)

theorem mpsc_drained_witness: "consumed mpsc_run2 = claimed mpsc_run2 \<and> claimed mpsc_run2 = [10]"
proof -
  have "consumer (consumer_step 1 False mpsc_run2) = C_idle"
    by (simp add: mpsc_run2_eq consumer_step_def ring_slot_def)
  then have "consumed mpsc_run2 = claimed mpsc_run2"
    by (intro mpsc_drained [OF mpsc_run2_reach, of 1 1]) (simp_all add: mpsc_run2_eq)
  then show ?thesis by (simp add: mpsc_run2_eq)
qed

end
