(* ===== verification/Wire_Format.thy ===== *)
theory Wire_Format
  imports Domain_Types
begin

text \<open>
  The wire format of an order: the 40 bytes of the structure in \<^verbatim>\<open>include/titan/book/order.hpp\<close>, as \<^verbatim>\<open>memcpy\<close>
  moves them between a byte buffer and an \<^verbatim>\<open>Order\<close> on the little-endian machine that the code is written
  for. The last six bytes are padding and carry nothing.
\<close>

section \<open>Little-endian numbers\<close>

fun le_nat :: "8 word list \<Rightarrow> nat" where
  "le_nat [] = 0"
| "le_nat (b # bs) = unat b + 256 * le_nat bs"

fun le_bytes :: "nat \<Rightarrow> nat \<Rightarrow> 8 word list" where
  "le_bytes 0 v = []"
| "le_bytes (Suc n) v = of_nat v # le_bytes n (v div 256)"

lemma le_bytes_length [simp]: "length (le_bytes n v) = n"
  by (induction n arbitrary: v) simp_all

lemma le_nat_bound: "le_nat bs < 256 ^ length bs"
proof (induction bs)
  case (Cons b bs)
  have "unat b < 256" using unsigned_less [of b, where ?'a = nat] by simp
  moreover have "le_nat bs + 1 \<le> 256 ^ length bs" using Cons by simp
  then have "256 * (le_nat bs + 1) \<le> 256 * 256 ^ length bs" by (rule mult_le_mono2)
  ultimately show ?case by simp
qed simp

lemma le_bytes_nat: "le_bytes (length bs) (le_nat bs) = bs"
proof (induction bs)
  case (Cons b bs)
  have "unat b < 256" using unsigned_less [of b, where ?'a = nat] by simp
  then have "(unat b + 256 * le_nat bs) div 256 = le_nat bs" by simp
  moreover have "(of_nat (unat b + 256 * le_nat bs) :: 8 word) = b"
  proof -
    have "(256 :: 8 word) = 0" by simp
    then show ?thesis by (simp only: of_nat_add of_nat_mult of_nat_numeral mult_zero_left add_0_right) simp
  qed
  ultimately show ?case using Cons by simp
qed simp

lemma le_nat_bytes: "v < 256 ^ n \<Longrightarrow> le_nat (le_bytes n v) = v"
proof (induction n arbitrary: v)
  case (Suc n)
  then have "v div 256 < 256 ^ n" by (simp add: less_mult_imp_div_less mult.commute)
  moreover have "unat (of_nat v :: 8 word) = v mod 256" by (simp add: unat_of_nat take_bit_eq_mod)
  ultimately show ?case using Suc.IH [of "v div 256"] by simp
qed simp

section \<open>Orders\<close>

definition side_of_byte :: "8 word \<Rightarrow> Side" where
  "side_of_byte b = (if b = 0 then BUY else if b = 1 then SELL else Side_raw b)"

definition type_of_byte :: "8 word \<Rightarrow> OrderType" where
  "type_of_byte b = (if b = 0 then LIMIT else if b = 1 then MARKET else if b = 2 then IOC else if b = 3 then CANCEL else OrderType_raw b)"

fun side_byte :: "Side \<Rightarrow> 8 word" where
  "side_byte BUY = 0" | "side_byte SELL = 1" | "side_byte (Side_raw b) = b"

fun type_byte :: "OrderType \<Rightarrow> 8 word" where
  "type_byte LIMIT = 0" | "type_byte MARKET = 1" | "type_byte IOC = 2" | "type_byte CANCEL = 3" | "type_byte (OrderType_raw b) = b"

definition load_order :: "8 word list \<Rightarrow> Order" where
  "load_order bs =
     \<lparr>o_id = of_nat (le_nat (take 8 bs)), o_seq = of_nat (le_nat (take 8 (drop 8 bs))),
      o_price = sint (of_nat (le_nat (take 8 (drop 16 bs))) :: 64 word),
      o_quantity = of_nat (le_nat (take 4 (drop 24 bs))), o_remaining = of_nat (le_nat (take 4 (drop 28 bs))),
      o_side = side_of_byte (bs ! 32), o_type = type_of_byte (bs ! 33)\<rparr>"

definition store_order :: "Order \<Rightarrow> 8 word list" where
  "store_order o' =
     le_bytes 8 (unat (o_id o')) @ le_bytes 8 (unat (o_seq o')) @ le_bytes 8 (unat (of_int (o_price o') :: 64 word)) @
     le_bytes 4 (unat (o_quantity o')) @ le_bytes 4 (unat (o_remaining o')) @
     [side_byte (o_side o'), type_byte (o_type o'), 0, 0, 0, 0, 0, 0]"

text \<open>The orders that a C++ \<^verbatim>\<open>Order\<close> can hold: a price of the signed 64-bit range, and unnamed enumeration values where the byte is.\<close>

definition wire_order :: "Order \<Rightarrow> bool" where
  "wire_order o' \<longleftrightarrow> - (2 ^ 63) \<le> o_price o' \<and> o_price o' < 2 ^ 63 \<and>
     side_of_byte (side_byte (o_side o')) = o_side o' \<and> type_of_byte (type_byte (o_type o')) = o_type o'"

lemma store_order_length [simp]: "length (store_order o') = 40"
  by (simp add: store_order_def)

lemma load_order_wire: "wire_order (load_order bs)"
proof -
  have s: "- (2 ^ 63) \<le> sint w \<and> sint w < 2 ^ 63" for w :: "64 word"
    using sint_ge [of w] sint_lt [of w] by simp
  have "side_of_byte (side_byte (side_of_byte b)) = side_of_byte b" "type_of_byte (type_byte (type_of_byte b)) = type_of_byte b" for b
    by (simp_all add: side_of_byte_def type_of_byte_def)
  then show ?thesis using s by (simp add: wire_order_def load_order_def)
qed

lemma load_word:
  "of_nat (le_nat (le_bytes 8 (unat w))) = (w :: 64 word)" "of_nat (le_nat (le_bytes 4 (unat q))) = (q :: 32 word)"
  using le_nat_bytes [of "unat w" 8] le_nat_bytes [of "unat q" 4] unsigned_less [of w, where ?'a = nat] unsigned_less [of q, where ?'a = nat]
  by simp_all

lemma sint_of_int_range: "- (2 ^ 63) \<le> p \<Longrightarrow> p < 2 ^ 63 \<Longrightarrow> sint (of_int p :: 64 word) = p"
  by (simp add: signed_of_int signed_take_bit_int_eq_self)

text \<open>Storing an order and loading the bytes again gives the order, whatever the padding becomes on the way.\<close>

lemma load_store:
  assumes "wire_order o'" "length pad = 6"
  shows "load_order (take 34 (store_order o') @ pad) = o'"
  using assms(1) sint_of_int_range [of "o_price o'"]
  by (simp add: load_order_def store_order_def wire_order_def load_word nth_append)

lemma store_word:
  "length bs = 8 \<Longrightarrow> le_bytes 8 (unat (of_nat (le_nat bs) :: 64 word)) = bs"
  "length bs = 4 \<Longrightarrow> le_bytes 4 (unat (of_nat (le_nat bs) :: 32 word)) = bs"
  using le_bytes_nat [of bs] le_nat_bound [of bs] by (auto simp: unat_of_nat take_bit_nat_eq_self)

lemma byte_enum: "side_byte (side_of_byte b) = b" "type_byte (type_of_byte b) = b"
  by (simp_all add: side_of_byte_def type_of_byte_def)

lemma store_load:
  assumes "length bs = 40"
  shows "take 34 (store_order (load_order bs)) = take 34 bs"
proof -
  have "take 34 bs = take 8 bs @ take 8 (drop 8 bs) @ take 8 (drop 16 bs) @ take 4 (drop 24 bs) @ take 4 (drop 28 bs) @ take 2 (drop 32 bs)"
    using take_add [of 8 26 bs] take_add [of 8 18 "drop 8 bs"] take_add [of 8 10 "drop 16 bs"] take_add [of 4 6 "drop 24 bs"]
      take_add [of 4 2 "drop 28 bs"] by simp
  moreover have "take 2 (drop 32 bs) = [bs ! 32, bs ! 33]"
    using assms by (simp add: list_eq_iff_nth_eq nth_Cons' less_Suc_eq numeral_2_eq_2)
  ultimately show ?thesis using assms by (simp add: store_order_def load_order_def store_word byte_enum)
qed

text \<open>
  The wire format loses nothing: the bytes of an order give the order back whatever the padding holds, and any 40 bytes are the
  bytes of the order that they are read as, up to the padding; reading them always gives an order that fits the structure.
\<close>

theorem order_wire_roundtrip:
  assumes "wire_order o'" "length pad = 6" "length bs = 40"
  shows "load_order (take 34 (store_order o') @ pad) = o' \<and> take 34 (store_order (load_order bs)) = take 34 bs \<and>
    wire_order (load_order bs)"
  using load_store [OF assms(1,2)] store_load [OF assms(3)] load_order_wire by simp

definition far_order :: Order where
  "far_order = \<lparr>o_id = 0x0102030405060708, o_seq = 7, o_price = -5, o_quantity = 300, o_remaining = 299, o_side = SELL, o_type = OrderType_raw 9\<rparr>"

theorem order_wire_roundtrip_witness:
  "load_order (take 34 (store_order far_order) @ [1, 2, 3, 4, 5, 6]) = far_order \<and>
   take 34 (store_order (load_order (replicate 40 200))) = replicate 34 200"
  using order_wire_roundtrip [of far_order "[1, 2, 3, 4, 5, 6]" "replicate 40 200"]
  by (simp add: wire_order_def far_order_def side_of_byte_def type_of_byte_def)

end
