(* ===== verification/Tcp_Gateway.thy ===== *)
theory Tcp_Gateway
  imports Wire_Format
begin

text \<open>
  The TCP gateway, \<^verbatim>\<open>include/titan/net/tcp_gateway.hpp\<close>: an edge-triggered event loop over connections, each with the bytes of
  an unfinished order. The answers of \<^verbatim>\<open>recv\<close>, \<^verbatim>\<open>accept4\<close> and \<^verbatim>\<open>epoll_wait\<close> are lists from which each call takes
  the next; where a call finds none, the value is \<open>None\<close> (it has not returned). \<open>gw_inbound\<close> is the sequence of
  the orders that the gateway has pushed: \<^verbatim>\<open>push\<close> spins until the ring takes the order, so that each call adds exactly one.
\<close>

section \<open>State and system calls\<close>

type_synonym byte = "8 word"

text \<open>\<open>cn_pending\<close> is the raw memory of the pending order, of which the first \<open>cn_filled\<close> bytes are received.\<close>

record Conn =
  cn_pending :: "byte list"
  cn_filled :: nat

definition Conn_init :: Conn where
  "Conn_init = \<lparr>cn_pending = replicate 40 0, cn_filled = 0\<rparr>"

record Gateway =
  gw_inbound :: "Order list"
  gw_rejected :: "64 word"
  gw_conns :: "int \<rightharpoonup> Conn"
  gw_closed :: "int list"

datatype gw_error = SOCKET_FAILED | BIND_FAILED | LISTEN_FAILED | EPOLL_CREATE_FAILED | EVENTFD_FAILED | EPOLL_ADD_FAILED

record gw_env =
  ge_socket :: bool
  ge_bind :: bool
  ge_listen :: bool
  ge_epoll_create :: bool
  ge_eventfd :: bool
  ge_arm_listen :: bool
  ge_arm_stop :: bool

datatype gw_fd = LISTEN_FD | EPOLL_FD | STOP_FD

text \<open>The constructor, with the descriptors that it closes before it throws.\<close>

definition gateway_create :: "gw_env \<Rightarrow> gw_fd list \<times> (gw_error + Gateway)" where
  "gateway_create env =
     (if \<not> ge_socket env then ([], Inl SOCKET_FAILED)
      else if \<not> ge_bind env then ([LISTEN_FD], Inl BIND_FAILED)
      else if \<not> ge_listen env then ([LISTEN_FD], Inl LISTEN_FAILED)
      else if \<not> ge_epoll_create env then ([LISTEN_FD], Inl EPOLL_CREATE_FAILED)
      else if \<not> ge_eventfd env then ([EPOLL_FD, LISTEN_FD], Inl EVENTFD_FAILED)
      else if \<not> ge_arm_listen env then ([], Inl EPOLL_ADD_FAILED)
      else if \<not> ge_arm_stop env then ([], Inl EPOLL_ADD_FAILED)
      else ([], Inr \<lparr>gw_inbound = [], gw_rejected = 0, gw_conns = Map.empty, gw_closed = []\<rparr>))"

text \<open>An answer \<open>Got bs\<close> is a return value of \<open>length bs\<close>, so that \<open>Got []\<close> is the end of the stream.\<close>

datatype recv_result = Got "byte list" | Recv_EAGAIN | Recv_EINTR | Recv_error

datatype accept_result = Accepted int bool | Accept_EAGAIN | Accept_EINTR | Accept_error

section \<open>Parsing\<close>

definition gw_push :: "Order \<Rightarrow> Gateway \<Rightarrow> Gateway" where
  "gw_push o' g =
     (let g = (if \<not> is_admissible o' then g\<lparr>gw_rejected := gw_rejected g + 1\<rparr> else g)
      in g\<lparr>gw_inbound := gw_inbound g @ [o']\<rparr>)"

definition overwrite :: "nat \<Rightarrow> byte list \<Rightarrow> byte list \<Rightarrow> byte list" where
  "overwrite off bs mem = take off mem @ bs @ drop (off + length bs) mem"

function parse_whole :: "byte list \<Rightarrow> nat \<Rightarrow> Gateway \<Rightarrow> nat \<times> Gateway" where
  "parse_whole data off g =
     (if length data - off \<ge> 40
      then parse_whole data (off + 40) (gw_push (load_order (take 40 (drop off data))) g)
      else (off, g))"
  by pat_completeness auto
termination by (relation "measure (\<lambda>(data, off, g). length data - off)") auto

declare parse_whole.simps [simp del]

definition parse_rest :: "byte list \<Rightarrow> nat \<Rightarrow> Conn \<times> Gateway \<Rightarrow> Conn \<times> Gateway" where
  "parse_rest data off = (\<lambda>(c, g).
     let (off, g) = parse_whole data off g;
         rem = length data - off
     in if rem > 0 then (c\<lparr>cn_pending := overwrite 0 (drop off data) (cn_pending c), cn_filled := rem\<rparr>, g) else (c, g))"

definition parse_chunk :: "byte list \<Rightarrow> Conn \<times> Gateway \<Rightarrow> Conn \<times> Gateway" where
  "parse_chunk data = (\<lambda>(c, g).
     if cn_filled c > 0 then
       let need = 40 - cn_filled c;
           tk = (if length data < need then length data else need);
           c = c\<lparr>cn_pending := overwrite (cn_filled c) (take tk data) (cn_pending c), cn_filled := cn_filled c + tk\<rparr>
       in if cn_filled c < 40 then (c, g)
          else parse_rest data tk (c\<lparr>cn_filled := 0\<rparr>, gw_push (load_order (cn_pending c)) g)
     else parse_rest data 0 (c, g))"

section \<open>Connections and the event loop\<close>

definition close_conn :: "int \<Rightarrow> Gateway \<Rightarrow> Gateway" where
  "close_conn fd g = g\<lparr>gw_closed := gw_closed g @ [fd], gw_conns := (gw_conns g)(fd := None)\<rparr>"

fun accept_loop :: "accept_result list \<Rightarrow> Gateway \<Rightarrow> Gateway option" where
  "accept_loop [] g = None"
| "accept_loop (Accept_EAGAIN # script) g = Some g"
| "accept_loop (Accept_EINTR # script) g = accept_loop script g"
| "accept_loop (Accept_error # script) g = Some g"
| "accept_loop (Accepted cfd armed # script) g =
     (if \<not> armed then accept_loop script (g\<lparr>gw_closed := gw_closed g @ [cfd]\<rparr>)
      else accept_loop script
        (if gw_conns g cfd = None then g\<lparr>gw_conns := (gw_conns g)(cfd \<mapsto> Conn_init)\<rparr> else g))"

text \<open>The loop of \<^verbatim>\<open>handle_conn\<close>, on the connection \<^verbatim>\<open>c\<close> that it holds a reference to.\<close>

fun recv_loop :: "int \<Rightarrow> recv_result list \<Rightarrow> Conn \<Rightarrow> Gateway \<Rightarrow> Gateway option" where
  "recv_loop fd [] c g = None"
| "recv_loop fd (Got bs # script) c g =
     (if bs \<noteq> [] then
        let (c, g) = parse_chunk bs (c, g) in recv_loop fd script c (g\<lparr>gw_conns := (gw_conns g)(fd \<mapsto> c)\<rparr>)
      else Some (close_conn fd g))"
| "recv_loop fd (Recv_EAGAIN # script) c g = Some g"
| "recv_loop fd (Recv_EINTR # script) c g = recv_loop fd script c g"
| "recv_loop fd (Recv_error # script) c g = Some (close_conn fd g)"

definition handle_conn :: "int \<Rightarrow> bool \<Rightarrow> recv_result list \<Rightarrow> Gateway \<Rightarrow> Gateway option" where
  "handle_conn fd err_or_hup script g =
     (if err_or_hup then Some (close_conn fd g)
      else case gw_conns g fd of None \<Rightarrow> Some g | Some c \<Rightarrow> recv_loop fd script c g)"

datatype gw_event = Ev_stop | Ev_listen "accept_result list" | Ev_conn int bool "recv_result list"

text \<open>The inner loop of \<^verbatim>\<open>run\<close> over the ready descriptors; \<open>True\<close> says that \<^verbatim>\<open>run\<close> returns.\<close>

fun dispatch :: "gw_event list \<Rightarrow> Gateway \<Rightarrow> (bool \<times> Gateway) option" where
  "dispatch [] g = Some (False, g)"
| "dispatch (Ev_stop # evs) g = Some (True, g)"
| "dispatch (Ev_listen script # evs) g = (case accept_loop script g of None \<Rightarrow> None | Some g \<Rightarrow> dispatch evs g)"
| "dispatch (Ev_conn fd hup script # evs) g = (case handle_conn fd hup script g of None \<Rightarrow> None | Some g \<Rightarrow> dispatch evs g)"

datatype wait_result = Ready "gw_event list" | Wait_EINTR | Wait_error

fun gateway_run :: "wait_result list \<Rightarrow> Gateway \<Rightarrow> Gateway option" where
  "gateway_run [] g = None"
| "gateway_run (Wait_EINTR # waits) g = gateway_run waits g"
| "gateway_run (Wait_error # waits) g = Some g"
| "gateway_run (Ready evs # waits) g =
     (case dispatch evs g of None \<Rightarrow> None | Some (stop, g) \<Rightarrow> if stop then Some g else gateway_run waits g)"

section \<open>Reassembly\<close>

text \<open>The whole 40-byte records of a byte stream, and the fragment after them.\<close>

function records :: "byte list \<Rightarrow> byte list list" where
  "records bs = (if length bs \<ge> 40 then take 40 bs # records (drop 40 bs) else [])"
  by pat_completeness auto
termination by (relation "measure length") auto

declare records.simps [simp del]

definition fragment :: "byte list \<Rightarrow> byte list" where
  "fragment bs = drop (length bs div 40 * 40) bs"

lemma records_short: "length bs < 40 \<Longrightarrow> records bs = []" "length bs < 40 \<Longrightarrow> fragment bs = bs"
  by (simp_all add: records.simps fragment_def)

lemma records_long: "40 \<le> length bs \<Longrightarrow> records bs = take 40 bs # records (drop 40 bs)"
  by (subst records.simps) simp

lemma fragment_long:
  assumes "40 \<le> length bs"
  shows "fragment bs = fragment (drop 40 bs)"
proof -
  have "length bs div 40 * 40 = (length bs - 40) div 40 * 40 + 40" using assms by (simp add: le_div_geq)
  then show ?thesis by (simp add: fragment_def)
qed

lemma fragment_length: "length (fragment bs) < 40"
proof -
  have "length (fragment bs) = length bs mod 40" by (simp add: fragment_def minus_div_mult_eq_mod)
  then show ?thesis by simp
qed

lemma records_append: "records (a @ b) = records a @ records (fragment a @ b) \<and> fragment (a @ b) = fragment (fragment a @ b)"
proof (induction a rule: records.induct)
  case (1 a)
  show ?case
  proof (cases "40 \<le> length a")
    case True
    then show ?thesis using 1 records_long [of "a @ b"] fragment_long [of "a @ b"] records_long [OF True] fragment_long [OF True] by simp
  qed (simp add: records_short)
qed

definition conn_ok :: "Conn \<Rightarrow> bool" where
  "conn_ok c \<longleftrightarrow> length (cn_pending c) = 40 \<and> cn_filled c < 40"

definition carried :: "Conn \<Rightarrow> byte list" where
  "carried c = take (cn_filled c) (cn_pending c)"

text \<open>Pushing a list of orders, with the count of those that the matcher will reject.\<close>

definition push_all :: "Order list \<Rightarrow> Gateway \<Rightarrow> Gateway" where
  "push_all os g = fold gw_push os g"

lemma push_all_simps [simp]:
  "push_all [] g = g" "push_all (o' # os) g = push_all os (gw_push o' g)" "push_all (os @ os') g = push_all os' (push_all os g)"
  by (simp_all add: push_all_def)

lemma push_all_state:
  "gw_inbound (push_all os g) = gw_inbound g @ os"
  "gw_rejected (push_all os g) = gw_rejected g + of_nat (length (filter (\<lambda>o'. \<not> is_admissible o') os))"
  "gw_conns (push_all os g) = gw_conns g" "gw_closed (push_all os g) = gw_closed g"
  by (induction os arbitrary: g) (simp_all add: gw_push_def Let_def algebra_simps)

lemma push_all_conns: "(push_all os g)\<lparr>gw_conns := m\<rparr> = push_all os (g\<lparr>gw_conns := m\<rparr>)"
  by (rule Gateway.equality) (simp_all add: push_all_state)

lemma parse_whole_spec:
  "off \<le> length data \<Longrightarrow>
   parse_whole data off g = (length data - length (fragment (drop off data)), push_all (map load_order (records (drop off data))) g)"
proof (induction data off g rule: parse_whole.induct)
  case (1 data off g)
  show ?case
  proof (cases "40 \<le> length data - off")
    case True
    then show ?thesis using 1 records_long [of "drop off data"] fragment_long [of "drop off data"]
      by (subst parse_whole.simps) (simp add: add.commute)
  next
    case False
    then show ?thesis using 1(2) by (subst parse_whole.simps) (simp add: records_short)
  qed
qed

lemma parse_rest_spec:
  assumes "length (cn_pending c) = 40" "cn_filled c = 0" "off \<le> length data" "parse_rest data off (c, g) = (c', g')"
  shows "g' = push_all (map load_order (records (drop off data))) g" "conn_ok c'" "carried c' = fragment (drop off data)"
proof -
  let ?f = "fragment (drop off data)"
  have l: "length ?f < 40" by (rule fragment_length)
  have le: "length ?f \<le> length data" by (simp add: fragment_def)
  have d: "drop (length data - length ?f) data = ?f" using assms(3) le
    by (simp add: fragment_def)
  note p = parse_whole_spec [OF assms(3), of g]
  show "g' = push_all (map load_order (records (drop off data))) g" "conn_ok c'" "carried c' = ?f"
    using assms(1,2,4) p d l le by (auto simp: parse_rest_def conn_ok_def carried_def overwrite_def split: if_splits)
qed

lemma parse_chunk_spec:
  assumes "conn_ok c" "parse_chunk data (c, g) = (c', g')"
  shows "g' = push_all (map load_order (records (carried c @ data))) g \<and> conn_ok c' \<and> carried c' = fragment (carried c @ data)"
proof (cases "cn_filled c = 0")
  case True
  then show ?thesis using parse_rest_spec [of c 0 data g c' g'] assms by (auto simp: parse_chunk_def conn_ok_def carried_def)
next
  case False
  let ?f = "cn_filled c" and ?p = "cn_pending c"
  have p: "length ?p = 40" "?f < 40" using assms(1) by (auto simp: conn_ok_def)
  show ?thesis
  proof (cases "length data < 40 - ?f")
    case True
    then have "length (carried c @ data) < 40" using p by (simp add: carried_def)
    then show ?thesis using True False p assms(2) records_short [of "carried c @ data"]
      by (auto simp: parse_chunk_def Let_def overwrite_def conn_ok_def carried_def)
  next
    case long: False
    let ?n = "40 - ?f"
    let ?m = "overwrite ?f (take ?n data) ?p"
    have m: "?m = carried c @ take ?n data" "length ?m = 40" using p long by (simp_all add: overwrite_def carried_def)
    have r: "parse_rest data ?n (c\<lparr>cn_pending := ?m, cn_filled := 0\<rparr>, gw_push (load_order ?m) g) = (c', g')"
      using False long p assms(2) by (simp add: parse_chunk_def Let_def)
    have "?n \<le> length data" using long by simp
    note q = parse_rest_spec [OF _ _ this r]
    have l: "40 \<le> length (carried c @ data)" "take 40 (carried c @ data) = ?m" "drop 40 (carried c @ data) = drop ?n data"
      using p long m(1) by (simp_all add: carried_def)
    show ?thesis using q m(2) records_long [OF l(1)] fragment_long [OF l(1)] l(2,3) by simp
  qed
qed

text \<open>The bytes that a call of \<^verbatim>\<open>handle_conn\<close> receives, and how it ends: drained, or with the connection closed.\<close>

fun received :: "recv_result list \<Rightarrow> byte list" where
  "received (Got bs # script) = (if bs = [] then [] else bs @ received script)"
| "received (Recv_EINTR # script) = received script"
| "received _ = []"

fun drained :: "recv_result list \<Rightarrow> bool option" where
  "drained (Got bs # script) = (if bs = [] then Some False else drained script)"
| "drained (Recv_EINTR # script) = drained script"
| "drained (Recv_EAGAIN # script) = Some True"
| "drained (Recv_error # script) = Some False"
| "drained [] = None"

lemma recv_loop_spec:
  assumes "conn_ok c" "gw_conns g fd = Some c"
  shows "case drained script of
     None \<Rightarrow> recv_loop fd script c g = None
   | Some d \<Rightarrow> \<exists>c'. conn_ok c' \<and> carried c' = fragment (carried c @ received script) \<and>
       (let g1 = push_all (map load_order (records (carried c @ received script))) (g\<lparr>gw_conns := (gw_conns g)(fd \<mapsto> c')\<rparr>)
        in recv_loop fd script c g = Some (if d then g1 else close_conn fd g1))"
  using assms
proof (induction fd script c g rule: recv_loop.induct)
  case (2 fd bs script c g)
  show ?case
  proof (cases "bs = []")
    case False
    obtain c1 g1 where pc: "parse_chunk bs (c, g) = (c1, g1)" by force
    note sp = parse_chunk_spec [OF 2(2) pc]
    have m: "gw_conns g1 = gw_conns g" using sp by (simp add: push_all_state)
    have step: "recv_loop fd (Got bs # script) c g = recv_loop fd script c1 (g1\<lparr>gw_conns := (gw_conns g)(fd \<mapsto> c1)\<rparr>)"
      using False pc m by simp
    have ih: "case drained script of None \<Rightarrow> recv_loop fd script c1 (g1\<lparr>gw_conns := (gw_conns g)(fd \<mapsto> c1)\<rparr>) = None
     | Some d \<Rightarrow> \<exists>c'. conn_ok c' \<and> carried c' = fragment (carried c1 @ received script) \<and>
       (let g2 = push_all (map load_order (records (carried c1 @ received script))) (g1\<lparr>gw_conns := (gw_conns g)(fd \<mapsto> c')\<rparr>)
        in recv_loop fd script c1 (g1\<lparr>gw_conns := (gw_conns g)(fd \<mapsto> c1)\<rparr>) = Some (if d then g2 else close_conn fd g2))"
      unfolding m [symmetric] using 2(1) [OF False refl, of c1 g1] pc sp by (cases "drained script") (simp_all split del: if_split)
    have app: "records (carried c @ bs @ received script) = records (carried c @ bs) @ records (carried c1 @ received script)"
      "fragment (carried c @ bs @ received script) = fragment (carried c1 @ received script)"
      using records_append [of "carried c @ bs" "received script"] sp by simp_all
    have g1: "g1\<lparr>gw_conns := m\<rparr> = push_all (map load_order (records (carried c @ bs))) (g\<lparr>gw_conns := m\<rparr>)" for m
      using sp by (simp add: push_all_conns)
    have dr: "drained (Got bs # script) = drained script" "received (Got bs # script) = bs @ received script" using False by simp_all
    show ?thesis unfolding dr step app map_append push_all_simps g1 [symmetric] by (rule ih)
  qed (use 2 in \<open>auto simp: Let_def records_short conn_ok_def carried_def map_upd_triv intro!: exI [of _ c]\<close>)
next
  case (4 fd script c g)
  then show ?case unfolding drained.simps received.simps recv_loop.simps by blast
qed (auto simp: Let_def records_short conn_ok_def carried_def map_upd_triv intro!: exI)

text \<open>
  C23. Orders are reassembled from the stream whatever its chunks are: on a live connection, the bytes that were carried over and
  those that are received now, however they are cut into reads and interrupted, are pushed as the whole 40-byte records
  that they contain, in order, and the fragment behind them is carried on. No order is dropped: the inadmissible ones are counted and forwarded. No
  other connection is touched; at the end of the stream or on an error this one is closed.
\<close>

theorem handle_conn_stream:
  assumes "gw_conns g fd = Some c" "conn_ok c" "drained script = Some d"
  shows "case handle_conn fd False script g of
     None \<Rightarrow> False
   | Some g' \<Rightarrow>
       let stream = carried c @ received script; os = map load_order (records stream) in
       gw_inbound g' = gw_inbound g @ os \<and>
       gw_rejected g' = gw_rejected g + of_nat (length (filter (\<lambda>o'. \<not> is_admissible o') os)) \<and>
       (if d then \<exists>c'. conn_ok c' \<and> carried c' = fragment stream \<and> gw_conns g' = (gw_conns g)(fd \<mapsto> c') \<and> gw_closed g' = gw_closed g
        else gw_conns g' = (gw_conns g)(fd := None) \<and> gw_closed g' = gw_closed g @ [fd])"
proof -
  let ?os = "map load_order (records (carried c @ received script))"
  obtain c' where c': "conn_ok c'" "carried c' = fragment (carried c @ received script)"
    "recv_loop fd script c g = Some (let g1 = push_all ?os (g\<lparr>gw_conns := (gw_conns g)(fd \<mapsto> c')\<rparr>) in if d then g1 else close_conn fd g1)"
    using recv_loop_spec [OF assms(2,1), of script] assms(3) by (auto simp: Let_def)
  then have h: "handle_conn fd False script g =
      Some (let g1 = push_all ?os (g\<lparr>gw_conns := (gw_conns g)(fd \<mapsto> c')\<rparr>) in if d then g1 else close_conn fd g1)"
    using assms(1) by (simp add: handle_conn_def)
  show ?thesis
  proof (cases d)
    case True
    then show ?thesis using h c'(1,2) by (auto simp: Let_def push_all_state)
  next
    case False
    then show ?thesis using h by (simp add: Let_def push_all_state close_conn_def)
  qed
qed

theorem handle_conn_stream_witness:
  "let g = \<lparr>gw_inbound = [], gw_rejected = 0, gw_conns = [7 \<mapsto> Conn_init], gw_closed = []\<rparr> in
   case handle_conn 7 False [Got (take 30 (store_order far_order)), Recv_EINTR, Got (drop 30 (store_order far_order) @ [1, 2]), Recv_EAGAIN] g of
     None \<Rightarrow> False | Some g' \<Rightarrow> gw_inbound g' = [far_order] \<and> gw_rejected g' = 1"
proof -
  let ?s = "store_order far_order" and ?script = "[Got (take 30 (store_order far_order)), Recv_EINTR, Got (drop 30 (store_order far_order) @ [1, 2]), Recv_EAGAIN]"
  have ne: "take 30 ?s \<noteq> []" using store_order_length [of far_order] by (metis list.size(3) take_eq_Nil zero_neq_numeral)
  have r: "received ?script = ?s @ [1, 2]" using ne by (simp flip: append_assoc)
  have d: "drained ?script = Some True" using ne by simp
  have rec: "records (?s @ [1, 2]) = [?s]" by (simp add: records_long records_short)
  have "load_order (take 34 ?s @ [0, 0, 0, 0, 0, 0]) = far_order"
    by (rule load_store) (simp_all add: wire_order_def far_order_def side_of_byte_def type_of_byte_def)
  moreover have "take 34 ?s @ [0, 0, 0, 0, 0, 0] = ?s" by (simp add: store_order_def)
  ultimately have l: "load_order ?s = far_order" by simp
  have a: "\<not> is_admissible far_order"
    by (simp add: far_order_def is_admissible_def is_valid_price_def MIN_VALID_PRICE_def)
  have c: "conn_ok Conn_init" "carried Conn_init = []" by (simp_all add: conn_ok_def carried_def Conn_init_def)
  show ?thesis
    using handle_conn_stream [of "\<lparr>gw_inbound = [], gw_rejected = 0, gw_conns = [7 \<mapsto> Conn_init], gw_closed = []\<rparr>" 7 Conn_init ?script True]
      c d r rec l a by (simp add: Let_def split: option.splits)
qed

section \<open>The event loop\<close>

text \<open>
  The gateway's invariant: the fragment of every live connection is shorter than an order, and the rejection counter is the number of
  inadmissible orders among those that were pushed.
\<close>

definition gateway_ok :: "Gateway \<Rightarrow> bool" where
  "gateway_ok g \<longleftrightarrow> (\<forall>c \<in> ran (gw_conns g). conn_ok c) \<and>
     gw_rejected g = of_nat (length (filter (\<lambda>o'. \<not> is_admissible o') (gw_inbound g)))"

lemma gateway_ok_conn: "gateway_ok g \<Longrightarrow> gw_conns g fd = Some c \<Longrightarrow> conn_ok c"
  by (auto simp: gateway_ok_def ran_def)

lemma gateway_ok_upd: "gateway_ok g \<Longrightarrow> conn_ok c \<Longrightarrow> gateway_ok (g\<lparr>gw_conns := (gw_conns g)(fd \<mapsto> c)\<rparr>)"
  by (auto simp: gateway_ok_def ran_def split: if_splits)

lemma gateway_ok_close: "gateway_ok g \<Longrightarrow> gateway_ok (close_conn fd g)"
  by (auto simp: gateway_ok_def ran_def close_conn_def split: if_splits)

lemma gateway_ok_push: "gateway_ok g \<Longrightarrow> gateway_ok (push_all os g)"
  by (simp add: gateway_ok_def push_all_state)

lemma accept_loop_ok: "accept_loop script g = Some g' \<Longrightarrow> gateway_ok g \<Longrightarrow> gateway_ok g' \<and> gw_inbound g' = gw_inbound g"
proof (induction script g rule: accept_loop.induct)
  case (5 cfd armed script g)
  have "conn_ok Conn_init" by (simp add: conn_ok_def Conn_init_def)
  then have ok: "gateway_ok (g\<lparr>gw_conns := (gw_conns g)(cfd \<mapsto> Conn_init)\<rparr>)" "gateway_ok (g\<lparr>gw_closed := gw_closed g @ [cfd]\<rparr>)"
    using 5(4) gateway_ok_upd [of g Conn_init cfd] by (simp_all add: gateway_ok_def)
  show ?case
  proof (cases armed)
    case True
    then show ?thesis using 5(2-4) ok(1) by (cases "gw_conns g cfd = None") simp_all
  next
    case False
    then show ?thesis using 5(1) [OF False] 5(3) ok(2) by simp
  qed
qed auto

lemma recv_loop_ok:
  assumes "gateway_ok g" "gw_conns g fd = Some c" "recv_loop fd script c g = Some g'"
  shows "gateway_ok g' \<and> (\<exists>os. gw_inbound g' = gw_inbound g @ os)"
proof -
  note sp = recv_loop_spec [OF gateway_ok_conn [OF assms(1,2)] assms(2), of script]
  obtain d where "drained script = Some d" using sp assms(3) by (cases "drained script") auto
  then obtain c' os where c': "conn_ok c'" "g' = (let g1 = push_all os (g\<lparr>gw_conns := (gw_conns g)(fd \<mapsto> c')\<rparr>) in if d then g1 else close_conn fd g1)"
    using sp assms(3) by (auto simp: Let_def)
  have "gateway_ok (push_all os (g\<lparr>gw_conns := (gw_conns g)(fd \<mapsto> c')\<rparr>))"
    by (intro gateway_ok_push gateway_ok_upd assms c')
  then have "gateway_ok g'" using c'(2) by (auto simp: Let_def intro: gateway_ok_close)
  moreover have "gw_inbound g' = gw_inbound g @ os" using c'(2) by (simp add: Let_def push_all_state close_conn_def)
  ultimately show ?thesis by blast
qed

lemma handle_conn_ok:
  "handle_conn fd hup script g = Some g' \<Longrightarrow> gateway_ok g \<Longrightarrow> gateway_ok g' \<and> (\<exists>os. gw_inbound g' = gw_inbound g @ os)"
  using recv_loop_ok [of g fd] gateway_ok_close [of g fd]
  by (auto simp: handle_conn_def close_conn_def split: if_splits option.splits)

lemma dispatch_ok:
  "dispatch evs g = Some (stop, g') \<Longrightarrow> gateway_ok g \<Longrightarrow> gateway_ok g' \<and> (\<exists>os. gw_inbound g' = gw_inbound g @ os)"
proof (induction evs g rule: dispatch.induct)
  case (3 script evs g)
  then obtain g1 where "accept_loop script g = Some g1" "dispatch evs g1 = Some (stop, g')" by (auto split: option.splits)
  with 3 accept_loop_ok [of script g g1] show ?case by auto
next
  case (4 fd hup script evs g)
  then obtain g1 where g1: "handle_conn fd hup script g = Some g1" "dispatch evs g1 = Some (stop, g')" by (auto split: option.splits)
  from handle_conn_ok [OF g1(1) 4(3)] 4(1) [OF g1] show ?case by (metis append.assoc)
qed auto

text \<open>
  C25. Over any run of the event loop, whatever the system calls answer, the rejection counter is exactly the number of
  inadmissible orders among those that were pushed, and every live connection carries less than one order.
\<close>

theorem gateway_run_ok:
  assumes "gateway_create env = ([], Inr g)" "gateway_run waits g = Some g'"
  shows "gateway_ok g'"
proof -
  have run: "gateway_run waits g = Some g' \<Longrightarrow> gateway_ok g \<Longrightarrow> gateway_ok g'" for g
  proof (induction waits g rule: gateway_run.induct)
    case (4 evs waits g)
    then obtain stop g1 where d: "dispatch evs g = Some (stop, g1)" "if stop then g' = g1 else gateway_run waits g1 = Some g'"
      by (auto split: option.splits if_splits)
    then show ?case using 4(1) [OF d(1) refl] dispatch_ok [OF d(1) 4(3)] by (auto split: if_splits)
  qed auto
  have "gateway_ok g" using assms(1) by (auto simp: gateway_create_def gateway_ok_def split: if_splits)
  then show ?thesis using run assms(2) by blast
qed

theorem gateway_run_ok_witness:
  "\<exists>g g'. gateway_create \<lparr>ge_socket = True, ge_bind = True, ge_listen = True, ge_epoll_create = True, ge_eventfd = True, ge_arm_listen = True, ge_arm_stop = True\<rparr> = ([], Inr g) \<and>
     gateway_run [Ready [Ev_listen [Accepted 7 True, Accept_EAGAIN]], Wait_EINTR, Ready [Ev_conn 7 False [Got [1, 2, 3], Recv_EAGAIN], Ev_stop]] g = Some g' \<and>
     gateway_ok g'"
proof -
  let ?env = "\<lparr>ge_socket = True, ge_bind = True, ge_listen = True, ge_epoll_create = True, ge_eventfd = True, ge_arm_listen = True, ge_arm_stop = True\<rparr>"
  let ?g = "\<lparr>gw_inbound = [], gw_rejected = 0, gw_conns = Map.empty, gw_closed = []\<rparr>"
  have c: "gateway_create ?env = ([], Inr ?g)" by (simp add: gateway_create_def)
  obtain g' where g': "gateway_run [Ready [Ev_listen [Accepted 7 True, Accept_EAGAIN]], Wait_EINTR,
      Ready [Ev_conn 7 False [Got [1, 2, 3], Recv_EAGAIN], Ev_stop]] ?g = Some g'"
    by (cases "parse_chunk [1, 2, 3] (Conn_init, ?g\<lparr>gw_conns := [7 \<mapsto> Conn_init]\<rparr>)") (simp add: handle_conn_def)
  from gateway_run_ok [OF c g'] c g' show ?thesis by blast
qed

end
