(* ===== verification/Market_Maker.thy ===== *)
theory Market_Maker
  imports Snapshot Wire_Format
begin

text \<open>
  The market-making client, \<^verbatim>\<open>bots/market_maker.cpp\<close>: its record of its own orders, the handlers of the two
  feeds and one pass of its trading loop. The globals and the locals of the loop are one record. Connections, telemetry and printing are
  left out; whether a message is sent is a parameter of each pass (\<open>ok\<close>, of the message). The messages that went out are collected in \<open>bt_wire\<close>.
  The feed handlers run between passes, so that a pass is atomic; \<^verbatim>\<open>Quoting\<close> has the circuit breaker with fills that are handled while its pass runs as well.

  The position and the cash are exact integers here. The cash is a \<^verbatim>\<open>double\<close> in the code, which is exact for integers up to
  \<open>2 ^ 53\<close>; the skew is computed from \<^verbatim>\<open>inventory * 0.20\<close>, which is never near the middle between two integers, so that
  its rounding is that of a fifth of the position.
\<close>

section \<open>State\<close>

definition HALF_SPREAD :: int where "HALF_SPREAD = 5"
definition SKEW_THRESHOLD :: int where "SKEW_THRESHOLD = 50"
definition MAX_SKEW :: int where "MAX_SKEW = 40"
definition HALT_INV :: int where "HALT_INV = 500"
definition QUOTE_QTY :: Qty where "QUOTE_QTY = 5"
definition FLATTEN_CHUNK :: Qty where "FLATTEN_CHUNK = 50"
definition REQUOTE_TICKS :: int where "REQUOTE_TICKS = 1"
definition REQUOTE_MS :: "64 word" where "REQUOTE_MS = 1000"
definition IOC_CROSS :: int where "IOC_CROSS = 20"
definition SEED_MID :: int where "SEED_MID = 10000"
definition ID_BASE :: "64 word" where "ID_BASE = 1000000"
definition ID_MAX :: "64 word" where "ID_MAX = 2 ^ 22 - 1"

record MyOrder =
  mo_side :: Side
  mo_price :: PriceTick
  mo_remaining :: Qty

text \<open>The map \<^verbatim>\<open>g_orders\<close> is an association list with one entry per id.\<close>

record Bot =
  g_best_bid :: PriceTick
  g_best_ask :: PriceTick
  g_have_mid :: bool
  g_inventory :: int
  g_cash :: int
  g_last_trade_px :: "64 word"
  g_orders :: "(OrderId \<times> MyOrder) list"
  g_next_id :: "64 word"
  bt_connected :: bool
  bt_last_quote_mid :: PriceTick
  bt_have_quoted :: bool
  bt_cur_bid_id :: OrderId
  bt_cur_ask_id :: OrderId
  bt_last_quote_ms :: "64 word"
  bt_wire :: "Order list"

definition Bot_init :: Bot where
  "Bot_init = \<lparr>g_best_bid = 0, g_best_ask = 0, g_have_mid = False, g_inventory = 0, g_cash = 0, g_last_trade_px = 0, g_orders = [],
     g_next_id = ID_BASE, bt_connected = False, bt_last_quote_mid = 0, bt_have_quoted = False, bt_cur_bid_id = 0, bt_cur_ask_id = 0,
     bt_last_quote_ms = 0, bt_wire = []\<rparr>"

definition erase_order :: "OrderId \<Rightarrow> (OrderId \<times> MyOrder) list \<Rightarrow> (OrderId \<times> MyOrder) list" where
  "erase_order i os = filter (\<lambda>(k, _). k \<noteq> i) os"

definition record_order :: "OrderId \<Rightarrow> MyOrder \<Rightarrow> (OrderId \<times> MyOrder) list \<Rightarrow> (OrderId \<times> MyOrder) list" where
  "record_order i m os = (i, m) # erase_order i os"

section \<open>Sending\<close>

text \<open>\<^verbatim>\<open>send_all\<close>, with the return values of \<^verbatim>\<open>send\<close>: \<open>None\<close> while it waits for the next one.\<close>

fun send_all :: "int list \<Rightarrow> nat \<Rightarrow> nat \<Rightarrow> bool option" where
  "send_all [] off n = (if off < n then None else Some True)"
| "send_all (k # ks) off n =
     (if off < n then if k \<le> 0 then Some False else send_all ks (off + nat k) n else Some True)"

definition fire :: "(Order \<Rightarrow> bool) \<Rightarrow> OrderId \<Rightarrow> Side \<Rightarrow> OrderType \<Rightarrow> PriceTick \<Rightarrow> Qty \<Rightarrow> Bot \<Rightarrow> bool \<times> Bot" where
  "fire ok i side type px qty b =
     (let o' = \<lparr>o_id = i, o_seq = 0, o_price = px, o_quantity = qty, o_remaining = qty, o_side = side, o_type = type\<rparr> in
      if \<not> ok o' then (False, b)
      else
        let b = b\<lparr>bt_wire := bt_wire b @ [o']\<rparr> in
        (True, if type = LIMIT
               then b\<lparr>g_orders := record_order i \<lparr>mo_side = side, mo_price = px, mo_remaining = qty\<rparr> (g_orders b)\<rparr> else b))"

definition cancel_order :: "(Order \<Rightarrow> bool) \<Rightarrow> OrderId \<Rightarrow> Side \<Rightarrow> Bot \<Rightarrow> bool \<times> Bot" where
  "cancel_order ok i side b =
     (let o' = \<lparr>o_id = i, o_seq = 0, o_price = 0, o_quantity = 0, o_remaining = 0, o_side = side, o_type = CANCEL\<rparr> in
      if \<not> ok o' then (False, b)
      else (True, b\<lparr>bt_wire := bt_wire b @ [o'], g_orders := erase_order i (g_orders b)\<rparr>))"

definition next_id :: "Bot \<Rightarrow> OrderId \<times> Bot" where
  "next_id b =
     (let i = (if g_next_id b \<ge> ID_MAX then ID_BASE else g_next_id b) in (i, b\<lparr>g_next_id := i + 1\<rparr>))"

section \<open>Feeds\<close>

definition apply_fill_locked :: "OrderId \<Rightarrow> PriceTick \<Rightarrow> Qty \<Rightarrow> Bot \<Rightarrow> Bot" where
  "apply_fill_locked i px q b =
     (case map_of (g_orders b) i of
        None \<Rightarrow> b
      | Some m \<Rightarrow>
          if q = 0 then b
          else
            let tk = (if q < mo_remaining m then q else mo_remaining m);
                b = (if mo_side m = BUY
                     then b\<lparr>g_inventory := g_inventory b + uint tk, g_cash := g_cash b - px * uint tk\<rparr>
                     else b\<lparr>g_inventory := g_inventory b - uint tk, g_cash := g_cash b + px * uint tk\<rparr>);
                m = m\<lparr>mo_remaining := mo_remaining m - tk\<rparr>
            in b\<lparr>g_orders := (if mo_remaining m = 0 then erase_order i (g_orders b) else record_order i m (g_orders b))\<rparr>)"

definition on_trade :: "TradeEvent \<Rightarrow> Bot \<Rightarrow> Bot" where
  "on_trade ev b =
     (if te_status ev = TRADE_STATUS_REJECTED then b\<lparr>g_orders := erase_order (te_taker_id ev) (g_orders b)\<rparr>
      else
        let b = b\<lparr>g_last_trade_px := of_int (te_price ev)\<rparr>;
            b = apply_fill_locked (te_taker_id ev) (te_price ev) (te_quantity ev) b
        in apply_fill_locked (te_maker_id ev) (te_price ev) (te_quantity ev) b)"

text \<open>A snapshot datagram: its header and the whole levels that were received with it.\<close>

definition on_snapshot :: "SnapshotHeader \<Rightarrow> SnapshotLevel list \<Rightarrow> Bot \<Rightarrow> Bot" where
  "on_snapshot h levels b =
     (if sh_magic h \<noteq> SNAPSHOT_MAGIC then b
      else
        let got = length levels;
            nlv = (if unat (sh_level_count h) < got then unat (sh_level_count h) else got) in
        if nlv = 0 then b
        else
          let hb = (sh_bid_levels h > 0);
              ha = (sh_ask_levels h > 0 \<and> unat (sh_bid_levels h) < nlv)
          in if hb \<and> ha
             then b\<lparr>g_best_bid := sl_price (levels ! 0), g_best_ask := sl_price (levels ! unat (sh_bid_levels h)), g_have_mid := True\<rparr>
             else b)"

section \<open>The trading loop\<close>

text \<open>Division of signed integers truncates.\<close>

definition half :: "int \<Rightarrow> int" where
  "half x = (if x \<ge> 0 then x div 2 else - ((- x) div 2))"

definition effective_mid :: "Bot \<Rightarrow> PriceTick" where
  "effective_mid b =
     (if g_have_mid b then half (g_best_bid b + g_best_ask b)
      else if g_last_trade_px b > 0 then sint (g_last_trade_px b) else SEED_MID)"

definition inventory_skew :: "int \<Rightarrow> int" where
  "inventory_skew pos =
     (if pos > SKEW_THRESHOLD \<or> pos < - SKEW_THRESHOLD then
        if pos > 5 * MAX_SKEW then MAX_SKEW
        else if pos < - (5 * MAX_SKEW) then - MAX_SKEW
        else if pos \<ge> 0 then (2 * pos + 5) div 10 else - ((5 - 2 * pos) div 10)
      else 0)"

text \<open>The circuit breaker: cancel every resting quote, then send an immediate-or-cancel order against the position.\<close>

definition halt_cycle :: "(Order \<Rightarrow> bool) \<Rightarrow> Bot \<Rightarrow> Bot" where
  "halt_cycle ok b =
     (let mid = effective_mid b; pos = g_inventory b;
          live = map (\<lambda>(i, m). (i, mo_side m)) (g_orders b);
          b = fold (\<lambda>(i, sd) b. snd (cancel_order ok i sd b)) live b;
          b = b\<lparr>bt_cur_bid_id := 0, bt_cur_ask_id := 0, bt_have_quoted := False\<rparr>;
          (i, b) = next_id b
      in snd (if pos > 0 then fire ok i SELL IOC (mid - IOC_CROSS) FLATTEN_CHUNK b
              else fire ok i BUY IOC (mid + IOC_CROSS) FLATTEN_CHUNK b))"

text \<open>Cancel and replace the two quotes.\<close>

definition requote :: "(Order \<Rightarrow> bool) \<Rightarrow> 64 word \<Rightarrow> Bot \<Rightarrow> Bot" where
  "requote ok now b =
     (let mid = effective_mid b;
          r = mid - inventory_skew (g_inventory b);
          bid_px = r - HALF_SPREAD;
          ask_px = r + HALF_SPREAD;
          b = (if bt_cur_bid_id b \<noteq> 0 then snd (cancel_order ok (bt_cur_bid_id b) BUY b) else b);
          b = (if bt_cur_ask_id b \<noteq> 0 then snd (cancel_order ok (bt_cur_ask_id b) SELL b) else b);
          (bid_id, b) = next_id b;
          (ask_id, b) = next_id b;
          (ok1, b) = (if bid_px > 0 then fire ok bid_id BUY LIMIT bid_px QUOTE_QTY b else (True, b));
          (ok2, b) = fire ok ask_id SELL LIMIT ask_px QUOTE_QTY b
      in if \<not> ok1 \<or> \<not> ok2 then b\<lparr>bt_connected := False\<rparr>
         else b\<lparr>bt_cur_bid_id := (if bid_px > 0 then bid_id else 0), bt_cur_ask_id := ask_id, bt_last_quote_mid := mid,
                bt_have_quoted := True, bt_last_quote_ms := now\<rparr>)"

definition quote_due :: "64 word \<Rightarrow> Bot \<Rightarrow> bool" where
  "quote_due now b =
     (let mid = effective_mid b;
          moved = (if bt_have_quoted b then (if mid > bt_last_quote_mid b then mid - bt_last_quote_mid b else bt_last_quote_mid b - mid)
                   else REQUOTE_TICKS);
          stale = (now - bt_last_quote_ms b \<ge> REQUOTE_MS)
      in \<not> bt_have_quoted b \<or> moved \<ge> REQUOTE_TICKS \<or> stale)"

definition halted :: "Bot \<Rightarrow> bool" where
  "halted b \<longleftrightarrow> g_inventory b > HALT_INV \<or> g_inventory b < - HALT_INV"

text \<open>One pass of the loop; \<open>up\<close> says whether a connection attempt succeeds, should one be needed.\<close>

definition bot_cycle :: "bool \<Rightarrow> (Order \<Rightarrow> bool) \<Rightarrow> 64 word \<Rightarrow> Bot \<Rightarrow> Bot" where
  "bot_cycle up ok now b =
     (if \<not> bt_connected b \<and> \<not> up then b
      else
        let b = b\<lparr>bt_connected := True\<rparr> in
        if halted b then halt_cycle ok b
        else if quote_due now b then requote ok now b else b)"

end
