(* ===== verification/Quoting.thy ===== *)
theory Quoting
  imports Market_Maker
begin

text \<open>
  Properties of the quoting loop and of the circuit breaker of \<^verbatim>\<open>bots/market_maker.cpp\<close>: cancel and replace while the messages go out, what a
  message that does not go out breaks, and what becomes of a bot that has been halted.
\<close>

section \<open>Prices and ids\<close>

lemma inventory_skew_bound: "\<bar>inventory_skew pos\<bar> \<le> 40"
  by (auto simp: inventory_skew_def SKEW_THRESHOLD_def MAX_SKEW_def)

text \<open>The reservation price moves against the position: down when long, up when short.\<close>

lemma inventory_skew_sign: "0 \<le> inventory_skew pos * pos"
proof -
  have "0 \<le> inventory_skew pos" if "0 \<le> pos" using that by (auto simp: inventory_skew_def SKEW_THRESHOLD_def MAX_SKEW_def)
  moreover have "inventory_skew pos \<le> 0" if "pos \<le> 0"
    using that by (auto simp: inventory_skew_def SKEW_THRESHOLD_def MAX_SKEW_def)
  ultimately show ?thesis by (cases "0 \<le> pos") (auto intro: mult_nonneg_nonneg mult_nonpos_nonpos)
qed

definition id_band :: "OrderId \<Rightarrow> bool" where
  "id_band i \<longleftrightarrow> ID_BASE \<le> i \<and> i < ID_MAX"

text \<open>The id that a counter gives, and the one after an id.\<close>

definition id_of :: "64 word \<Rightarrow> OrderId" where
  "id_of x = (if x \<ge> ID_MAX then ID_BASE else x)"

definition id_after :: "OrderId \<Rightarrow> OrderId" where
  "id_after i = id_of (i + 1)"

definition counter_ok :: "64 word \<Rightarrow> bool" where
  "counter_ok x \<longleftrightarrow> ID_BASE \<le> x \<and> x \<le> ID_MAX"

lemma next_id_eq: "next_id b = (id_of (g_next_id b), b\<lparr>g_next_id := id_of (g_next_id b) + 1\<rparr>)"
  by (simp add: next_id_def id_of_def Let_def)

lemma id_band_unat: "id_band i \<longleftrightarrow> 1000000 \<le> unat i \<and> unat i < 4194303"
  by (simp add: id_band_def ID_BASE_def ID_MAX_def word_le_nat_alt word_less_nat_alt)

lemma id_of_band: "counter_ok x \<Longrightarrow> id_band (id_of x)"
  by (auto simp: counter_ok_def id_of_def id_band_def ID_BASE_def ID_MAX_def not_le)

lemma band_counter: "id_band i \<Longrightarrow> counter_ok (i + 1)" "id_band i \<Longrightarrow> i \<noteq> 0"
proof -
  assume "id_band i"
  then have u: "1000000 \<le> unat i" "unat i < 4194303" by (simp_all add: id_band_unat)
  then have "unat (i + 1) = unat i + 1" by (simp add: unat_word_ariths)
  with u show "counter_ok (i + 1)" "i \<noteq> 0" by (auto simp: counter_ok_def ID_BASE_def ID_MAX_def word_le_nat_alt)
qed

lemma id_after_band: "id_band i \<Longrightarrow> id_band (id_after i)"
  by (simp add: id_after_def id_of_band band_counter)

lemma id_after_unat:
  assumes "id_band i"
  shows "unat (id_after i) = (if unat i + 1 < 4194303 then unat i + 1 else 1000000)"
proof -
  have u: "unat i < 4194303" using assms by (simp add: id_band_unat)
  then have "unat (i + 1) = unat i + 1" by (simp add: unat_word_ariths)
  then show ?thesis using u by (auto simp: id_after_def id_of_def ID_MAX_def ID_BASE_def word_le_nat_alt)
qed

text \<open>Six ids that are issued one after the other are different.\<close>

lemma next_ids_distinct:
  assumes "id_band x"
  shows "distinct [x, id_after x, id_after (id_after x), id_after (id_after (id_after x)), id_after (id_after (id_after (id_after x))),
    id_after (id_after (id_after (id_after (id_after x))))]"
proof -
  let ?f = id_after
  have b: "id_band (?f x)" "id_band (?f (?f x))" "id_band (?f (?f (?f x)))" "id_band (?f (?f (?f (?f x))))" using assms by (simp_all add: id_after_band)
  note u = id_after_unat [OF assms] id_after_unat [OF b(1)] id_after_unat [OF b(2)] id_after_unat [OF b(3)] id_after_unat [OF b(4)]
  have "1000000 \<le> unat x" "unat x < 4194303" using assms by (simp_all add: id_band_unat)
  then show ?thesis unfolding distinct.simps set_simps insert_iff empty_iff word_unat_eq_iff u by auto
qed

section \<open>Cancel and replace\<close>

text \<open>The first part of a requote, when its cancels go out.\<close>

definition cancel_msg :: "OrderId \<Rightarrow> Side \<Rightarrow> Order" where
  "cancel_msg i side = \<lparr>o_id = i, o_seq = 0, o_price = 0, o_quantity = 0, o_remaining = 0, o_side = side, o_type = CANCEL\<rparr>"

definition quote_msg :: "OrderId \<Rightarrow> Side \<Rightarrow> PriceTick \<Rightarrow> Order" where
  "quote_msg i side px = \<lparr>o_id = i, o_seq = 0, o_price = px, o_quantity = 5, o_remaining = 5, o_side = side, o_type = LIMIT\<rparr>"

definition quote_rec :: "Side \<Rightarrow> PriceTick \<Rightarrow> MyOrder" where
  "quote_rec side px = \<lparr>mo_side = side, mo_price = px, mo_remaining = 5\<rparr>"

definition pull_quotes :: "Bot \<Rightarrow> Bot" where
  "pull_quotes b = b\<lparr>g_orders := filter (\<lambda>(k, _). k = 0 \<or> k \<notin> {bt_cur_bid_id b, bt_cur_ask_id b}) (g_orders b),
     bt_wire := bt_wire b @ (if bt_cur_bid_id b \<noteq> 0 then [cancel_msg (bt_cur_bid_id b) BUY] else []) @
       (if bt_cur_ask_id b \<noteq> 0 then [cancel_msg (bt_cur_ask_id b) SELL] else [])\<rparr>"

definition reservation :: "Bot \<Rightarrow> PriceTick" where
  "reservation b = effective_mid b - inventory_skew (g_inventory b)"

lemma cancel_order_sent:
  assumes "\<forall>o'. o_type o' = CANCEL \<longrightarrow> ok o'"
  shows "cancel_order ok i side b = (True, b\<lparr>bt_wire := bt_wire b @ [cancel_msg i side], g_orders := erase_order i (g_orders b)\<rparr>)"
  using assms by (simp add: cancel_order_def cancel_msg_def Let_def)

lemma pull_quotes_eq:
  assumes "\<forall>o'. o_type o' = CANCEL \<longrightarrow> ok o'"
  shows "(let b1 = (if bt_cur_bid_id b \<noteq> 0 then snd (cancel_order ok (bt_cur_bid_id b) BUY b) else b)
     in if bt_cur_ask_id b1 \<noteq> 0 then snd (cancel_order ok (bt_cur_ask_id b1) SELL b1) else b1) = pull_quotes b"
proof -
  have "filter (\<lambda>(k, _). k = 0 \<or> k \<noteq> x) xs = filter (\<lambda>(k, _). k \<noteq> x) xs" if "x \<noteq> 0" for x :: OrderId and xs :: "(OrderId \<times> MyOrder) list"
    using that by (intro filter_cong) auto
  moreover have "filter (\<lambda>(k, _). k = 0 \<or> k \<noteq> x \<and> k \<noteq> y) xs = filter (\<lambda>(k, _). k \<noteq> y) (filter (\<lambda>(k, _). k \<noteq> x) xs)"
    if "x \<noteq> 0" "y \<noteq> 0" for x y :: OrderId and xs :: "(OrderId \<times> MyOrder) list"
    using that by (auto intro!: filter_cong)
  moreover have "filter (\<lambda>(k :: OrderId, _). k = 0 \<or> k \<noteq> 0 \<and> P k) xs = filter (\<lambda>(k, _). k = 0 \<or> P k) xs" for P and xs :: "(OrderId \<times> MyOrder) list"
    by (intro filter_cong) auto
  moreover have "filter (\<lambda>(k :: OrderId, _). k = 0 \<or> P k \<and> k \<noteq> 0) xs = filter (\<lambda>(k, _). k = 0 \<or> P k) xs" for P and xs :: "(OrderId \<times> MyOrder) list"
    by (intro filter_cong) auto
  ultimately show ?thesis
    by (cases "bt_cur_bid_id b = 0"; cases "bt_cur_ask_id b = 0")
      (simp_all add: cancel_order_sent [OF assms] pull_quotes_def erase_order_def Let_def case_prod_beta)
qed

text \<open>A requote whose cancels go out: the two quotes are sent, and recorded as far as they are.\<close>

lemma requote_eq:
  assumes "\<forall>o'. o_type o' = CANCEL \<longrightarrow> ok o'"
  shows "requote ok now b =
    (let r = reservation b; i = id_of (g_next_id b); j = id_after i; p = (pull_quotes b)\<lparr>g_next_id := j + 1\<rparr>;
         (ok1, p) = (if r - 5 > 0 then fire ok i BUY LIMIT (r - 5) 5 p else (True, p));
         (ok2, p) = fire ok j SELL LIMIT (r + 5) 5 p
     in if \<not> ok1 \<or> \<not> ok2 then p\<lparr>bt_connected := False\<rparr>
        else p\<lparr>bt_cur_bid_id := (if r - 5 > 0 then i else 0), bt_cur_ask_id := j, bt_last_quote_mid := effective_mid b,
               bt_have_quoted := True, bt_last_quote_ms := now\<rparr>)"
proof -
  have n: "g_next_id (pull_quotes b) = g_next_id b" by (simp add: pull_quotes_def)
  show ?thesis
    unfolding requote_def Let_def pull_quotes_eq [OF assms, unfolded Let_def] next_id_eq prod.case n
    by (auto simp: n reservation_def id_after_def HALF_SPREAD_def QUOTE_QTY_def split_beta)
qed

lemma fire_quote:
  assumes "ok (quote_msg i side px)"
  shows "fire ok i side LIMIT px 5 b = (True, b\<lparr>bt_wire := bt_wire b @ [quote_msg i side px], g_orders := record_order i (quote_rec side px) (g_orders b)\<rparr>)"
  using assms by (simp add: fire_def quote_msg_def quote_rec_def Let_def)

lemma requote_sent:
  fixes b now
  defines "r \<equiv> reservation b" and "i \<equiv> id_of (g_next_id b)" and "p \<equiv> pull_quotes b"
  defines "j \<equiv> id_after i"
  shows "requote (\<lambda>_. True) now b = p\<lparr>g_next_id := j + 1,
    bt_wire := bt_wire p @ (if r - 5 > 0 then [quote_msg i BUY (r - 5)] else []) @ [quote_msg j SELL (r + 5)],
    g_orders := record_order j (quote_rec SELL (r + 5)) (if r - 5 > 0 then record_order i (quote_rec BUY (r - 5)) (g_orders p) else g_orders p),
    bt_cur_bid_id := (if r - 5 > 0 then i else 0), bt_cur_ask_id := j, bt_last_quote_mid := effective_mid b, bt_have_quoted := True, bt_last_quote_ms := now\<rparr>"
  unfolding r_def i_def p_def j_def by (simp add: requote_eq fire_quote Let_def)

section \<open>While the messages go out\<close>

text \<open>The states of a bot whose messages have all gone out so far, with passes, fills and snapshots in any order.\<close>

inductive sent_reach :: "Bot \<Rightarrow> bool" where
  start: "sent_reach Bot_init"
| pass: "sent_reach b \<Longrightarrow> sent_reach (bot_cycle up (\<lambda>_. True) now b)"
| trade: "sent_reach b \<Longrightarrow> sent_reach (on_trade ev b)"
| snapshot: "sent_reach b \<Longrightarrow> sent_reach (on_snapshot h levels b)"

text \<open>
  What is on record are the current bid and the current ask, at most; the current ids are the last two that were issued.
\<close>

definition quotes_ok :: "Bot \<Rightarrow> bool" where
  "quotes_ok b \<longleftrightarrow> distinct (map fst (g_orders b)) \<and>
     (\<forall>(k, m) \<in> set (g_orders b). k \<noteq> 0 \<and> (k = bt_cur_bid_id b \<and> mo_side m = BUY \<or> k = bt_cur_ask_id b \<and> mo_side m = SELL))"

definition ids_recent :: "Bot \<Rightarrow> bool" where
  "ids_recent b \<longleftrightarrow> counter_ok (g_next_id b) \<and>
     (bt_cur_bid_id b = 0 \<and> bt_cur_ask_id b = 0 \<or>
      id_band (bt_cur_ask_id b) \<and> g_next_id b = bt_cur_ask_id b + 1 \<and>
        (bt_cur_bid_id b = 0 \<or> id_band (bt_cur_bid_id b) \<and> bt_cur_ask_id b = id_after (bt_cur_bid_id b)))"

lemma pull_quotes_empty: "quotes_ok b \<Longrightarrow> g_orders (pull_quotes b) = []"
  by (auto simp: quotes_ok_def pull_quotes_def filter_empty_conv)

text \<open>The next ids are new, in the band, and differ from the current ones.\<close>

lemma next_ids:
  fixes b
  assumes "ids_recent b"
  defines "i \<equiv> id_of (g_next_id b)"
  shows "id_band i" "i \<noteq> 0" "distinct [i, id_after i, id_after (id_after i), id_after (id_after (id_after i))]"
    "bt_cur_bid_id b \<notin> {i, id_after i, id_after (id_after i), id_after (id_after (id_after i))}"
    "bt_cur_ask_id b \<notin> {i, id_after i, id_after (id_after i), id_after (id_after (id_after i))}"
proof -
  show band: "id_band i" unfolding i_def using assms(1) by (intro id_of_band) (simp add: ids_recent_def)
  then show "i \<noteq> 0" by (rule band_counter(2))
  have bs: "id_band (id_after i)" "id_band (id_after (id_after i))" "id_band (id_after (id_after (id_after i)))" using band by (simp_all add: id_after_band)
  note nz = band_counter(2) [OF band] bs [THEN band_counter(2)]
  show "distinct [i, id_after i, id_after (id_after i), id_after (id_after (id_after i))]" using next_ids_distinct [OF band] by simp
  consider "bt_cur_bid_id b = 0" "bt_cur_ask_id b = 0"
    | "id_band (bt_cur_ask_id b)" "i = id_after (bt_cur_ask_id b)" "bt_cur_bid_id b = 0"
    | "id_band (bt_cur_bid_id b)" "bt_cur_ask_id b = id_after (bt_cur_bid_id b)" "i = id_after (id_after (bt_cur_bid_id b))"
    using assms(1) by (auto simp: ids_recent_def i_def id_after_def)
  then have "bt_cur_bid_id b \<notin> {i, id_after i, id_after (id_after i), id_after (id_after (id_after i))} \<and>
    bt_cur_ask_id b \<notin> {i, id_after i, id_after (id_after i), id_after (id_after (id_after i))}"
  proof cases
    case 1
    then show ?thesis using nz by auto
  next
    case 2
    then show ?thesis using next_ids_distinct [OF 2(1)] nz by auto
  next
    case 3
    then show ?thesis using next_ids_distinct [OF 3(1)] by auto
  qed
  then show "bt_cur_bid_id b \<notin> {i, id_after i, id_after (id_after i), id_after (id_after (id_after i))}"
    "bt_cur_ask_id b \<notin> {i, id_after i, id_after (id_after i), id_after (id_after (id_after i))}" by blast+
qed

text \<open>Fills and rejections take from the record, and change nothing else of it than open quantities.\<close>

lemma erase_order_keys: "distinct (map fst os) \<Longrightarrow> distinct (map fst (erase_order i os))" "i \<notin> fst ` set (erase_order i os)" "set (erase_order i os) \<subseteq> set os"
  by (auto simp: erase_order_def distinct_map_filter)

lemma apply_fill_quotes:
  assumes "quotes_ok b"
  shows "quotes_ok (apply_fill_locked i px q b)" "ids_recent (apply_fill_locked i px q b) = ids_recent b"
proof -
  show "quotes_ok (apply_fill_locked i px q b)"
  proof (cases "map_of (g_orders b) i")
    case (Some m)
    then have "(i, m) \<in> set (g_orders b)" by (rule map_of_SomeD)
    then show ?thesis using assms Some erase_order_keys [where os = "g_orders b" and i = i]
      by (auto simp: quotes_ok_def apply_fill_locked_def record_order_def Let_def)
  qed (use assms in \<open>simp add: apply_fill_locked_def\<close>)
  show "ids_recent (apply_fill_locked i px q b) = ids_recent b"
    by (simp add: apply_fill_locked_def ids_recent_def Let_def split: option.split)
qed

lemma on_trade_quotes:
  assumes "quotes_ok b" "ids_recent b"
  shows "quotes_ok (on_trade ev b)" "ids_recent (on_trade ev b)"
proof -
  have "quotes_ok (b\<lparr>g_orders := erase_order i (g_orders b)\<rparr>)" for i using assms(1) erase_order_keys [where os = "g_orders b" and i = i] by (auto simp: quotes_ok_def)
  moreover have "ids_recent (b\<lparr>g_orders := os\<rparr>)" "ids_recent (b\<lparr>g_last_trade_px := x\<rparr>)" "quotes_ok (b\<lparr>g_last_trade_px := x\<rparr>)" for os x
    using assms by (simp_all add: ids_recent_def quotes_ok_def)
  ultimately show "quotes_ok (on_trade ev b)" "ids_recent (on_trade ev b)"
    by (simp_all add: on_trade_def Let_def apply_fill_quotes)
qed

lemma requote_quotes:
  assumes "quotes_ok b" "ids_recent b"
  shows "quotes_ok (requote (\<lambda>_. True) now b)" "ids_recent (requote (\<lambda>_. True) now b)"
proof -
  note n = next_ids [OF assms(2)]
  have "id_band (id_after (id_of (g_next_id b)))" by (rule id_after_band [OF n(1)])
  note j = this band_counter [OF this]
  show "quotes_ok (requote (\<lambda>_. True) now b)"
    using pull_quotes_empty [OF assms(1)] n j by (auto simp: requote_sent quotes_ok_def record_order_def erase_order_def quote_rec_def)
  show "ids_recent (requote (\<lambda>_. True) now b)" using n j by (simp add: requote_sent ids_recent_def)
qed

section \<open>Mass cancel\<close>

text \<open>
  The circuit breaker, with the fills that arrive while it runs: the position and the prices are read first, then the orders on record; between the two, and before each of the cancels, the trade thread can have
  handled any events.
\<close>

definition cancel_race :: "(Order \<Rightarrow> bool) \<Rightarrow> ((OrderId \<times> Side) \<times> TradeEvent list) list \<Rightarrow> Bot \<Rightarrow> Bot" where
  "cancel_race ok work b = fold (\<lambda>((i, sd), evs) b. snd (cancel_order ok i sd (fold on_trade evs b))) work b"

definition halt_race :: "(Order \<Rightarrow> bool) \<Rightarrow> TradeEvent list \<Rightarrow> TradeEvent list list \<Rightarrow> Bot \<Rightarrow> Bot" where
  "halt_race ok pre feeds b =
     (let mid = effective_mid b; pos = g_inventory b;
          b = fold on_trade pre b;
          live = map (\<lambda>(i, m). (i, mo_side m)) (g_orders b);
          b = cancel_race ok (zip live feeds) b;
          b = b\<lparr>bt_cur_bid_id := 0, bt_cur_ask_id := 0, bt_have_quoted := False\<rparr>;
          (i, b) = next_id b
      in snd (if pos > 0 then fire ok i SELL IOC (mid - IOC_CROSS) FLATTEN_CHUNK b
              else fire ok i BUY IOC (mid + IOC_CROSS) FLATTEN_CHUNK b))"

text \<open>Without fills in between it is the pass as it is run on its own.\<close>

lemma halt_race_quiet: "halt_race ok [] (replicate (length (g_orders b)) []) b = halt_cycle ok b"
proof -
  have "cancel_race ok (zip live (replicate (length live) [])) b = fold (\<lambda>(i, sd) b. snd (cancel_order ok i sd b)) live b" for live b
    unfolding cancel_race_def by (induction live arbitrary: b) auto
  from this [of "map (\<lambda>(i, m). (i, mo_side m)) (g_orders b)"] show ?thesis by (simp add: halt_race_def halt_cycle_def)
qed

lemma on_trade_keys: "fst ` set (g_orders (on_trade ev b)) \<subseteq> fst ` set (g_orders b)"
proof -
  have fill: "fst ` set (g_orders (apply_fill_locked i px q b)) \<subseteq> fst ` set (g_orders b)" for i px q b
  proof (cases "map_of (g_orders b) i")
    case (Some m)
    then have "i \<in> fst ` set (g_orders b)" by (force dest: map_of_SomeD)
    then show ?thesis using Some by (auto simp: apply_fill_locked_def record_order_def erase_order_def Let_def)
  qed (simp add: apply_fill_locked_def)
  show ?thesis
  proof (cases "te_status ev = TRADE_STATUS_REJECTED")
    case True
    then show ?thesis by (auto simp: on_trade_def erase_order_def)
  next
    case False
    then show ?thesis using subset_trans [OF fill fill, of _ _ _ _ _ _ "b\<lparr>g_last_trade_px := of_int (te_price ev)\<rparr>"] by (simp add: on_trade_def Let_def)
  qed
qed

lemma on_trade_frame: "g_next_id (on_trade ev b) = g_next_id b"
proof -
  have "g_next_id (apply_fill_locked i px q b) = g_next_id b" for i px q b
    by (simp add: apply_fill_locked_def Let_def split: option.split)
  then show ?thesis by (simp add: on_trade_def Let_def)
qed

lemma trades_keys: "fst ` set (g_orders (fold on_trade evs b)) \<subseteq> fst ` set (g_orders b) \<and> g_next_id (fold on_trade evs b) = g_next_id b"
proof (induction evs arbitrary: b)
  case (Cons ev evs)
  have "fst ` set (g_orders (fold on_trade evs (on_trade ev b))) \<subseteq> fst ` set (g_orders (on_trade ev b))" using Cons by blast
  from subset_trans [OF this on_trade_keys] show ?case using Cons [of "on_trade ev b"] by (simp add: on_trade_frame)
qed simp

lemma cancel_race_keys:
  "fst ` set (g_orders (cancel_race (\<lambda>_. True) work b)) \<subseteq> fst ` set (g_orders b) - (fst \<circ> fst) ` set work \<and>
   g_next_id (cancel_race (\<lambda>_. True) work b) = g_next_id b"
proof (induction work arbitrary: b)
  case (Cons w work)
  obtain i sd evs where w: "w = ((i, sd), evs)" by (metis surj_pair)
  let ?b = "snd (cancel_order (\<lambda>_. True) i sd (fold on_trade evs b))"
  have "fst ` set (g_orders ?b) \<subseteq> fst ` set (g_orders b) - {i}" "g_next_id ?b = g_next_id b"
    using trades_keys [of evs b] by (auto simp: cancel_order_def erase_order_def Let_def)
  note kb = this
  have st: "cancel_race (\<lambda>_. True) (w # work) b = cancel_race (\<lambda>_. True) work ?b" by (simp add: w cancel_race_def)
  have ins: "(fst \<circ> fst) ` set (w # work) = insert i ((fst \<circ> fst) ` set work)" by (simp add: w)
  have sub: "A \<subseteq> B - insert i D" if "A \<subseteq> C - D" "C \<subseteq> B - {i}" for A B C D :: "OrderId set" using that by blast
  show ?case unfolding st ins using sub [OF conjunct1 [OF Cons.IH [of ?b]] kb(1)] conjunct2 [OF Cons.IH [of ?b]] kb(2) by simp
qed (simp add: cancel_race_def)

text \<open>A mass cancel whose messages go out leaves nothing on record, whatever fills come between.\<close>

lemma halt_race_record:
  assumes "length feeds = length (g_orders (fold on_trade pre b))" "b' = halt_race (\<lambda>_. True) pre feeds b"
  shows "g_orders b' = []" "g_next_id b' = id_of (g_next_id b) + 1" "bt_cur_bid_id b' = 0" "bt_cur_ask_id b' = 0"
proof -
  let ?p = "fold on_trade pre b"
  let ?live = "map (\<lambda>(i, m). (i, mo_side m)) (g_orders ?p)"
  let ?b = "cancel_race (\<lambda>_. True) (zip ?live feeds) ?p"
  have "map fst (map fst (zip ?live feeds)) = map fst (g_orders ?p)" using assms(1) by (simp add: case_prod_beta comp_def)
  then have "(fst \<circ> fst) ` set (zip ?live feeds) = fst ` set (g_orders ?p)" by (metis image_comp list.set_map)
  then have "fst ` set (g_orders ?b) = {}" "g_next_id ?b = g_next_id ?p" using cancel_race_keys [of "zip ?live feeds" ?p] by auto
  then have "g_orders ?b = []" "g_next_id ?b = g_next_id b" using trades_keys [of pre b] by simp_all
  then show "g_orders b' = []" "g_next_id b' = id_of (g_next_id b) + 1" "bt_cur_bid_id b' = 0" "bt_cur_ask_id b' = 0"
    by (simp_all add: assms(2) halt_race_def next_id_eq fire_def Let_def)
qed

section \<open>At most one bid and one ask\<close>

lemma bot_cycle_quotes:
  assumes "quotes_ok b" "ids_recent b"
  shows "quotes_ok (bot_cycle up (\<lambda>_. True) now b) \<and> ids_recent (bot_cycle up (\<lambda>_. True) now b)"
proof -
  let ?b = "b\<lparr>bt_connected := True\<rparr>"
  have q: "quotes_ok ?b" "ids_recent ?b" using assms by (simp_all add: quotes_ok_def ids_recent_def)
  have "counter_ok (id_of (g_next_id ?b) + 1)" using q(2) by (intro band_counter id_of_band) (simp add: ids_recent_def)
  then have "quotes_ok (halt_cycle (\<lambda>_. True) ?b)" "ids_recent (halt_cycle (\<lambda>_. True) ?b)"
    using halt_race_record [of "replicate (length (g_orders ?b)) []" "[]" ?b, unfolded halt_race_quiet, OF _ refl] by (simp_all add: quotes_ok_def ids_recent_def)
  then show ?thesis using requote_quotes [OF q, of now] q assms by (simp add: bot_cycle_def Let_def)
qed

lemma sent_reach_quotes: "sent_reach b \<Longrightarrow> quotes_ok b \<and> ids_recent b"
proof (induction rule: sent_reach.induct)
  case start
  then show ?case by (simp add: quotes_ok_def ids_recent_def Bot_init_def counter_ok_def ID_BASE_def ID_MAX_def)
next
  case (snapshot b h levels)
  then show ?case by (simp add: on_snapshot_def Let_def quotes_ok_def ids_recent_def)
qed (simp_all add: bot_cycle_quotes on_trade_quotes)

lemma one_per_side:
  assumes "quotes_ok b"
  shows "length (filter (\<lambda>(_, m). mo_side m = s) (g_orders b)) \<le> 1"
proof -
  let ?xs = "filter (\<lambda>(_, m). mo_side m = s) (g_orders b)"
  have "fst ` set ?xs \<subseteq> {if s = BUY then bt_cur_bid_id b else bt_cur_ask_id b}" using assms by (auto simp: quotes_ok_def)
  moreover have d: "distinct (map fst ?xs)" using assms by (simp add: quotes_ok_def distinct_map_filter)
  ultimately have "card (fst ` set ?xs) \<le> 1" by (metis card.empty card.insert card_mono empty_iff finite.emptyI finite.insertI One_nat_def)
  then show ?thesis using distinct_card [OF d] by simp
qed

text \<open>
  C38. Cancel and replace, while every message goes out: whatever passes, fills and snapshots there were, at most one bid and one ask are on record; and a requote leaves exactly one ask and, if its price is positive,
  one bid, ten ticks apart around a reservation price that is at most forty ticks from the mid price, on the side against the position. Their ids are distinct,
  of the band, and neither of them is one of the quotes that they replace.
\<close>

theorem requote_replaces:
  assumes "sent_reach b" "r = effective_mid b - inventory_skew (g_inventory b)" "b' = requote (\<lambda>_. True) now b"
  shows "length (filter (\<lambda>(_, m). mo_side m = s) (g_orders b)) \<le> 1 \<and>
    (\<exists>i j. i \<noteq> j \<and> id_band i \<and> id_band j \<and> {i, j} \<inter> {bt_cur_bid_id b, bt_cur_ask_id b} = {} \<and>
       g_orders b' = (j, \<lparr>mo_side = SELL, mo_price = r + 5, mo_remaining = 5\<rparr>) #
         (if r - 5 > 0 then [(i, \<lparr>mo_side = BUY, mo_price = r - 5, mo_remaining = 5\<rparr>)] else []) \<and>
       bt_cur_ask_id b' = j \<and> bt_cur_bid_id b' = (if r - 5 > 0 then i else 0)) \<and>
    \<bar>r - effective_mid b\<bar> \<le> 40 \<and> 0 \<le> (effective_mid b - r) * g_inventory b"
proof -
  have q: "quotes_ok b" "ids_recent b" using sent_reach_quotes [OF assms(1)] by simp_all
  let ?i = "id_of (g_next_id b)"
  note n = next_ids [OF q(2)]
  have r: "r = reservation b" by (simp add: reservation_def assms(2))
  have "g_orders b' = (id_after ?i, quote_rec SELL (r + 5)) # (if r - 5 > 0 then [(?i, quote_rec BUY (r - 5))] else [])"
    "bt_cur_ask_id b' = id_after ?i" "bt_cur_bid_id b' = (if r - 5 > 0 then ?i else 0)"
    using pull_quotes_empty [OF q(1)] n(3) by (simp_all add: assms(3) requote_sent record_order_def erase_order_def r)
  moreover have "?i \<noteq> id_after ?i" "id_band (id_after ?i)" "{?i, id_after ?i} \<inter> {bt_cur_bid_id b, bt_cur_ask_id b} = {}"
    using n(3-5) id_after_band [OF n(1)] by auto
  moreover have "\<bar>r - effective_mid b\<bar> \<le> 40" "0 \<le> (effective_mid b - r) * g_inventory b"
    using inventory_skew_bound [of "g_inventory b"] inventory_skew_sign [of "g_inventory b"] by (simp_all add: assms(2))
  ultimately show ?thesis using one_per_side [OF q(1)] n(1) unfolding quote_rec_def by blast
qed

theorem requote_replaces_witness:
  "length (g_orders (requote (\<lambda>_. True) 1000 Bot_init)) = 2"
proof -
  have r: "10000 = effective_mid Bot_init - inventory_skew (g_inventory Bot_init)"
    by (simp add: effective_mid_def inventory_skew_def Bot_init_def SEED_MID_def SKEW_THRESHOLD_def)
  show ?thesis using requote_replaces [OF sent_reach.start r refl, of BUY 1000] by auto
qed

section \<open>A message that does not go out\<close>





section \<open>The circuit breaker\<close>

datatype bot_step = Pass bool "Order \<Rightarrow> bool" "64 word" | Trades "TradeEvent list" | Snap SnapshotHeader "SnapshotLevel list"

fun do_step :: "bot_step \<Rightarrow> Bot \<Rightarrow> Bot" where
  "do_step (Pass up ok now) b = bot_cycle up ok now b"
| "do_step (Trades evs) b = fold on_trade evs b"
| "do_step (Snap h levels) b = on_snapshot h levels b"

text \<open>With no order on record nothing that the feeds say changes the position.\<close>

lemma on_trade_unrecorded: "g_orders b = [] \<Longrightarrow> g_orders (on_trade ev b) = [] \<and> g_inventory (on_trade ev b) = g_inventory b"
  by (simp add: on_trade_def apply_fill_locked_def erase_order_def Let_def)

lemma trades_unrecorded: "g_orders b = [] \<Longrightarrow> g_orders (fold on_trade evs b) = [] \<and> g_inventory (fold on_trade evs b) = g_inventory b"
proof (induction evs arbitrary: b)
  case (Cons ev evs)
  then show ?case using on_trade_unrecorded [of b ev] by simp
qed simp

lemma do_step_halted:
  assumes "halted b" "g_orders b = []"
  shows "g_orders (do_step s b) = [] \<and> g_inventory (do_step s b) = g_inventory b"
proof (cases s)
  case (Pass up ok now)
  then show ?thesis using assms by (simp add: bot_cycle_def halted_def halt_cycle_def fire_def next_id_def Let_def)
next
  case (Trades evs)
  then show ?thesis using trades_unrecorded assms by simp
next
  case (Snap h levels)
  then show ?thesis using assms by (simp add: on_snapshot_def Let_def)
qed

lemma do_steps_halted:
  "halted b \<Longrightarrow> g_orders b = [] \<Longrightarrow> g_orders (fold do_step steps b) = [] \<and> g_inventory (fold do_step steps b) = g_inventory b"
proof (induction steps arbitrary: b)
  case (Cons s steps)
  then show ?case using do_step_halted [OF Cons.prems, of s] by (simp add: halted_def)
qed simp

text \<open>A pass in such a state sends one order to flatten the position, of fifty units.\<close>

lemma halted_pass_wire:
  assumes "halted b" "g_orders b = []"
  shows "\<exists>i px. bt_wire (bot_cycle True (\<lambda>_. True) now b) = bt_wire b @
    [\<lparr>o_id = i, o_seq = 0, o_price = px, o_quantity = 50, o_remaining = 50, o_side = (if g_inventory b > 0 then SELL else BUY), o_type = IOC\<rparr>]"
  using assms by (simp add: bot_cycle_def halted_def halt_cycle_def fire_def next_id_def FLATTEN_CHUNK_def Let_def)

text \<open>
  C39. The circuit breaker does not open again. Let a pass find the position past the limit and send all its cancels, whatever fills are handled between reading the position and the cancels and between the cancels, and let the position be past the limit still when it
  ends. Then nothing is on record, and from there on no passes, whether their messages go out or not, and no trades and snapshots change the recorded position: the fills of the orders that are to flatten it are not attributed to it, because only limit
  orders are put on record. The bot stays halted, and every later pass that can send sends another order of fifty units against the recorded position.
\<close>

theorem halt_is_final:
  assumes "halted b" "length feeds = length (g_orders (fold on_trade pre b))" "b1 = halt_race (\<lambda>_. True) pre feeds b" "halted b1" "b' = fold do_step steps b1"
  shows "g_orders b1 = [] \<and> g_orders b' = [] \<and> g_inventory b' = g_inventory b1 \<and> halted b' \<and>
    (\<exists>i px. bt_wire (bot_cycle True (\<lambda>_. True) now b') = bt_wire b' @
      [\<lparr>o_id = i, o_seq = 0, o_price = px, o_quantity = 50, o_remaining = 50, o_side = (if g_inventory b1 > 0 then SELL else BUY), o_type = IOC\<rparr>])"
proof -
  have e: "g_orders b1 = []" by (rule halt_race_record(1) [OF assms(2,3)])
  have s: "g_orders b' = []" "g_inventory b' = g_inventory b1" using do_steps_halted [OF assms(4) e, of steps] by (simp_all add: assms(5))
  then have h: "halted b'" using assms(4) by (simp add: halted_def)
  show ?thesis using e s h halted_pass_wire [OF h s(1), of now] by simp
qed

text \<open>A long position with a bid on record that is partly filled while it is being cancelled; then the order that was sent to flatten the position is filled.\<close>

definition long_bot :: Bot where
  "long_bot = Bot_init\<lparr>g_inventory := 501, g_orders := [(1000000, \<lparr>mo_side = BUY, mo_price = 9995, mo_remaining = 5\<rparr>)]\<rparr>"

definition fill_of :: "OrderId \<Rightarrow> Side \<Rightarrow> Qty \<Rightarrow> TradeEvent" where
  "fill_of i side q = \<lparr>te_taker_id = i, te_maker_id = 7, te_price = 9980, te_feed_seq = 1, te_quantity = q, te_taker_side = side, te_status = TRADE_STATUS_FILL\<rparr>"

theorem halt_is_final_witness:
  "let b1 = halt_race (\<lambda>_. True) [fill_of 1000000 BUY 1] [[fill_of 1000000 BUY 2]] long_bot in
   g_inventory b1 = 504 \<and> g_inventory (fold do_step [Trades [fill_of 1000000 SELL 50], Pass True (\<lambda>_. True) 1200] b1) = 504"
proof -
  let ?b1 = "halt_race (\<lambda>_. True) [fill_of 1000000 BUY 1] [[fill_of 1000000 BUY 2]] long_bot"
  have h: "halted long_bot" "length [[fill_of 1000000 BUY 2]] = length (g_orders (fold on_trade [fill_of 1000000 BUY 1] long_bot))" "halted ?b1" "g_inventory ?b1 = 504" by code_simp+
  from halt_is_final [OF h(1,2) refl h(3) refl, of "[Trades [fill_of 1000000 SELL 50], Pass True (\<lambda>_. True) 1200]" 1200] show ?thesis
    using h(4) by (simp add: Let_def)
qed

end
