(* ===== verification/Price_Typing.thy ===== *)
theory Price_Typing
  imports Sequencer Wire_Format
begin

text \<open>
  Types of values along the matching path. A \<^verbatim>\<open>PriceTick\<close> is an integer in the model and a signed 64-bit number in the code; here every order that rests and every event is shown
  to carry a price of that type, and a resting order to be of the kind that its place in the book says.
\<close>

definition typed_price :: "PriceTick \<Rightarrow> bool" where
  "typed_price p \<longleftrightarrow> - (2 ^ 63) \<le> p \<and> p < 2 ^ 63"

text \<open>A resting order of a level: a limit order of that side and price, with an admissible price and something left to trade.\<close>

definition typed_rest :: "bool \<Rightarrow> PriceTick \<Rightarrow> Order \<Rightarrow> bool" where
  "typed_rest buy p o' \<longleftrightarrow> o_type o' = LIMIT \<and> (o_side o' = BUY) = buy \<and> o_price o' = p \<and> is_valid_price p \<and> o_remaining o' \<noteq> 0"

definition typed_state :: "OrderBook \<times> TradeEvent list \<Rightarrow> bool" where
  "typed_state = (\<lambda>(b, log). engine_ok b \<and> (\<forall>t \<in> set log. typed_price (te_price t)) \<and>
     (\<forall>s. \<forall>x \<in> set (all_orders (book_side b s)). o_type x = LIMIT \<and> is_valid_price (o_price x)))"

lemma typed_valid: "is_valid_price p \<Longrightarrow> typed_price p"
  by (simp add: is_valid_price_def typed_price_def MIN_VALID_PRICE_def MAX_VALID_PRICE_def)

text \<open>What matching leaves of a queue differs from the queue in the open quantity of its first order at most.\<close>

lemma consumes_rest: "consumes fs os os' \<Longrightarrow> x \<in> set os' \<Longrightarrow> x \<in> set os \<or> (\<exists>y \<in> set os. \<exists>q. x = y\<lparr>o_remaining := q\<rparr>)"
  by (induction fs os os' rule: consumes.induct) (auto split: if_splits)

lemma submit_typed:
  assumes "typed_state st" "typed_price (o_price inc)"
  shows "typed_state (snd (submit inc st))"
proof -
  obtain b log where st: "st = (b, log)" by force
  obtain r b' log' where s: "submit inc (b, log) = (r, b', log')" by (metis prod_cases3)
  have ok: "engine_ok b" and ev: "\<And>t. t \<in> set log \<Longrightarrow> typed_price (te_price t)"
    and rest: "\<And>x s. x \<in> set (all_orders (book_side b s)) \<Longrightarrow> o_type x = LIMIT \<and> is_valid_price (o_price x)"
    using assms(1) st by (auto simp: typed_state_def)
  have ok': "engine_ok b'" using submit_engine [OF ok, of inc log] s by simp
  have "(\<forall>t \<in> set log'. typed_price (te_price t)) \<and> (\<forall>s. \<forall>x \<in> set (all_orders (book_side b' s)). o_type x = LIMIT \<and> is_valid_price (o_price x))"
  proof (cases "o_type inc = CANCEL")
    case True
    then have "b' = snd (cancel (o_id inc) b)" "log' = log" using s by (auto simp: submit_def split_beta)
    moreover have "book_inv b" using ok by (simp add: engine_ok_def)
    ultimately show ?thesis using ev rest book_cancel(3) [of b "o_id inc"] by (auto simp: dequeue_orders)
  next
    case nc: False
    show ?thesis
    proof (cases "is_admissible inc")
      case False
      then show ?thesis using submit_inadmissible_result [OF nc, of b log] s ev rest assms(2) by (auto simp: reject_event_def)
    next
      case True
      let ?buy = "o_side inc = BUY"
      from ok s nc True obtain q fs where
        m: "match_side (crosses inc ?buy) (o_remaining inc) (book_side b (\<not> ?buy)) = (q, fs, book_side b' (\<not> ?buy))"
          "book_side b' ?buy = (if rested r then enqueue (prec_of ?buy) (inc\<lparr>o_remaining := q\<rparr>) (book_side b ?buy) else book_side b ?buy)"
          "rested r \<longrightarrow> q \<noteq> 0 \<and> o_type inc = LIMIT"
          "log' = log @ map (fill_event inc ?buy) fs @ (if rejected r then [reject_event inc] else [])"
        by (rule submit_matching)
      note c = match_side_consumes [OF m(1)]
      have mk: "x \<in> set (all_orders (book_side b (\<not> ?buy)))" if "(x, y) \<in> set fs" for x y
        using consumes_makers [OF c] that by (metis fst_conv image_eqI in_set_takeD set_map)
      have "typed_price (te_price t)" if "t \<in> set log'" for t
        using that ev mk rest typed_valid assms(2) unfolding m(4) by (force simp: fill_event_def reject_event_def split: if_splits)
      moreover have "o_type x = LIMIT \<and> is_valid_price (o_price x)" if "x \<in> set (all_orders (book_side b' z))" for x z
      proof (cases "z = ?buy")
        case own: True
        have "o_type inc = LIMIT \<Longrightarrow> is_valid_price (o_price inc)" using True by (simp add: is_admissible_def)
        then show ?thesis using that rest m(2,3) own by (auto simp: enqueue_orders split: if_splits)
      next
        case False
        then have "z = (\<not> ?buy)" by simp
        then show ?thesis using consumes_rest [OF c] that rest by fastforce
      qed
      ultimately show ?thesis by blast
    qed
  qed
  then show ?thesis using ok' s st by (simp add: typed_state_def)
qed

lemma run_submits_typed: "typed_state st \<Longrightarrow> list_all (\<lambda>o'. typed_price (o_price o')) os \<Longrightarrow> typed_state (run_submits os st)"
  by (induction os arbitrary: st) (simp_all add: submit_typed)

text \<open>
  C5. The engine is type-safe in its prices: fed with any orders that fit the structure, which is what the gateway reads out of any 40 bytes, it only emits events whose
  prices are such numbers, and what rests on a level of the book is a limit order of that side and exactly that price, within the valid range, with something left to trade. So no
  cast of a price in the code loses information.
\<close>

theorem prices_typed:
  assumes "max_nodes * 64 < 2 ^ 32" "list_all wire_order os"
    "run_submits os (book_init max_nodes ids lvls, []) = (b, log)"
  shows "(\<forall>t \<in> set log. typed_price (te_price t)) \<and> (\<forall>(p, q) \<in> set (book_side b s). list_all (typed_rest s p) q)"
proof -
  have "typed_state (book_init max_nodes ids lvls, [])"
    using book_init_engine [OF assms(1)] book_init_side [OF assms(1)] by (simp add: typed_state_def all_orders_def)
  moreover have "list_all (\<lambda>o'. typed_price (o_price o')) os" using assms(2) by (auto simp: list_all_iff wire_order_def typed_price_def)
  ultimately have t: "typed_state (b, log)" using run_submits_typed assms(3) by metis
  have "typed_rest s p x" if "(p, q) \<in> set (book_side b s)" "x \<in> set q" for p q x
  proof -
    have "x \<in> set (all_orders (book_side b s))" using that by (force simp: all_orders_def)
    moreover have "book_inv b" "\<forall>s. positive (book_side b s)" using t by (auto simp: typed_state_def engine_ok_def)
    ultimately show ?thesis using t book_order_price [OF _ that] by (auto simp: typed_state_def typed_rest_def positive_def)
  qed
  then show ?thesis using t by (auto simp: typed_state_def list_all_iff)
qed

theorem prices_typed_witness:
  "list_all (\<lambda>t. typed_price (te_price t)) (snd (run_submits [sell5, buy3] (book0, [])))"
proof -
  obtain b log where r: "run_submits [sell5, buy3] (book_init 4 32 8, []) = (b, log)" by force
  have "list_all wire_order [sell5, buy3]" by (simp add: wire_order_def sell5_def buy3_def side_of_byte_def type_of_byte_def)
  from prices_typed [OF _ this r, of True] show ?thesis using r by (simp add: book0_def list_all_iff)
qed

end
