(* ===== verification/Market_Data.thy ===== *)
theory Market_Data
  imports Market_Maker Snapshot_Feed Price_Typing "HOL-Library.Sublist"
begin

text \<open>
  The two feeds at the level of bytes, from the publishing threads of \<^verbatim>\<open>src/main.cpp\<close> to the listeners of \<^verbatim>\<open>bots/market_maker.cpp\<close>: the 40 bytes of a
  \<^verbatim>\<open>TradeEvent\<close>, the 64 of a \<^verbatim>\<open>SnapshotHeader\<close> and the 24 of a \<^verbatim>\<open>SnapshotLevel\<close>, as the structures lie in memory on a little-endian machine,
  and what a listener does with a datagram. Padding and reserved bytes are zero.
\<close>

section \<open>The bytes\<close>

definition load_trade :: "8 word list \<Rightarrow> TradeEvent" where
  "load_trade bs =
     \<lparr>te_taker_id = of_nat (le_nat (take 8 bs)), te_maker_id = of_nat (le_nat (take 8 (drop 8 bs))),
      te_price = sint (of_nat (le_nat (take 8 (drop 16 bs))) :: 64 word), te_feed_seq = of_nat (le_nat (take 8 (drop 24 bs))),
      te_quantity = of_nat (le_nat (take 4 (drop 32 bs))), te_taker_side = side_of_byte (bs ! 36), te_status = bs ! 37\<rparr>"

definition store_trade :: "TradeEvent \<Rightarrow> 8 word list" where
  "store_trade t =
     le_bytes 8 (unat (te_taker_id t)) @ le_bytes 8 (unat (te_maker_id t)) @ le_bytes 8 (unat (of_int (te_price t) :: 64 word)) @
     le_bytes 8 (unat (te_feed_seq t)) @ le_bytes 4 (unat (te_quantity t)) @ [side_byte (te_taker_side t), te_status t, 0, 0]"

definition load_level :: "8 word list \<Rightarrow> SnapshotLevel" where
  "load_level bs =
     \<lparr>sl_price = sint (of_nat (le_nat (take 8 bs)) :: 64 word), sl_total_qty = of_nat (le_nat (take 8 (drop 8 bs))),
      sl_order_count = of_nat (le_nat (take 4 (drop 16 bs))), sl_side = bs ! 20\<rparr>"

definition store_level :: "SnapshotLevel \<Rightarrow> 8 word list" where
  "store_level l =
     le_bytes 8 (unat (of_int (sl_price l) :: 64 word)) @ le_bytes 8 (unat (sl_total_qty l)) @ le_bytes 4 (unat (sl_order_count l)) @ [sl_side l, 0, 0, 0]"

definition load_header :: "8 word list \<Rightarrow> SnapshotHeader" where
  "load_header bs =
     \<lparr>sh_magic = of_nat (le_nat (take 8 bs)), sh_version = of_nat (le_nat (take 4 (drop 8 bs))), sh_level_count = of_nat (le_nat (take 4 (drop 12 bs))),
      sh_feed_seq = of_nat (le_nat (take 8 (drop 16 bs))), sh_bid_levels = of_nat (le_nat (take 4 (drop 24 bs))),
      sh_ask_levels = of_nat (le_nat (take 4 (drop 28 bs))), sh_checksum = of_nat (le_nat (take 8 (drop 32 bs)))\<rparr>"

definition store_header :: "SnapshotHeader \<Rightarrow> 8 word list" where
  "store_header h =
     le_bytes 8 (unat (sh_magic h)) @ le_bytes 4 (unat (sh_version h)) @ le_bytes 4 (unat (sh_level_count h)) @ le_bytes 8 (unat (sh_feed_seq h)) @
     le_bytes 4 (unat (sh_bid_levels h)) @ le_bytes 4 (unat (sh_ask_levels h)) @ le_bytes 8 (unat (sh_checksum h)) @ replicate 24 0"

text \<open>What a chunk of events and a snapshot put on the wire; of the buffer, the header and the levels that it counts.\<close>

definition chunk_bytes :: "TradeEvent list \<Rightarrow> 8 word list" where
  "chunk_bytes ts = concat (map store_trade ts)"

definition buffer_bytes :: "SnapshotBuffer \<Rightarrow> 8 word list" where
  "buffer_bytes b = store_header (sb_header b) @ concat (map (\<lambda>i. store_level (sb_levels b i)) [0..<unat (sh_level_count (sb_header b))])"

section \<open>The listeners\<close>

text \<open>One datagram in \<^verbatim>\<open>trade_thread\<close> and in \<^verbatim>\<open>snapshot_thread\<close>; \<open>None\<close> is an error of \<^verbatim>\<open>recv\<close>.\<close>

definition trade_datagram :: "8 word list option \<Rightarrow> Bot \<Rightarrow> Bot" where
  "trade_datagram got b =
     (case got of
        None \<Rightarrow> b
      | Some buf \<Rightarrow>
          if buf = [] then b
          else fold (\<lambda>i b. on_trade (load_trade (take 40 (drop (i * 40) buf))) b) [0..<length buf div 40] b)"

definition snapshot_datagram :: "8 word list option \<Rightarrow> Bot \<Rightarrow> Bot" where
  "snapshot_datagram got b =
     (case got of
        None \<Rightarrow> b
      | Some buf \<Rightarrow>
          if length buf < 64 then b
          else on_snapshot (load_header (take 64 buf))
                 (map (\<lambda>i. load_level (take 24 (drop (64 + i * 24) buf))) [0..<(length buf - 64) div 24]) b)"

section \<open>Round trips\<close>

definition wire_trade :: "TradeEvent \<Rightarrow> bool" where
  "wire_trade t \<longleftrightarrow> typed_price (te_price t) \<and> side_of_byte (side_byte (te_taker_side t)) = te_taker_side t"

lemma store_lengths [simp]: "length (store_trade t) = 40" "length (store_level l) = 24" "length (store_header h) = 64"
  by (simp_all add: store_trade_def store_level_def store_header_def)

lemma load_store_trade: "wire_trade t \<Longrightarrow> load_trade (store_trade t) = t"
  using sint_of_int_range [of "te_price t"]
  by (simp add: wire_trade_def typed_price_def load_trade_def store_trade_def load_word nth_append)

lemma load_store_level: "typed_price (sl_price l) \<Longrightarrow> load_level (store_level l) = l"
  using sint_of_int_range [of "sl_price l"]
  by (simp add: typed_price_def load_level_def store_level_def load_word nth_append)

lemma load_store_header: "load_header (store_header h) = h"
  by (simp add: load_header_def store_header_def load_word)

text \<open>The parts of a list that was put together from parts of one length.\<close>

lemma concat_parts:
  assumes "\<And>x. x \<in> set xs \<Longrightarrow> length (f x) = k"
  shows "length (concat (map f xs)) = length xs * k" "i < length xs \<Longrightarrow> take k (drop (i * k) (concat (map f xs))) = f (xs ! i)"
proof -
  show "length (concat (map f xs)) = length xs * k" using assms by (induction xs) auto
  show "i < length xs \<Longrightarrow> take k (drop (i * k) (concat (map f xs))) = f (xs ! i)" using assms
  proof (induction xs arbitrary: i)
    case (Cons x xs)
    then show ?case by (cases i) auto
  qed simp
qed

text \<open>The events that a listener reads out of a datagram.\<close>

definition trades_of :: "8 word list \<Rightarrow> TradeEvent list" where
  "trades_of buf = map (\<lambda>i. load_trade (take 40 (drop (i * 40) buf))) [0..<length buf div 40]"

lemma trade_datagram_trades: "trade_datagram (Some buf) b = fold on_trade (trades_of buf) b"
  by (simp add: trade_datagram_def trades_of_def fold_map comp_def)

lemma trades_of_chunk:
  assumes "list_all wire_trade ts"
  shows "trades_of (chunk_bytes ts) = ts"
proof -
  have len: "length (chunk_bytes ts) = length ts * 40" unfolding chunk_bytes_def by (rule concat_parts(1)) simp
  have "load_trade (take 40 (drop (i * 40) (chunk_bytes ts))) = ts ! i" if "i < length ts" for i
  proof -
    have "take 40 (drop (i * 40) (chunk_bytes ts)) = store_trade (ts ! i)" unfolding chunk_bytes_def by (rule concat_parts(2)) (use that in simp_all)
    then show ?thesis using assms that by (simp add: load_store_trade list_all_length)
  qed
  then show ?thesis unfolding trades_of_def len by (intro nth_equalityI) simp_all
qed

section \<open>The trade feed\<close>

text \<open>The side of an event is that of an order that was submitted, or one of the two named sides.\<close>

lemma submit_event_sides:
  assumes "engine_ok b" "submit inc (b, log) = (r, b', log')" "t \<in> set log'"
  shows "t \<in> set log \<or> te_taker_side t \<in> {BUY, SELL, o_side inc}"
proof (cases "o_type inc = CANCEL")
  case True
  then have "log' = log" using assms(2) by (auto simp: submit_def split_beta)
  then show ?thesis using assms(3) by simp
next
  case nc: False
  show ?thesis
  proof (cases "is_admissible inc")
    case False
    then show ?thesis using submit_inadmissible_result [OF nc, of b log] assms(2,3) by (auto simp: reject_event_def)
  next
    case True
    from assms(1,2) nc True obtain fs where
      "log' = log @ map (fill_event inc (o_side inc = BUY)) fs @ (if rejected r then [reject_event inc] else [])" by (rule submit_matching)
    then show ?thesis using assms(3) by (auto simp: fill_event_def reject_event_def split: if_splits)
  qed
qed

lemma run_submits_sides:
  "engine_ok (fst st) \<Longrightarrow> list_all wire_order os \<Longrightarrow> t \<in> set (snd (run_submits os st)) \<Longrightarrow>
     t \<in> set (snd st) \<or> side_of_byte (side_byte (te_taker_side t)) = te_taker_side t"
proof (induction os arbitrary: st)
  case (Cons o' os)
  obtain b log r b' log' where s: "st = (b, log)" "submit o' (b, log) = (r, b', log')" by (metis prod_cases3 surj_pair)
  have ok': "engine_ok b'" using submit_engine [of b o' log] Cons.prems(1) s by simp
  have "t \<in> set log' \<or> side_of_byte (side_byte (te_taker_side t)) = te_taker_side t"
    using Cons.IH [of "(b', log')"] Cons.prems s ok' by simp
  moreover have "side_of_byte (side_byte (o_side o')) = o_side o'" using Cons.prems(2) by (simp add: wire_order_def)
  moreover have "side_of_byte (side_byte BUY) = BUY" "side_of_byte (side_byte SELL) = SELL" by (simp_all add: side_of_byte_def)
  ultimately show ?case using submit_event_sides [OF _ s(2), of t] Cons.prems(1) s(1) by auto
qed simp

lemma engine_wire_trades:
  assumes "max_nodes * 64 < 2 ^ 32" "list_all wire_order os" "run_submits os (book_init max_nodes ids lvls, []) = (b, log)"
  shows "list_all wire_trade log" "typed_state (b, log)"
proof -
  have "typed_state (book_init max_nodes ids lvls, [])"
    using book_init_engine [OF assms(1)] book_init_side [OF assms(1)] by (simp add: typed_state_def all_orders_def)
  moreover have "list_all (\<lambda>o'. typed_price (o_price o')) os" using assms(2) by (auto simp: list_all_iff wire_order_def typed_price_def)
  ultimately show t: "typed_state (b, log)" using run_submits_typed assms(3) by metis
  have "side_of_byte (side_byte (te_taker_side t)) = te_taker_side t" if "t \<in> set log" for t
    using run_submits_sides [of "(book_init max_nodes ids lvls, [])" os t] book_init_engine [OF assms(1)] assms(2,3) that by simp
  then show "list_all wire_trade log" using t by (auto simp: typed_state_def wire_trade_def list_all_iff)
qed

text \<open>
  What the client does with datagrams that were sent, whichever of them arrive, how often and in which order: datagrams of the feed can be lost, duplicated and
  reordered on the way, but arrive whole.
\<close>

lemma feed_datagrams:
  assumes "list_all (list_all wire_trade) ds" "set received \<subseteq> chunk_bytes ` set ds"
  shows "received = map chunk_bytes (map trades_of received)" "set (map trades_of received) \<subseteq> set ds"
    "fold (\<lambda>buf. trade_datagram (Some buf)) received b = fold on_trade (concat (map trades_of received)) b"
    "subseq received (map chunk_bytes ds) \<Longrightarrow> subseq (map trades_of received) ds"
proof -
  have inv: "trades_of (chunk_bytes d) = d" if "d \<in> set ds" for d using assms(1) that by (intro trades_of_chunk) (auto simp: list_all_iff)
  show "set (map trades_of received) \<subseteq> set ds" using assms(2) inv by force
  have "chunk_bytes (trades_of x) = x" if "x \<in> set received" for x using assms(2) inv that by force
  then show "received = map chunk_bytes (map trades_of received)" by (simp add: map_idI)
  show "fold (\<lambda>buf. trade_datagram (Some buf)) received b = fold on_trade (concat (map trades_of received)) b"
    by (induction received arbitrary: b) (simp_all add: trade_datagram_trades)
  show "subseq (map trades_of received) ds" if "subseq received (map chunk_bytes ds)"
  proof -
    have "map trades_of (map chunk_bytes ds) = ds" using inv by (simp add: map_idI)
    then show ?thesis using subseq_map [OF that, of trades_of] by simp
  qed
qed

lemma subseq_concat: "subseq xs ys \<Longrightarrow> subseq (concat xs) (concat ys)"
  by (induction rule: list_emb.induct) (auto simp: subseq_append' intro: list_emb_append2)

lemma accepted_subset: "set (accepted cs script) \<subseteq> set cs"
  by (auto simp: accepted_def dest: set_zip_leftD)

lemma accepted_subseq: "subseq (concat (accepted cs script)) (concat cs)"
proof (induction cs arbitrary: script)
  case (Cons c cs)
  show ?case
  proof (cases script)
    case (Cons s rest)
    then show ?thesis using Cons.IH [of rest] by (auto intro: list_emb_append2 simp: subseq_append')
  qed (simp add: accepted_def)
qed simp

lemma nothing_refused:
  assumes "length (chunks batch) \<le> length ans" "length batch < 2 ^ 64" "of_nat (length (concat (refused (chunks batch) ans))) = (0 :: 64 word)"
  shows "concat (accepted (chunks batch) ans) = batch"
proof -
  let ?r = "concat (refused (chunks batch) ans)" and ?a = "concat (accepted (chunks batch) ans)"
  have ar: "length ?a + length ?r = length batch" using accepted_refused [OF assms(1)] by (simp add: chunks_partition)
  then have "length ?r < 2 ^ 64" using assms(2) by linarith
  moreover have "2 ^ 64 dvd length ?r" using assms(3) by (simp only: word_of_nat_eq_0_iff) simp
  ultimately have "length ?r = 0" using dvd_imp_le by fastforce
  then have "length ?a = length batch" using ar by linarith
  moreover have "subseq ?a batch" using accepted_subseq [of "chunks batch" ans] by (simp add: chunks_partition)
  ultimately show ?thesis using subseq_same_length by blast
qed

text \<open>
  C16. From the engine to the client, over a channel that may lose, duplicate and reorder datagrams. Whatever orders are submitted, as long as they came in as bytes, publishing a batch of the events of the engine ends. Let then any
  datagrams be received, each of them one that the kernel took. The client handles exactly the events of these datagrams, with every field intact, in the order of reception. If the channel does not
  duplicate or reorder, these events are a part of the batch in the order in which the engine made them; if it loses nothing
  either and the kernel refused no datagram, they are the batch.
\<close>

theorem trade_feed_delivers:
  assumes "max_nodes * 64 < 2 ^ 32" "list_all wire_order os" "run_submits os (book_init max_nodes ids lvls, []) = (bk, log)"
    "set batch \<subseteq> set log" "length (chunks batch) \<le> length (decisive script)" "length batch < 2 ^ 64"
  shows "\<exists>rest u' ds. udp_publish script batch u = Some (rest, u') \<and> up_wire u' = up_wire u @ ds \<and>
    (\<forall>received b. set received \<subseteq> chunk_bytes ` set ds \<longrightarrow>
      (\<exists>es. received = map chunk_bytes es \<and> set es \<subseteq> set ds \<and>
        fold (\<lambda>buf. trade_datagram (Some buf)) received b = fold on_trade (concat es) b \<and>
        (subseq received (map chunk_bytes ds) \<longrightarrow> subseq (concat es) batch) \<and>
        (received = map chunk_bytes ds \<and> up_dropped u' = up_dropped u \<longrightarrow> concat es = batch)))"
proof -
  let ?cs = "chunks batch" and ?d = "decisive script"
  let ?ds = "accepted ?cs ?d"
  let ?u = "u\<lparr>up_sent := up_sent u + of_nat (length (concat ?ds)), up_dropped := up_dropped u + of_nat (length (concat (refused ?cs ?d))),
       up_datagrams := up_datagrams u + of_nat (length ?ds), up_drops := up_drops u + of_nat (length (refused ?cs ?d)), up_wire := up_wire u @ ?ds\<rparr>"
  obtain rest where p: "udp_publish script batch u = Some (rest, ?u)"
    using udp_publish_loop_spec [of 0 batch script u] assms(5) by (auto simp: udp_publish_def)
  have "\<forall>t \<in> set (concat ?cs). wire_trade t"
    using engine_wire_trades(1) [OF assms(1-3)] assms(4) by (auto simp: chunks_partition list_all_iff simp del: set_concat)
  then have w: "list_all (list_all wire_trade) ?ds" using accepted_subset [of ?cs ?d] by (auto simp: list_all_iff)
  have sub: "subseq (concat ?ds) batch" using accepted_subseq [of ?cs ?d] by (simp add: chunks_partition)
  have "\<exists>es. received = map chunk_bytes es \<and> set es \<subseteq> set ?ds \<and>
      fold (\<lambda>buf. trade_datagram (Some buf)) received b = fold on_trade (concat es) b \<and>
      (subseq received (map chunk_bytes ?ds) \<longrightarrow> subseq (concat es) batch) \<and>
      (received = map chunk_bytes ?ds \<and> up_dropped ?u = up_dropped u \<longrightarrow> concat es = batch)"
    if r: "set received \<subseteq> chunk_bytes ` set ?ds" for received b
  proof (intro exI conjI impI)
    note f = feed_datagrams [OF w r]
    show "received = map chunk_bytes (map trades_of received)" "set (map trades_of received) \<subseteq> set ?ds"
      "fold (\<lambda>buf. trade_datagram (Some buf)) received b = fold on_trade (concat (map trades_of received)) b" by (rule f)+
    show sq: "subseq (concat (map trades_of received)) batch" if "subseq received (map chunk_bytes ?ds)"
      using subseq_concat [OF f(4) [OF that]] sub by (rule subseq_order.trans)
    assume a: "received = map chunk_bytes ?ds \<and> up_dropped ?u = up_dropped u"
    have "of_nat (length (concat (refused ?cs ?d))) = (0 :: 64 word)" using a by simp
    then have "concat ?ds = batch" by (rule nothing_refused [OF assms(5,6)])
    moreover have "map trades_of received = ?ds"
      using a w trades_of_chunk by (auto simp: list_all_iff intro!: map_idI)
    ultimately show "concat (map trades_of received) = batch" by simp
  qed
  moreover have "up_wire ?u = up_wire u @ ?ds" by simp
  ultimately show ?thesis using p by blast
qed

theorem trade_feed_delivers_witness:
  "let u = \<lparr>up_sent = 0, up_dropped = 0, up_datagrams = 0, up_drops = 0, up_wire = []\<rparr>; log = snd (run_submits [sell5, buy3] (book0, [])) in
   \<exists>rest u' es. udp_publish [Failed_EINTR, Returned 40] (take 1 log) u = Some (rest, u') \<and> map chunk_bytes (up_wire u') = map chunk_bytes es \<and>
     fold (\<lambda>buf. trade_datagram (Some buf)) (map chunk_bytes (up_wire u')) Bot_init = fold on_trade (concat es) Bot_init"
proof -
  let ?u = "\<lparr>up_sent = 0, up_dropped = 0, up_datagrams = 0, up_drops = 0, up_wire = []\<rparr> :: TradeEvent list UdpPublisher"
  obtain bk log where r: "run_submits [sell5, buy3] (book_init 4 32 8, []) = (bk, log)" by force
  have w: "list_all wire_order [sell5, buy3]" by (simp add: wire_order_def sell5_def buy3_def side_of_byte_def type_of_byte_def)
  have "length (chunks (take 1 log)) \<le> 1" by (cases log) (simp_all add: chunks_nonempty)
  then have c: "length (chunks (take 1 log)) \<le> length (decisive [Failed_EINTR, Returned 40])" by (simp add: decisive_def)
  have n: "length (take 1 log) < 2 ^ 64" by (cases log) simp_all
  show ?thesis using trade_feed_delivers [OF _ w r set_take_subset c n, of ?u]
  proof (elim meta_impE exE conjE, goal_cases)
    case (2 rest u' ds)
    have "set (map chunk_bytes ds) \<subseteq> chunk_bytes ` set ds" by simp
    with 2(3) obtain es where "map chunk_bytes ds = map chunk_bytes es"
      "fold (\<lambda>buf. trade_datagram (Some buf)) (map chunk_bytes ds) Bot_init = fold on_trade (concat es) Bot_init" by blast
    then show ?case using r 2(1,2) by (auto simp: book0_def Let_def)
  qed simp
qed

section \<open>The snapshot feed\<close>

lemma level_price_typed:
  assumes "typed_state (b, log)" "l \<in> set (book_levels s b)"
  shows "typed_price (lvl_price l)"
proof -
  have iv: "book_inv b" using assms(1) by (simp add: typed_state_def engine_ok_def)
  have "level_triple l \<in> set (map queue_triple (book_side b s))" using assms(2) book_levels_exact [OF iv, of s] by (metis image_eqI set_map)
  then obtain p q where pq: "(p, q) \<in> set (book_side b s)" "lvl_price l = p" by (auto simp: level_triple_def queue_triple_def)
  have "q \<noteq> []" using book.levels_nonempty [OF iv, of s] pq(1) by auto
  then have h: "hd q \<in> set q" by simp
  then have "hd q \<in> set (all_orders (book_side b s))" using pq(1) by (force simp: all_orders_def)
  then have "is_valid_price (o_price (hd q))" using assms(1) by (auto simp: typed_state_def)
  then show ?thesis using book_order_price [OF iv pq(1) h] pq(2) typed_valid by simp
qed

lemma snapshot_datagram_buffer:
  assumes "\<And>i. i < unat (sh_level_count (sb_header s)) \<Longrightarrow> typed_price (sl_price (sb_levels s i))"
  shows "snapshot_datagram (Some (buffer_bytes s)) b = on_snapshot (sb_header s) (map (sb_levels s) [0..<unat (sh_level_count (sb_header s))]) b"
proof -
  let ?n = "unat (sh_level_count (sb_header s))" and ?f = "\<lambda>i. store_level (sb_levels s i)"
  let ?c = "concat (map ?f [0..<?n])"
  have len: "length ?c = ?n * 24" using concat_parts(1) [of "[0..<?n]" ?f 24] by simp
  have "take 24 (drop (i * 24) ?c) = ?f i" if "i < ?n" for i using concat_parts(2) [of "[0..<?n]" ?f 24 i] that by simp
  then have "load_level (take 24 (drop (64 + i * 24) (buffer_bytes s))) = sb_levels s i" if "i < ?n" for i
    using assms that by (simp add: buffer_bytes_def load_store_level)
  then have m: "map (\<lambda>i. load_level (take 24 (drop (64 + i * 24) (buffer_bytes s)))) [0..<?n] = map (sb_levels s) [0..<?n]" by simp
  have "length (buffer_bytes s) = 64 + ?n * 24" "take 64 (buffer_bytes s) = store_header (sb_header s)"
    using len by (simp_all add: buffer_bytes_def)
  then show ?thesis by (simp add: snapshot_datagram_def load_store_header m del: map_eq_conv)
qed

text \<open>What the client makes of a datagram with at least one level on each side, or without.\<close>

lemma on_snapshot_levels:
  assumes "sh_magic h = SNAPSHOT_MAGIC" "sh_level_count h = of_nat (length bs + length as)" "sh_bid_levels h = of_nat (length bs)"
    "sh_ask_levels h = of_nat (length as)" "length bs + length as < 2 ^ 32"
  shows "on_snapshot h (bs @ as) b = (if bs \<noteq> [] \<and> as \<noteq> []
    then b\<lparr>g_best_bid := sl_price (hd bs), g_best_ask := sl_price (hd as), g_have_mid := True\<rparr> else b)"
proof -
  have un: "unat (sh_level_count h) = length bs + length as" "unat (sh_bid_levels h) = length bs" "unat (sh_ask_levels h) = length as"
    using assms(2-5) by (simp_all add: unat_of_nat take_bit_nat_eq_self flip: of_nat_add)
  then have "sh_bid_levels h > 0 \<longleftrightarrow> bs \<noteq> []" "sh_ask_levels h > 0 \<longleftrightarrow> as \<noteq> []" by (auto simp: word_less_nat_alt)
  then show ?thesis using assms(1) un by (auto simp: on_snapshot_def Let_def nth_append hd_conv_nth)
qed

lemma half_between: "p \<le> a \<Longrightarrow> p \<le> half (p + a) \<and> half (p + a) \<le> a"
  by (auto simp: half_def)

lemma snapshot_datagram_book:
  assumes "typed_state (bk, log)"
  defines "lb \<equiv> book_levels True bk" and "la \<equiv> book_levels False bk"
  shows "snapshot_datagram (Some (buffer_bytes (serialize_l2 56 bk q buf))) b =
    (if lb \<noteq> [] \<and> la \<noteq> [] then b\<lparr>g_best_bid := lvl_price (hd lb), g_best_ask := lvl_price (hd la), g_have_mid := True\<rparr> else b)"
proof -
  let ?s = "serialize_l2 56 bk q buf"
  have "book_inv bk" using assms(1) by (simp add: typed_state_def engine_ok_def)
  then obtain L where L: "book_ok bk L" by (rule book_invE)
  define bs where "bs = take (56 div 2) (book_levels True bk)"
  define as where "as = take (56 div 2) (book_levels False bk)"
  have small: "(56 :: nat) < 2 ^ 32" by simp
  have h: "sh_magic (sb_header ?s) = SNAPSHOT_MAGIC" "sh_level_count (sb_header ?s) = of_nat (length bs + length as)"
    "sh_bid_levels (sb_header ?s) = of_nat (length bs)" "sh_ask_levels (sb_header ?s) = of_nat (length as)"
    and lv: "sb_levels ?s = (\<lambda>i. if length bs \<le> i \<and> i < length bs + length as then snapshot_level 1 (as ! (i - length bs))
      else if i < length bs then snapshot_level 0 (bs ! i) else sb_levels buf i)"
    unfolding serialize_l2_eq [OF L, of 56, OF small] bs_def [symmetric] as_def [symmetric] by simp_all
  have n: "unat (sh_level_count (sb_header ?s)) = length bs + length as"
    unfolding h by (rule level_count_words [of 56]) (simp_all add: bs_def as_def)
  have ls: "map (sb_levels ?s) [0..<length bs + length as] = map (snapshot_level 0) bs @ map (snapshot_level 1) as"
    by (rule nth_equalityI) (auto simp: lv nth_append)
  have "typed_price (sl_price (sb_levels ?s i))" if "i < length bs + length as" for i
  proof -
    have "sb_levels ?s i \<in> set (map (snapshot_level 0) bs @ map (snapshot_level 1) as)" using that ls by (metis atLeastLessThan_iff image_eqI list.set_map set_upt zero_le)
    moreover have "set bs \<subseteq> set lb" "set as \<subseteq> set la" by (simp_all add: bs_def as_def lb_def la_def set_take_subset)
    ultimately show ?thesis using level_price_typed [OF assms(1)] by (auto simp: snapshot_level_def lb_def la_def)
  qed
  then have "snapshot_datagram (Some (buffer_bytes ?s)) b = on_snapshot (sb_header ?s) (map (snapshot_level 0) bs @ map (snapshot_level 1) as) b"
    using snapshot_datagram_buffer [of ?s b] n ls by simp
  moreover have "length bs + length as < 2 ^ 32" by (simp add: bs_def as_def)
  ultimately show ?thesis using on_snapshot_levels [of "sb_header ?s" "map (snapshot_level 0) bs" "map (snapshot_level 1) as" b] h
    by (auto simp: bs_def as_def lb_def la_def hd_map snapshot_level_def)
qed

text \<open>
  C19. From the book to the client: a snapshot of any book that the engine can reach fits the datagram that the sending thread computes the size of, and a market maker that receives these bytes
  takes the best bid and the best ask of that book as its prices, so that its middle price lies between them; a snapshot of a book with an
  empty side changes nothing.
\<close>

theorem snapshot_feed_mid:
  assumes "max_nodes * 64 < 2 ^ 32" "list_all wire_order os" "run_submits os (book_init max_nodes ids lvls, []) = (bk, log)"
    "s = serialize_l2 56 bk q buf" "b' = snapshot_datagram (Some (buffer_bytes s)) b"
  shows "length (buffer_bytes s) = snapshot_bytes s \<and> snapshot_bytes s \<le> MAX_DGRAM_BYTES \<and>
    (case (book_side bk True, book_side bk False) of
       ((p, _) # _, (a, _) # _) \<Rightarrow> b' = b\<lparr>g_best_bid := p, g_best_ask := a, g_have_mid := True\<rparr> \<and> p \<le> effective_mid b' \<and> effective_mid b' \<le> a
     | _ \<Rightarrow> b' = b)"
proof -
  have t: "typed_state (bk, log)" by (rule engine_wire_trades(2) [OF assms(1-3)])
  have iv: "book_inv bk" and un: "uncrossed (book_side bk)" using t by (simp_all add: typed_state_def engine_ok_def)
  have ex: "map level_triple (book_levels d bk) = map queue_triple (book_side bk d)" for d by (rule book_levels_exact [OF iv])
  have bt: "b' = (if book_levels True bk \<noteq> [] \<and> book_levels False bk \<noteq> []
      then b\<lparr>g_best_bid := lvl_price (hd (book_levels True bk)), g_best_ask := lvl_price (hd (book_levels False bk)), g_have_mid := True\<rparr> else b)"
    unfolding assms(4,5) by (rule snapshot_datagram_book [OF t])
  have top: "book_levels d bk \<noteq> [] \<and> lvl_price (hd (book_levels d bk)) = p" if "book_side bk d = (p, w) # xs" for d p w xs
    using ex [of d] that by (cases "book_levels d bk") (auto simp: level_triple_def queue_triple_def)
  have emp: "book_levels d bk = []" if "book_side bk d = []" for d using ex [of d] that by simp
  have "length (buffer_bytes s) = snapshot_bytes s"
    using concat_parts(1) [of "[0..<unat (sh_level_count (sb_header s))]" "\<lambda>i. store_level (sb_levels s i)" 24] by (simp add: buffer_bytes_def snapshot_bytes_def)
  moreover have "snapshot_bytes s \<le> MAX_DGRAM_BYTES" unfolding assms(4) by (rule snapshot_fits [OF iv])
  ultimately have sz: "length (buffer_bytes s) = snapshot_bytes s \<and> snapshot_bytes s \<le> MAX_DGRAM_BYTES" ..
  have both: "b' = b\<lparr>g_best_bid := p, g_best_ask := a, g_have_mid := True\<rparr> \<and> p \<le> effective_mid b' \<and> effective_mid b' \<le> a"
    if "book_side bk True = (p, w) # xs" "book_side bk False = (a, z) # ys" for p w xs a z ys
  proof -
    have b': "b' = b\<lparr>g_best_bid := p, g_best_ask := a, g_have_mid := True\<rparr>" using bt top [OF that(1)] top [OF that(2)] by simp
    have "p < a" using uncrossedD [OF un, of p a] that by simp
    then show ?thesis using b' half_between [of p a] by (simp add: effective_mid_def)
  qed
  show ?thesis
  proof (cases "book_side bk True = [] \<or> book_side bk False = []")
    case True
    then have "b' = b" using bt emp by auto
    then show ?thesis using sz True by (auto split: list.splits)
  next
    case False
    then obtain p w xs a z ys where e: "book_side bk True = (p, w) # xs" "book_side bk False = (a, z) # ys" by (metis neq_Nil_conv surj_pair)
    then show ?thesis using sz both [OF e] unfolding e prod.case list.case by blast
  qed
qed

theorem snapshot_feed_mid_witness:
  "\<forall>buf. let bk = fst (run_submits [sell5, low_bid] (book0, [])); b' = snapshot_datagram (Some (buffer_bytes (serialize_l2 56 bk 7 buf))) Bot_init in
     case (book_side bk True, book_side bk False) of
       ((p, _) # _, (a, _) # _) \<Rightarrow> g_best_bid b' = p \<and> g_best_ask b' = a | _ \<Rightarrow> b' = Bot_init"
proof -
  obtain bk log where r: "run_submits [sell5, low_bid] (book_init 4 32 8, []) = (bk, log)" by force
  have w: "list_all wire_order [sell5, low_bid]" by (simp add: wire_order_def sell5_def buy3_def low_bid_def side_of_byte_def type_of_byte_def)
  show ?thesis using snapshot_feed_mid [OF _ w r refl refl, of 7 _ Bot_init] r by (auto simp: book0_def Let_def split: list.splits prod.splits)
qed

end
