(* ===== verification/Bot_Loop.thy ===== *)
theory Bot_Loop
  imports Market_Data
begin

text \<open>
  The loops of \<^verbatim>\<open>bots/market_maker.cpp\<close> around its handlers: the sockets that it opens, the two listening threads, and the pass of \<^verbatim>\<open>main\<close>
  with its connection and its telemetry. The answers of the system calls and the readings of the clock are arguments; the waiting between passes is left out.
\<close>

section \<open>Sockets\<close>

record mcast_env =
  me_socket :: bool
  me_bind :: bool
  me_membership :: bool

text \<open>The first component says whether the function has closed the socket, the second whether it returns it.\<close>

definition mcast_rx :: "mcast_env \<Rightarrow> bool \<times> bool" where
  "mcast_rx env =
     (if \<not> me_socket env then (False, False)
      else if \<not> me_bind env then (True, False)
      else if \<not> me_membership env then (True, False)
      else (False, True))"

definition tcp_connect :: "bool \<Rightarrow> bool \<Rightarrow> bool \<times> bool" where
  "tcp_connect socket connect = (if \<not> socket then (False, False) else if \<not> connect then (True, False) else (False, True))"

section \<open>Listening threads\<close>

text \<open>One pass of each loop. The first component says whether the thread has its socket.\<close>

definition snapshot_listen :: "mcast_env \<Rightarrow> 8 word list option \<Rightarrow> bool \<times> Bot \<Rightarrow> bool \<times> Bot" where
  "snapshot_listen env got = (\<lambda>(fd, b).
     let fd = (if \<not> fd then snd (mcast_rx env) else fd)
     in if \<not> fd then (fd, b) else (fd, snapshot_datagram got b))"

definition trade_listen :: "mcast_env \<Rightarrow> 8 word list option \<Rightarrow> bool \<times> Bot \<Rightarrow> bool \<times> Bot" where
  "trade_listen env got = (\<lambda>(fd, b).
     let fd = (if \<not> fd then snd (mcast_rx env) else fd)
     in if \<not> fd then (fd, b) else (fd, trade_datagram got b))"

section \<open>Telemetry\<close>

definition digit :: "nat \<Rightarrow> char" where
  "digit d = char_of (48 + d)"

fun show_nat :: "nat \<Rightarrow> string" where
  "show_nat n = (if n < 10 then [digit n] else show_nat (n div 10) @ [digit (n mod 10)])"

declare show_nat.simps [simp del]

definition show_int :: "int \<Rightarrow> string" where
  "show_int i = (if i < 0 then CHR 0x2D # show_nat (nat (- i)) else show_nat (nat i))"

text \<open>The line that \<^verbatim>\<open>snprintf\<close> makes. The value is a whole number, so that its two decimals are zeros.\<close>

definition telemetry_line :: "int \<Rightarrow> int \<Rightarrow> string \<Rightarrow> string" where
  \<open>telemetry_line pnl pos status =
     ''{"bot_id":"MM_TITAN","pnl":'' @ show_int pnl @ ''.00,"inventory":'' @ show_int pos @ '',"status":"'' @ status @ ''"}'' @ [CHR 0x0A]\<close>

text \<open>The connection to the user interface, the lines that went out on it, and the local \<^verbatim>\<open>last_tele\<close> of \<^verbatim>\<open>main\<close>.\<close>

record ui_link =
  ui_connected :: bool
  ui_lines :: "string list"
  ui_last_tele :: "64 word"

definition send_telemetry :: "bool \<Rightarrow> (string \<Rightarrow> bool) \<Rightarrow> int \<Rightarrow> int \<Rightarrow> string \<Rightarrow> ui_link \<Rightarrow> ui_link" where
  "send_telemetry up ok pnl pos status u =
     (let u = (if \<not> ui_connected u then u\<lparr>ui_connected := up\<rparr> else u) in
      if \<not> ui_connected u then u
      else
        let line = telemetry_line pnl pos status in
        if \<not> ok line then u\<lparr>ui_connected := False\<rparr> else u\<lparr>ui_lines := ui_lines u @ [line]\<rparr>)"

definition bot_pnl :: "Bot \<Rightarrow> int" where
  "bot_pnl b = g_cash b + g_inventory b * effective_mid b"

definition bot_status :: "Bot \<Rightarrow> string" where
  "bot_status b = (if g_have_mid b then [] else ''PRIMING:'') @
     (if halted b then ''HALTED'' else if inventory_skew (g_inventory b) \<noteq> 0 then ''SKEWING'' else ''QUOTING'')"

section \<open>The pass of the main loop\<close>

text \<open>Its connection attempts, what goes out on each connection, and its readings of the clock: for the requote, for the telemetry, after it.\<close>

record pass_env =
  pe_gateway_up :: bool
  pe_gateway_ok :: "Order \<Rightarrow> bool"
  pe_ui_up :: bool
  pe_ui_ok :: "string \<Rightarrow> bool"
  pe_quote_ms :: "64 word"
  pe_tele_ms :: "64 word"
  pe_done_ms :: "64 word"

definition tele_due :: "pass_env \<Rightarrow> ui_link \<Rightarrow> bool" where
  "tele_due env u \<longleftrightarrow> pe_tele_ms env - ui_last_tele u > 400"

definition report :: "pass_env \<Rightarrow> int \<Rightarrow> int \<Rightarrow> string \<Rightarrow> ui_link \<Rightarrow> ui_link" where
  "report env pnl pos status u =
     (if tele_due env u then (send_telemetry (pe_ui_up env) (pe_ui_ok env) pnl pos status u)\<lparr>ui_last_tele := pe_done_ms env\<rparr> else u)"

definition bot_pass :: "pass_env \<Rightarrow> Bot \<times> ui_link \<Rightarrow> Bot \<times> ui_link" where
  "bot_pass env = (\<lambda>(b, u).
     if \<not> bt_connected b \<and> \<not> pe_gateway_up env then (b, report env 0 0 ''NO-GATEWAY'' u)
     else
       let b' = bot_cycle (pe_gateway_up env) (pe_gateway_ok env) (pe_quote_ms env) b in
       if \<not> bt_connected b' then (b', u)
       else (b', report env (bot_pnl b) (g_inventory b) (bot_status b) u))"

section \<open>Sizes\<close>

lemma show_nat_length: "n < 10 ^ Suc k \<Longrightarrow> length (show_nat n) \<le> Suc k"
proof (induction k arbitrary: n)
  case 0
  then show ?case by (simp add: show_nat.simps)
next
  case (Suc k)
  have "n div 10 < 10 ^ Suc k" using Suc.prems by (simp add: less_mult_imp_div_less mult.commute)
  then show ?case using Suc.IH [of "n div 10"] by (subst show_nat.simps) simp
qed

lemma show_int_length: "\<bar>i\<bar> < 10 ^ Suc k \<Longrightarrow> length (show_int i) \<le> Suc (Suc k)"
proof -
  assume a: "\<bar>i\<bar> < 10 ^ Suc k"
  have "nat \<bar>i\<bar> < 10 ^ Suc k" using a by (simp add: nat_less_iff)
  then have "length (show_nat (nat \<bar>i\<bar>)) \<le> Suc k" by (rule show_nat_length)
  then show ?thesis by (cases "i < 0") (simp_all add: show_int_def abs_if le_SucI)
qed

text \<open>The buffer of 256 bytes is large enough, so that \<^verbatim>\<open>send_all\<close>, which is given the length that the line would have, does not read beyond it.\<close>

lemma telemetry_fits:
  assumes "\<bar>pnl\<bar> < 10 ^ 20" "\<bar>pos\<bar> < 10 ^ 20" "length status < 48"
  shows "length (telemetry_line pnl pos status) < 256"
proof -
  have "length (show_int pnl) \<le> Suc (Suc 19)" "length (show_int pos) \<le> Suc (Suc 19)"
    by (rule show_int_length; use assms in simp)+
  then show ?thesis using assms(3) by (simp add: telemetry_line_def)
qed

lemma bot_status_length: "length (bot_status b) < 48"
  by (simp add: bot_status_def)

lemma report_lines:
  assumes "\<bar>pnl\<bar> < 10 ^ 20" "\<bar>pos\<bar> < 10 ^ 20" "length status < 48" "list_all (\<lambda>l. length l < 256) (ui_lines u)"
  shows "list_all (\<lambda>l. length l < 256) (ui_lines (report env pnl pos status u))"
  using assms(4) telemetry_fits [OF assms(1-3)] by (simp add: report_def send_telemetry_def Let_def)

text \<open>
  Telemetry never overruns its buffer, over any pass, while the value of the position is below \<open>10 ^ 20\<close>.
\<close>

lemma bot_pass_lines:
  assumes "\<bar>bot_pnl b\<bar> < 10 ^ 20" "\<bar>g_inventory b\<bar> < 10 ^ 20" "list_all (\<lambda>l. length l < 256) (ui_lines u)"
  shows "list_all (\<lambda>l. length l < 256) (ui_lines (snd (bot_pass env (b, u))))"
  using report_lines [OF assms(1,2) bot_status_length assms(3)] report_lines [of 0 0 "''NO-GATEWAY''", OF _ _ _ assms(3)] assms(3)
  by (simp add: bot_pass_def Let_def)

text \<open>A listener that has no socket changes nothing, and a failed attempt leaves none open.\<close>

lemma mcast_rx_closes: "fst (mcast_rx env) \<longleftrightarrow> me_socket env \<and> \<not> snd (mcast_rx env)"
  by (simp add: mcast_rx_def)

lemma listen_without_socket: "\<not> snd (mcast_rx env) \<Longrightarrow> snapshot_listen env got (False, b) = (False, b) \<and> trade_listen env got (False, b) = (False, b)"
  by (simp add: snapshot_listen_def trade_listen_def)

end
