(* ===== verification/Server_Startup.thy ===== *)
theory Server_Startup
  imports Tcp_Gateway "HOL-Library.While_Combinator"
begin

text \<open>
  The start of the server in \<^verbatim>\<open>src/main.cpp\<close>, its signal handler, and the part of the gateway that they use: the event descriptor that wakes the event loop,
  \<^verbatim>\<open>stop\<close>, \<^verbatim>\<open>drain_stop\<close> and the destructor of \<^verbatim>\<open>net/tcp_gateway.hpp\<close>.
\<close>

section \<open>The event descriptor\<close>

text \<open>
  An \<^verbatim>\<open>eventfd\<close> is a 64-bit counter. A non-blocking write of one fails when it would reach the largest number; a read fails when the counter
  is zero and clears it otherwise. The level-triggered event loop reports the descriptor while the counter is not zero.
\<close>

definition eventfd_write :: "64 word \<Rightarrow> bool \<times> 64 word" where
  "eventfd_write c = (if c \<ge> - 2 then (False, c) else (True, c + 1))"

definition eventfd_read :: "64 word \<Rightarrow> bool \<times> 64 word" where
  "eventfd_read c = (if c = 0 then (False, 0) else (True, 0))"

definition eventfd_ready :: "64 word \<Rightarrow> bool" where
  "eventfd_ready c \<longleftrightarrow> c \<noteq> 0"

text \<open>A gateway with the counter of its event descriptor.\<close>

record gateway_proc =
  gp_port :: "16 word"
  gp_gateway :: Gateway
  gp_stop :: "64 word"

definition gw_stop :: "gateway_proc \<Rightarrow> gateway_proc" where
  "gw_stop g = g\<lparr>gp_stop := snd (eventfd_write (gp_stop g))\<rparr>"

definition drain_stop :: "gateway_proc \<Rightarrow> gateway_proc" where
  "drain_stop g = g\<lparr>gp_stop := snd (while fst (\<lambda>(_, c). eventfd_read c) (eventfd_read (gp_stop g)))\<rparr>"

text \<open>The destructor: the connections, then the three descriptors of the gateway.\<close>

definition gateway_destroy :: "gateway_proc \<Rightarrow> int set \<times> gw_fd list" where
  "gateway_destroy g = (dom (gw_conns (gp_gateway g)), [STOP_FD, EPOLL_FD, LISTEN_FD])"

section \<open>Arguments\<close>

definition MAX_GATEWAYS :: nat where
  "MAX_GATEWAYS = 16"

definition DEFAULT_PORT :: "16 word" where
  "DEFAULT_PORT = 9001"

definition digit_value :: "char \<Rightarrow> int" where
  "digit_value c = of_char c - 48"

definition is_digit :: "char \<Rightarrow> bool" where
  "is_digit c \<longleftrightarrow> 0 \<le> digit_value c \<and> digit_value c \<le> 9"

definition is_space :: "char \<Rightarrow> bool" where
  "is_space c \<longleftrightarrow> (of_char c :: nat) \<in> {9, 10, 11, 12, 13, 32}"

definition decimal :: "string \<Rightarrow> int" where
  "decimal ds = foldl (\<lambda>v c. 10 * v + digit_value c) 0 ds"

text \<open>
  \<^verbatim>\<open>atoi\<close>: white space, a sign, the digits up to the first other character. The result for a number that does not fit an \<^verbatim>\<open>int\<close> is undefined in C; here it is \<open>over\<close>.
\<close>

definition atoi :: "(string \<Rightarrow> int) \<Rightarrow> string \<Rightarrow> int" where
  "atoi over s =
     (let t = dropWhile is_space s;
          neg = (t \<noteq> [] \<and> hd t = CHR 0x2D);
          t = (if t \<noteq> [] \<and> (hd t = CHR 0x2D \<or> hd t = CHR 0x2B) then tl t else t);
          v = decimal (takeWhile is_digit t);
          v = (if neg then - v else v)
      in if - (2 ^ 31) \<le> v \<and> v < 2 ^ 31 then v else over s)"

fun parse_ports :: "(string \<Rightarrow> int) \<Rightarrow> string list \<Rightarrow> 16 word list \<Rightarrow> 16 word list" where
  "parse_ports over [] ports = ports"
| "parse_ports over (arg # args) ports =
     (if length ports < MAX_GATEWAYS then
        let p = atoi over arg
        in parse_ports over args (if p > 0 \<and> p \<le> 65535 then ports @ [of_int p] else ports)
      else ports)"

definition server_ports :: "(string \<Rightarrow> int) \<Rightarrow> string list \<Rightarrow> 16 word list" where
  "server_ports over args = (let ports = parse_ports over args [] in if ports = [] then [DEFAULT_PORT] else ports)"

section \<open>Construction and signals\<close>

text \<open>
  The globals \<^verbatim>\<open>g_gateways\<close> (an array of pointers, here the positions in the vector), \<^verbatim>\<open>g_gateway_count\<close> and \<^verbatim>\<open>g_shutdown\<close>, and the vector of gateways.
\<close>

record Server =
  sv_gateways :: "gateway_proc list"
  g_gateways :: "nat \<Rightarrow> nat option"
  g_gateway_count :: nat
  g_shutdown :: bool

definition Server_init :: Server where
  "Server_init = \<lparr>sv_gateways = [], g_gateways = (\<lambda>_. None), g_gateway_count = 0, g_shutdown = False\<rparr>"

text \<open>
  The loop of \<^verbatim>\<open>main\<close> that constructs the gateways; \<open>env\<close> gives the answers of the system calls for the gateway of each position. A failure leaves through the handler
  of \<^verbatim>\<open>main\<close>, with the error, what the failed constructor has closed, and what the destructors of the finished gateways close.
\<close>

fun build_gateways :: "(nat \<Rightarrow> gw_env) \<Rightarrow> 16 word list \<Rightarrow> Server \<Rightarrow> (gw_error \<times> gw_fd list \<times> (int set \<times> gw_fd list) list) + Server" where
  "build_gateways env [] s = Inr s"
| "build_gateways env (p # ports) s =
     (case gateway_create (env (length (sv_gateways s))) of
        (closed, Inl e) \<Rightarrow> Inl (e, closed, map gateway_destroy (sv_gateways s))
      | (_, Inr g) \<Rightarrow>
          let s = s\<lparr>sv_gateways := sv_gateways s @ [\<lparr>gp_port = p, gp_gateway = g, gp_stop = 0\<rparr>]\<rparr>
          in build_gateways env ports (s\<lparr>g_gateways := (g_gateways s)(length (sv_gateways s) - 1 := Some (length (sv_gateways s) - 1))\<rparr>))"

definition server_start :: "(string \<Rightarrow> int) \<Rightarrow> (nat \<Rightarrow> gw_env) \<Rightarrow> string list \<Rightarrow> (gw_error \<times> gw_fd list \<times> (int set \<times> gw_fd list) list) + Server" where
  "server_start over env args =
     (case build_gateways env (server_ports over args) Server_init of
        Inl e \<Rightarrow> Inl e
      | Inr s \<Rightarrow> Inr (s\<lparr>g_gateway_count := length (sv_gateways s)\<rparr>))"

definition on_signal :: "Server \<Rightarrow> Server" where
  "on_signal s =
     (let s = s\<lparr>g_shutdown := True\<rparr>; n = g_gateway_count s in
      fold (\<lambda>i s. case g_gateways s i of None \<Rightarrow> s | Some k \<Rightarrow> s\<lparr>sv_gateways := (sv_gateways s)[k := gw_stop (sv_gateways s ! k)]\<rparr>) [0..<n] s)"

section \<open>Ports\<close>

lemma parse_ports_ok:
  assumes "length ports \<le> MAX_GATEWAYS" "0 \<notin> set ports"
  shows "length (parse_ports over args ports) \<le> MAX_GATEWAYS" "0 \<notin> set (parse_ports over args ports)"
  using assms
proof (induction over args ports rule: parse_ports.induct)
  case (2 over arg args ports)
  have nz: "(of_int p :: 16 word) \<noteq> 0" if "0 < p" "p \<le> 65535" for p :: int
  proof -
    have "uint (of_int p :: 16 word) = p" using that by (simp add: uint_word_of_int_eq take_bit_int_eq_self)
    then show ?thesis using that by auto
  qed
  {
    case 1
    then show ?case using 2 nz by (auto simp: Let_def)
  next
    case 2
    then show ?case using "2.IH" nz by (auto simp: Let_def)
  }
qed simp_all

lemma server_ports_ok:
  "1 \<le> length (server_ports over args)" "length (server_ports over args) \<le> MAX_GATEWAYS" "0 \<notin> set (server_ports over args)"
proof -
  have "length (parse_ports over args []) \<le> MAX_GATEWAYS" "0 \<notin> set (parse_ports over args [])" by (rule parse_ports_ok; simp)+
  moreover have "(0 :: 16 word) \<noteq> DEFAULT_PORT" "1 \<le> MAX_GATEWAYS" by (simp_all add: DEFAULT_PORT_def MAX_GATEWAYS_def)
  ultimately show "1 \<le> length (server_ports over args)" "length (server_ports over args) \<le> MAX_GATEWAYS" "0 \<notin> set (server_ports over args)"
    by (auto simp: server_ports_def Let_def Suc_le_eq)
qed

section \<open>Start\<close>

definition gateway_up :: "gw_env \<Rightarrow> bool" where
  "gateway_up env \<longleftrightarrow> (\<exists>g. snd (gateway_create env) = Inr g)"

text \<open>The array of the handler refers to exactly the gateways of the vector.\<close>

definition gateway_table :: "Server \<Rightarrow> bool" where
  "gateway_table s \<longleftrightarrow> g_gateways s = (\<lambda>i. if i < length (sv_gateways s) then Some i else None)"

lemma gateway_fresh: "snd (gateway_create env) = Inr g \<Longrightarrow> gw_conns g = Map.empty"
  by (auto simp: gateway_create_def split: if_splits)

lemma build_gateways_up:
  assumes "gateway_table s" "\<forall>j < length ports. gateway_up (env (length (sv_gateways s) + j))"
  shows "\<exists>s'. build_gateways env ports s = Inr s' \<and> gateway_table s' \<and> map gp_port (sv_gateways s') = map gp_port (sv_gateways s) @ ports"
  using assms
proof (induction ports arbitrary: s)
  case (Cons p ports)
  let ?n = "length (sv_gateways s)"
  have "gateway_up (env ?n)" using Cons.prems(2) by force
  then obtain cl g where g: "gateway_create (env ?n) = (cl, Inr g)" by (metis gateway_up_def prod.collapse)
  let ?s = "s\<lparr>sv_gateways := sv_gateways s @ [\<lparr>gp_port = p, gp_gateway = g, gp_stop = 0\<rparr>], g_gateways := (g_gateways s)(?n := Some ?n)\<rparr>"
  have t: "gateway_table ?s" using Cons.prems(1) by (auto simp: gateway_table_def fun_eq_iff less_Suc_eq)
  have len: "length (sv_gateways ?s) = Suc ?n" by simp
  have "\<forall>j < length ports. gateway_up (env (length (sv_gateways ?s) + j))"
    unfolding len using Cons.prems(2) by (metis Suc_less_eq add_Suc_shift length_Cons)
  from Cons.IH [OF t this] show ?case using g by (auto simp: Let_def)
qed simp

lemma build_gateways_down:
  assumes "j < length ports" "\<not> gateway_up (env (length (sv_gateways s) + j))" "\<forall>i < j. gateway_up (env (length (sv_gateways s) + i))"
    "\<forall>g \<in> set (sv_gateways s). gw_conns (gp_gateway g) = Map.empty"
  shows "\<exists>e closed. build_gateways env ports s = Inl (e, closed, replicate (length (sv_gateways s) + j) ({}, [STOP_FD, EPOLL_FD, LISTEN_FD])) \<and>
    gateway_create (env (length (sv_gateways s) + j)) = (closed, Inl e)"
  using assms
proof (induction ports arbitrary: s j)
  case (Cons p ports)
  let ?n = "length (sv_gateways s)"
  show ?case
  proof (cases j)
    case 0
    obtain cl e where e: "gateway_create (env ?n) = (cl, Inl e)" using Cons.prems(2) 0 by (cases "gateway_create (env ?n)"; cases "snd (gateway_create (env ?n))") (auto simp: gateway_up_def)
    have "map gateway_destroy (sv_gateways s) = map (\<lambda>_. ({}, [STOP_FD, EPOLL_FD, LISTEN_FD])) (sv_gateways s)"
      using Cons.prems(4) by (simp add: gateway_destroy_def)
    then show ?thesis using e 0 by (simp add: map_replicate_const)
  next
    case (Suc i)
    have "gateway_up (env ?n)" using Cons.prems(3) Suc by force
    then obtain cl g where g: "gateway_create (env ?n) = (cl, Inr g)" by (metis gateway_up_def prod.collapse)
    let ?s = "s\<lparr>sv_gateways := sv_gateways s @ [\<lparr>gp_port = p, gp_gateway = g, gp_stop = 0\<rparr>], g_gateways := (g_gateways s)(?n := Some ?n)\<rparr>"
    have len: "length (sv_gateways ?s) = Suc ?n" by simp
    have "\<forall>k < i. gateway_up (env (length (sv_gateways ?s) + k))" unfolding len using Cons.prems(3) Suc by (metis Suc_less_eq add_Suc_shift)
    moreover have "gw_conns g = Map.empty" using gateway_fresh [of "env ?n" g] g by simp
    ultimately show ?thesis using Cons.IH [of i ?s] Cons.prems(1,2,4) Suc g by (auto simp: Let_def)
  qed
qed simp

text \<open>
  The server starts exactly when every gateway can be constructed. When one fails, the ones before it are destroyed with all their descriptors, and the process
  leaves with the error of the first failure before any thread or signal handler exists.
\<close>

lemma server_start_outcome:
  fixes over args defines "ports \<equiv> server_ports over args"
  shows "if \<forall>j < length ports. gateway_up (env j)
    then \<exists>s. server_start over env args = Inr s \<and> gateway_table s \<and> map gp_port (sv_gateways s) = ports \<and> g_gateway_count s = length (sv_gateways s)
    else \<exists>j e closed. j < length ports \<and> (\<forall>i < j. gateway_up (env i)) \<and> gateway_create (env j) = (closed, Inl e) \<and>
      server_start over env args = Inl (e, closed, replicate j ({}, [STOP_FD, EPOLL_FD, LISTEN_FD]))"
proof (cases "\<forall>j < length ports. gateway_up (env j)")
  case True
  then obtain s where "build_gateways env ports Server_init = Inr s" "gateway_table s" "map gp_port (sv_gateways s) = ports"
    using build_gateways_up [of Server_init ports env] by (auto simp: Server_init_def gateway_table_def)
  then show ?thesis using True by (simp add: server_start_def gateway_table_def ports_def)
next
  case False
  define j where "j = (LEAST j. j < length ports \<and> \<not> gateway_up (env j))"
  have j: "j < length ports" "\<not> gateway_up (env j)" using LeastI_ex [of "\<lambda>j. j < length ports \<and> \<not> gateway_up (env j)"] False unfolding j_def by blast+
  have "gateway_up (env i)" if "i < j" for i using not_less_Least [of i "\<lambda>j. j < length ports \<and> \<not> gateway_up (env j)"] that j(1) unfolding j_def by force
  then show ?thesis using build_gateways_down [of j ports env Server_init] j False by (auto simp: server_start_def Server_init_def ports_def)
qed

section \<open>Signals\<close>

lemma drain_stop_clears: "gp_stop (drain_stop g) = 0"
proof -
  have "while fst (\<lambda>(_, c). eventfd_read c) (eventfd_read c) = (False, 0)" for c
  proof (cases "c = 0")
    case False
    then show ?thesis by (subst while_unfold, subst while_unfold) (simp add: eventfd_read_def)
  qed (subst while_unfold, simp add: eventfd_read_def)
  then show ?thesis by (simp add: drain_stop_def)
qed

text \<open>A stop is never lost: the counter leaves zero and does not return to it, also when it is full.\<close>

lemma gw_stop_ready: "eventfd_ready (gp_stop (gw_stop g))" "gp_port (gw_stop g) = gp_port g"
proof -
  have "snd (eventfd_write c) \<noteq> 0" for c
  proof (cases "c \<ge> - 2")
    case False
    then have "unat c < 2 ^ 64 - 2" by (simp add: word_le_nat_alt)
    then have "unat (c + 1) = unat c + 1" by (simp add: unat_word_ariths)
    then have "c + 1 \<noteq> 0" by force
    then show ?thesis using False by (simp add: eventfd_write_def)
  qed (auto simp: eventfd_write_def)
  then show "eventfd_ready (gp_stop (gw_stop g))" by (simp add: eventfd_ready_def gw_stop_def)
qed (simp add: gw_stop_def)

lemma stop_table:
  assumes "\<forall>i < n. t i = Some i" "n \<le> length gs"
  shows "fold (\<lambda>i gs. case t i of None \<Rightarrow> gs | Some k \<Rightarrow> gs[k := f (gs ! k)]) [0..<n] gs = map f (take n gs) @ drop n gs"
  using assms
proof (induction n)
  case (Suc n)
  then have "n < length gs" "fold (\<lambda>i gs. case t i of None \<Rightarrow> gs | Some k \<Rightarrow> gs[k := f (gs ! k)]) [0..<n] gs = map f (take n gs) @ drop n gs" by simp_all
  then show ?case using Suc.prems(1) by (simp add: list_update_append nth_append take_Suc_conv_app_nth Cons_nth_drop_Suc [symmetric])
qed simp

lemma on_signal_stops:
  assumes "gateway_table s" "g_gateway_count s = length (sv_gateways s)"
  shows "on_signal s = s\<lparr>g_shutdown := True, sv_gateways := map gw_stop (sv_gateways s)\<rparr>"
proof -
  let ?step = "\<lambda>i s. case g_gateways s i of None \<Rightarrow> s | Some k \<Rightarrow> s\<lparr>sv_gateways := (sv_gateways s)[k := gw_stop (sv_gateways s ! k)]\<rparr>"
  have f: "fold ?step is s = s\<lparr>sv_gateways := fold (\<lambda>i gs. case g_gateways s i of None \<Rightarrow> gs | Some k \<Rightarrow> gs[k := gw_stop (gs ! k)]) is (sv_gateways s)\<rparr>"
    for "is" and s :: Server
    by (induction "is" arbitrary: s) (auto split: option.splits)
  have "\<forall>i < length (sv_gateways s). g_gateways s i = Some i" using assms(1) by (simp add: gateway_table_def)
  then show ?thesis using stop_table [of "length (sv_gateways s)" "g_gateways s" "sv_gateways s" gw_stop] assms(2)
    by (simp add: on_signal_def Let_def f)
qed

lemma signals_stop:
  assumes "gateway_table s" "g_gateway_count s = length (sv_gateways s)"
  shows "gateway_table ((on_signal ^^ k) s) \<and> g_gateway_count ((on_signal ^^ k) s) = length (sv_gateways ((on_signal ^^ k) s)) \<and>
    map gp_port (sv_gateways ((on_signal ^^ k) s)) = map gp_port (sv_gateways s) \<and>
    (0 < k \<longrightarrow> g_shutdown ((on_signal ^^ k) s) \<and> list_all (\<lambda>g. eventfd_ready (gp_stop g)) (sv_gateways ((on_signal ^^ k) s)))"
proof (induction k)
  case (Suc k)
  let ?s = "(on_signal ^^ k) s"
  have "on_signal ?s = ?s\<lparr>g_shutdown := True, sv_gateways := map gw_stop (sv_gateways ?s)\<rparr>" by (rule on_signal_stops) (use Suc in simp_all)
  then show ?case using Suc by (simp add: gateway_table_def gw_stop_ready list_all_iff comp_def)
qed (simp add: assms)

text \<open>
  C26. A signal reaches every event loop: once the server has started, with whatever arguments, it runs between one and sixteen gateways, one for each accepted port, none of them port 0; and after any number
  of signals, at least one, the shutdown flag is set and the event descriptor of every gateway is ready, so that its event loop
  returns. No wake-up is lost, not even when the counter of a descriptor is full.
\<close>

theorem signal_stops_all:
  assumes "server_start over env args = Inr s" "0 < k"
  shows "let gs = sv_gateways ((on_signal ^^ k) s) in
    map gp_port gs = server_ports over args \<and> 1 \<le> length gs \<and> length gs \<le> MAX_GATEWAYS \<and> 0 \<notin> gp_port ` set gs \<and>
    g_shutdown ((on_signal ^^ k) s) \<and> list_all (\<lambda>g. eventfd_ready (gp_stop g)) gs"
proof -
  have t: "gateway_table s" "map gp_port (sv_gateways s) = server_ports over args" "g_gateway_count s = length (sv_gateways s)"
    using server_start_outcome [of over args env] assms(1) by (auto split: if_splits)
  note k = signals_stop [OF t(1,3), of k]
  let ?gs = "sv_gateways ((on_signal ^^ k) s)"
  have p: "map gp_port ?gs = server_ports over args" using k t(2) by simp
  then have "length ?gs = length (server_ports over args)" "gp_port ` set ?gs = set (server_ports over args)" by (metis length_map, metis list.set_map)
  then show ?thesis using p k assms(2) server_ports_ok [of over args] by (simp add: Let_def)
qed

definition all_up :: gw_env where
  "all_up = \<lparr>ge_socket = True, ge_bind = True, ge_listen = True, ge_epoll_create = True, ge_eventfd = True, ge_arm_listen = True, ge_arm_stop = True\<rparr>"

theorem signal_stops_all_witness:
  "\<exists>s. server_start (\<lambda>_. 0) (\<lambda>_. all_up) [''9001'', ''x'', ''70000'', '' +9002''] = Inr s \<and>
     map gp_port (sv_gateways ((on_signal ^^ 2) s)) = [9001, 9002] \<and> list_all (\<lambda>g. eventfd_ready (gp_stop g)) (sv_gateways ((on_signal ^^ 2) s))"
proof -
  have p: "server_ports (\<lambda>_. 0) [''9001'', ''x'', ''70000'', '' +9002''] = [9001, 9002]"
    by (simp add: server_ports_def atoi_def is_space_def is_digit_def digit_value_def decimal_def MAX_GATEWAYS_def of_char_def)
  have "gateway_up all_up" by (simp add: gateway_up_def gateway_create_def all_up_def)
  then obtain s where s: "server_start (\<lambda>_. 0) (\<lambda>_. all_up) [''9001'', ''x'', ''70000'', '' +9002''] = Inr s"
    using server_start_outcome [of "\<lambda>_. 0" "[''9001'', ''x'', ''70000'', '' +9002'']" "\<lambda>_. all_up"] by auto
  show ?thesis using signal_stops_all [OF s, of 2] s p by (auto simp: Let_def)
qed

end
