(* ===== verification/Bench_Workload.thy ===== *)
theory Bench_Workload
  imports Order_Book "HOL-Library.Multiset"
begin

text \<open>
  The workloads of the two benchmarks, \<^verbatim>\<open>bench/matcher_bench.cpp\<close> and \<^verbatim>\<open>bench/pipeline_bench.cpp\<close>: the generators of orders and operations.
  The random numbers are those of \<^verbatim>\<open>std::mt19937_64\<close>, which is modelled as the standard defines it: the last
  312 values of the recurrence and the tempering of the newest. What is proved of the workloads holds for every state of the engine.
\<close>

section \<open>The random number engine\<close>

record mt19937_64 =
  mt_x :: "64 word list"

fun mt_seed_rest :: "nat \<Rightarrow> nat \<Rightarrow> 64 word \<Rightarrow> 64 word list" where
  "mt_seed_rest 0 i x = []"
| "mt_seed_rest (Suc n) i x =
     (let y = 6364136223846793005 * (x XOR drop_bit 62 x) + of_nat i in y # mt_seed_rest n (Suc i) y)"

definition mt_seed :: "64 word \<Rightarrow> mt19937_64" where
  "mt_seed s = \<lparr>mt_x = s # mt_seed_rest 311 1 s\<rparr>"

definition mt_temper :: "64 word \<Rightarrow> 64 word" where
  "mt_temper z =
     (let z = z XOR (drop_bit 29 z AND 0x5555555555555555);
          z = z XOR (push_bit 17 z AND 0x71D67FFFEDA60000);
          z = z XOR (push_bit 37 z AND 0xFFF7EEE000000000)
      in z XOR drop_bit 43 z)"

definition mt_next :: "mt19937_64 \<Rightarrow> 64 word \<times> mt19937_64" where
  "mt_next g =
     (let xs = mt_x g;
          y = (xs ! 0 AND 0xFFFFFFFF80000000) OR (xs ! 1 AND 0x7FFFFFFF);
          x = xs ! 156 XOR drop_bit 1 y XOR (if bit y 0 then 0xB5026F5AA96619E9 else 0)
      in (mt_temper x, g\<lparr>mt_x := tl xs @ [x]\<rparr>))"

section \<open>The operations of the matcher benchmark\<close>

definition MB_MAX_NODES :: nat where
  "MB_MAX_NODES = 2 ^ 17"

definition SEED_ORDERS :: nat where
  "SEED_ORDERS = 1000000"

definition N_OPS :: nat where
  "N_OPS = 5000000"

definition ID_CAPACITY :: nat where
  "ID_CAPACITY = 4000000"

definition MB_MID :: PriceTick where
  "MB_MID = 100000"

definition MB_BAND :: PriceTick where
  "MB_BAND = 128"

definition SEED_RNG :: "64 word" where
  "SEED_RNG = 0x9E3779B97F4A7C15"

datatype OpKind = OP_SUBMIT | OP_CANCEL

record Op =
  op_order :: Order
  op_kind :: OpKind

definition make_limit :: "OrderId \<Rightarrow> bool \<Rightarrow> mt19937_64 \<Rightarrow> Order \<times> mt19937_64" where
  "make_limit i buy rng =
     (let (x, rng) = mt_next rng;
          price = (if buy then MB_MID - 1 - uint (x mod of_int MB_BAND) else MB_MID + 1 + uint (x mod of_int MB_BAND));
          (y, rng) = mt_next rng;
          qty = 1 + ucast (y mod 10)
      in (Order_zero\<lparr>o_id := i, o_seq := i, o_price := price, o_quantity := qty, o_remaining := qty,
            o_side := (if buy then BUY else SELL), o_type := LIMIT\<rparr>, rng))"

text \<open>The locals of \<^verbatim>\<open>generate_ops\<close>.\<close>

record op_gen =
  g_rng :: mt19937_64
  g_ops :: "Op list"
  g_live :: "OrderId list"
  g_next_id :: OrderId
  n_add :: nat
  n_cancel :: nat
  n_mktioc :: nat

definition swap_remove :: "nat \<Rightarrow> 'a list \<Rightarrow> 'a list" where
  "swap_remove k xs = butlast (xs[k := last xs])"

definition gen_add :: "mt19937_64 \<Rightarrow> op_gen \<Rightarrow> op_gen" where
  "gen_add rng g =
     (let i = g_next_id g;
          (x, rng) = mt_next rng;
          (o', rng) = make_limit i (x AND 1 \<noteq> 0) rng
      in g\<lparr>g_rng := rng, g_next_id := i + 1, g_ops := g_ops g @ [\<lparr>op_order = o', op_kind = OP_SUBMIT\<rparr>],
           g_live := g_live g @ [i], n_add := n_add g + 1\<rparr>)"

definition gen_cancel :: "mt19937_64 \<Rightarrow> op_gen \<Rightarrow> op_gen" where
  "gen_cancel rng g =
     (let (x, rng) = mt_next rng;
          k = unat (x mod of_nat (length (g_live g)));
          i = g_live g ! k
      in g\<lparr>g_rng := rng, g_live := swap_remove k (g_live g),
           g_ops := g_ops g @ [\<lparr>op_order = Order_zero\<lparr>o_id := i\<rparr>, op_kind = OP_CANCEL\<rparr>], n_cancel := n_cancel g + 1\<rparr>)"

definition gen_taker :: "mt19937_64 \<Rightarrow> op_gen \<Rightarrow> op_gen" where
  "gen_taker rng g =
     (let i = g_next_id g;
          (x, rng) = mt_next rng;
          buy = (x AND 1 \<noteq> 0);
          (y, rng) = mt_next rng;
          qty = 1 + ucast (y mod 5);
          o' = Order_zero\<lparr>o_id := i, o_seq := i, o_quantity := qty, o_remaining := qty, o_side := (if buy then BUY else SELL)\<rparr>;
          (z, rng) = mt_next rng;
          o' = (if z AND 1 \<noteq> 0 then o'\<lparr>o_type := MARKET, o_price := 0\<rparr>
                else o'\<lparr>o_type := IOC, o_price := (if buy then MB_MID + MB_BAND else MB_MID - MB_BAND)\<rparr>)
      in g\<lparr>g_rng := rng, g_next_id := i + 1, g_ops := g_ops g @ [\<lparr>op_order = o', op_kind = OP_SUBMIT\<rparr>], n_mktioc := n_mktioc g + 1\<rparr>)"

definition gen_op :: "op_gen \<Rightarrow> op_gen" where
  "gen_op g =
     (let (x, rng) = mt_next (g_rng g);
          roll = ucast (x mod 100) :: 32 word in
      if roll < 40 \<or> g_live g = [] then gen_add rng g
      else if roll < 95 then gen_cancel rng g
      else gen_taker rng g)"

text \<open>The loops run over the number of seeded orders and of operations; \<^verbatim>\<open>generate_ops\<close> takes the constants of the benchmark.\<close>

definition gen_start :: "nat \<Rightarrow> mt19937_64 \<Rightarrow> op_gen" where
  "gen_start seeds rng = \<lparr>g_rng = rng, g_ops = [], g_live = map of_nat [1..<Suc seeds], g_next_id = of_nat (seeds + 1),
     n_add = 0, n_cancel = 0, n_mktioc = 0\<rparr>"

definition gen_ops :: "nat \<Rightarrow> nat \<Rightarrow> mt19937_64 \<Rightarrow> op_gen" where
  "gen_ops seeds n rng = (gen_op ^^ n) (gen_start seeds rng)"

definition generate_ops :: "Op list" where
  "generate_ops = g_ops (gen_ops SEED_ORDERS N_OPS (mt_seed SEED_RNG))"

section \<open>The orders of the pipeline benchmark\<close>

definition PB_N :: nat where
  "PB_N = 5000000"

definition PB_MID :: PriceTick where
  "PB_MID = 10000"

definition PB_BAND :: PriceTick where
  "PB_BAND = 8"

definition GEN_SEED :: "64 word" where
  "GEN_SEED = 0xF00DFACEC0FFEE"

fun gen_orders :: "nat \<Rightarrow> nat \<Rightarrow> mt19937_64 \<Rightarrow> Order list" where
  "gen_orders 0 i rng = []"
| "gen_orders (Suc n) i rng =
     (let (x, rng) = mt_next rng;
          (y, rng) = mt_next rng;
          qty = 1 + ucast (y mod 4);
          (z, rng) = mt_next rng
      in Order_zero\<lparr>o_id := of_nat i + 1, o_price := PB_MID - PB_BAND + uint (x mod of_int (2 * PB_BAND + 1)), o_quantity := qty,
           o_remaining := qty, o_side := (if z AND 1 \<noteq> 0 then BUY else SELL), o_type := LIMIT\<rparr> # gen_orders n (Suc i) rng)"

definition generate_orders :: "Order list" where
  "generate_orders = gen_orders PB_N 0 (mt_seed GEN_SEED)"

section \<open>What the operations are\<close>

definition limit_ids :: "Op list \<Rightarrow> OrderId list" where
  "limit_ids ops = map (\<lambda>x. o_id (op_order x)) (filter (\<lambda>x. op_kind x = OP_SUBMIT \<and> o_type (op_order x) = LIMIT) ops)"

definition submit_ids :: "Op list \<Rightarrow> OrderId list" where
  "submit_ids ops = map (\<lambda>x. o_id (op_order x)) (filter (\<lambda>x. op_kind x = OP_SUBMIT) ops)"

definition cancel_ids :: "Op list \<Rightarrow> OrderId list" where
  "cancel_ids ops = map (\<lambda>x. o_id (op_order x)) (filter (\<lambda>x. op_kind x = OP_CANCEL) ops)"

definition seed_ids :: "nat \<Rightarrow> OrderId list" where
  "seed_ids seeds = map of_nat [1..<Suc seeds]"

text \<open>A limit order of the benchmark is passive: a bid below the middle and an ask above it, within the band, for 1 to 10 units.\<close>

definition is_passive :: "Order \<Rightarrow> bool" where
  "is_passive o' \<longleftrightarrow> o_remaining o' \<noteq> 0 \<and> o_remaining o' \<le> 10 \<and>
     (o_side o' = BUY \<and> MB_MID - MB_BAND \<le> o_price o' \<and> o_price o' < MB_MID \<or>
      o_side o' = SELL \<and> MB_MID < o_price o' \<and> o_price o' \<le> MB_MID + MB_BAND)"

lemma op_ids_simps [simp]:
  "limit_ids [] = []" "submit_ids [] = []" "cancel_ids [] = []"
  "limit_ids (ops @ [x]) = limit_ids ops @ (if op_kind x = OP_SUBMIT \<and> o_type (op_order x) = LIMIT then [o_id (op_order x)] else [])"
  "submit_ids (ops @ [x]) = submit_ids ops @ (if op_kind x = OP_SUBMIT then [o_id (op_order x)] else [])"
  "cancel_ids (ops @ [x]) = cancel_ids ops @ (if op_kind x = OP_CANCEL then [o_id (op_order x)] else [])"
  by (simp_all add: limit_ids_def submit_ids_def cancel_ids_def)

lemma seed_ids_length [simp]: "length (seed_ids seeds) = seeds"
  by (simp add: seed_ids_def del: upt_Suc)

lemma small_qty: "m < 2 ^ 31 \<Longrightarrow> 0 < m \<Longrightarrow> (1 + ucast ((y :: 64 word) mod m) :: 32 word) \<noteq> 0 \<and> (1 + ucast (y mod m) :: 32 word) \<le> ucast m"
proof -
  assume m: "m < 2 ^ 31" "0 < m"
  have mn: "unat m < 2 ^ 31" using m(1) by (simp add: word_less_nat_alt)
  have "unat (y mod m) < unat m" using m(2) by (simp add: unat_mod word_less_nat_alt)
  then have le: "unat (y mod m) + 1 \<le> unat m" "unat (y mod m) < 2 ^ 31" using mn by simp_all
  have u: "unat (ucast (y mod m) :: 32 word) = unat (y mod m)" "unat (ucast m :: 32 word) = unat m"
    using le(2) mn by (simp_all add: unsigned_ucast_eq take_bit_nat_eq_self)
  have "unat (1 + ucast (y mod m) :: 32 word) = unat (y mod m) + 1" using le(2) u(1) by (simp add: unat_word_ariths)
  then show ?thesis using le(1) u(2) by (simp add: word_le_nat_alt word_unat_eq_iff)
qed

lemma band_offset: "0 \<le> uint ((x :: 64 word) mod of_int MB_BAND) \<and> uint (x mod of_int MB_BAND) < MB_BAND"
  by (simp add: MB_BAND_def uint_mod)

lemma make_limit_passive:
  assumes "make_limit i buy rng = (o', rng')"
  shows "is_passive o'" "o_id o' = i" "o_type o' = LIMIT" "(o_side o' = BUY) = buy"
proof -
  obtain x rng1 where x: "mt_next rng = (x, rng1)" by force
  obtain y rng2 where y: "mt_next rng1 = (y, rng2)" by force
  have o: "o' = Order_zero\<lparr>o_id := i, o_seq := i, o_price := (if buy then MB_MID - 1 - uint (x mod of_int MB_BAND) else MB_MID + 1 + uint (x mod of_int MB_BAND)),
      o_quantity := 1 + ucast (y mod 10), o_remaining := 1 + ucast (y mod 10), o_side := (if buy then BUY else SELL), o_type := LIMIT\<rparr>"
    using assms x y by (simp add: make_limit_def Let_def)
  define d where "d = uint (x mod of_int MB_BAND)"
  have "0 \<le> d" "d < MB_BAND" using band_offset [of x] by (simp_all add: d_def)
  then show "is_passive o'" using small_qty [of 10 y] by (auto simp: o is_passive_def simp flip: d_def)
  show "o_id o' = i" "o_type o' = LIMIT" "(o_side o' = BUY) = buy" by (simp_all add: o)
qed

lemma mset_swap_remove: "k < length xs \<Longrightarrow> mset xs = add_mset (xs ! k) (mset (swap_remove k xs))"
proof (cases xs rule: rev_cases)
  case (snoc ys z)
  assume "k < length xs"
  then consider "k < length ys" | "k = length ys" using snoc by force
  then show ?thesis
  proof cases
    case 1
    then show ?thesis using snoc by (simp add: swap_remove_def list_update_append nth_append mset_update butlast_append)
  next
    case 2
    then show ?thesis using snoc by (simp add: swap_remove_def)
  qed
qed simp

text \<open>The state of the generator: what is live and what was cancelled are together what was seeded or added, each id once.\<close>

definition gen_inv :: "nat \<Rightarrow> nat \<Rightarrow> op_gen \<Rightarrow> bool" where
  "gen_inv seeds n g \<longleftrightarrow> length (g_ops g) = n \<and> n_add g + n_cancel g + n_mktioc g = n \<and>
     g_next_id g = of_nat (Suc seeds + n_add g + n_mktioc g) \<and>
     submit_ids (g_ops g) = map of_nat [Suc seeds..<Suc seeds + n_add g + n_mktioc g] \<and>
     mset (g_live g @ cancel_ids (g_ops g)) = mset (seed_ids seeds @ limit_ids (g_ops g)) \<and>
     list_all (\<lambda>x. op_kind x = OP_SUBMIT \<and> o_type (op_order x) = LIMIT \<longrightarrow> is_passive (op_order x)) (g_ops g)"

lemma gen_inv_start: "gen_inv seeds 0 (gen_start seeds rng)"
  by (simp add: gen_inv_def gen_start_def seed_ids_def del: upt_Suc)

lemma gen_add_inv: "gen_inv seeds n g \<Longrightarrow> gen_inv seeds (Suc n) (gen_add rng g)"
proof -
  assume iv: "gen_inv seeds n g"
  obtain x rng1 where x: "mt_next rng = (x, rng1)" by force
  obtain o' rng2 where o: "make_limit (g_next_id g) (x AND 1 \<noteq> 0) rng1 = (o', rng2)" by force
  show ?thesis using iv make_limit_passive [OF o] x o
    by (auto simp: gen_inv_def gen_add_def Let_def)
qed

lemma gen_taker_inv: "gen_inv seeds n g \<Longrightarrow> gen_inv seeds (Suc n) (gen_taker rng g)"
  by (auto simp: gen_inv_def gen_taker_def Let_def split: prod.splits)

lemma gen_live_length: "gen_inv seeds n g \<Longrightarrow> length (g_live g) \<le> seeds + n"
proof -
  assume iv: "gen_inv seeds n g"
  then have "mset (g_live g @ cancel_ids (g_ops g)) = mset (seed_ids seeds @ limit_ids (g_ops g))" by (simp only: gen_inv_def)
  from arg_cong [OF this, of size] have "length (g_live g) + length (cancel_ids (g_ops g)) = seeds + length (limit_ids (g_ops g))" by simp
  moreover have "length (limit_ids (g_ops g)) \<le> n" using iv by (auto simp: gen_inv_def limit_ids_def intro: order_trans [OF length_filter_le])
  ultimately show ?thesis by simp
qed

lemma gen_cancel_inv:
  assumes "gen_inv seeds n g" "g_live g \<noteq> []" "seeds + n < 2 ^ 64"
  shows "gen_inv seeds (Suc n) (gen_cancel rng g)"
proof -
  obtain x rng1 where x: "mt_next rng = (x, rng1)" by force
  let ?k = "unat (x mod of_nat (length (g_live g)))"
  have len: "unat (of_nat (length (g_live g)) :: 64 word) = length (g_live g)"
    using gen_live_length [OF assms(1)] assms(3) by (simp add: unat_of_nat take_bit_nat_eq_self)
  then have "?k < length (g_live g)" using assms(2) by (simp add: unat_mod)
  from mset_swap_remove [OF this] show ?thesis using assms(1) x
    by (simp add: gen_inv_def gen_cancel_def Let_def del: upt_Suc)
qed

lemma gen_op_inv: "gen_inv seeds n g \<Longrightarrow> seeds + n < 2 ^ 64 \<Longrightarrow> gen_inv seeds (Suc n) (gen_op g)"
  by (auto simp: gen_op_def Let_def gen_add_inv gen_cancel_inv gen_taker_inv split: prod.splits)

lemma gen_ops_inv: "seeds + n < 2 ^ 64 \<Longrightarrow> gen_inv seeds n (gen_ops seeds n rng)"
  by (induction n) (simp_all add: gen_ops_def gen_inv_start gen_op_inv)

lemma gen_op_extends: "\<exists>x. g_ops (gen_op g) = g_ops g @ [x]"
  by (auto simp: gen_op_def gen_add_def gen_cancel_def gen_taker_def Let_def split: prod.splits)

lemma gen_ops_prefix: "i \<le> n \<Longrightarrow> seeds + n < 2 ^ 64 \<Longrightarrow> take i (g_ops (gen_ops seeds n rng)) = g_ops (gen_ops seeds i rng)"
proof (induction n)
  case (Suc n)
  have len: "length (g_ops (gen_ops seeds m rng)) = m" if "m \<le> Suc n" for m
    using gen_ops_inv [of seeds m rng] Suc.prems(2) that by (simp add: gen_inv_def)
  obtain x where "g_ops (gen_ops seeds (Suc n) rng) = g_ops (gen_ops seeds n rng) @ [x]"
    using gen_op_extends [of "gen_ops seeds n rng"] by (auto simp: gen_ops_def)
  then show ?case using Suc len [of n] len [of "Suc n"] by (cases "i = Suc n") auto
qed (simp add: gen_ops_def gen_start_def)

lemma word_ids_distinct: "m < 2 ^ 64 \<Longrightarrow> distinct (map of_nat [a..<m] :: 64 word list)"
  by (auto simp: distinct_map inj_on_def word_unat_eq_iff unat_of_nat take_bit_nat_eq_self)

lemma limit_ids_subset: "set (limit_ids ops) \<subseteq> set (submit_ids ops)"
  by (auto simp: limit_ids_def submit_ids_def)

lemma gen_ids_distinct:
  assumes "gen_inv seeds n g" "Suc seeds + n < 2 ^ 64"
  shows "distinct (seed_ids seeds @ submit_ids (g_ops g))" "distinct (g_live g @ cancel_ids (g_ops g))"
proof -
  have bound: "Suc seeds + n_add g + n_mktioc g < 2 ^ 64" using assms by (simp add: gen_inv_def)
  have ids: "seed_ids seeds @ submit_ids (g_ops g) = map of_nat [1..<Suc seeds + n_add g + n_mktioc g]"
    using assms(1) upt_add_eq_append [of 1 "Suc seeds" "n_add g + n_mktioc g"]
    by (simp add: gen_inv_def seed_ids_def add.assoc del: upt_Suc)
  show d: "distinct (seed_ids seeds @ submit_ids (g_ops g))" unfolding ids by (rule word_ids_distinct [OF bound])
  have "limit_ids (g_ops g) = map (\<lambda>x. o_id (op_order x)) (filter (\<lambda>x. o_type (op_order x) = LIMIT) (filter (\<lambda>x. op_kind x = OP_SUBMIT) (g_ops g)))"
    by (simp add: limit_ids_def conj_commute)
  then have "distinct (limit_ids (g_ops g))" using d distinct_map_filter unfolding submit_ids_def distinct_append by metis
  then have "distinct (seed_ids seeds @ limit_ids (g_ops g))" using d limit_ids_subset [of "g_ops g"] by auto
  moreover have "mset (g_live g @ cancel_ids (g_ops g)) = mset (seed_ids seeds @ limit_ids (g_ops g))" using assms(1) by (simp add: gen_inv_def)
  ultimately show "distinct (g_live g @ cancel_ids (g_ops g))" by (metis mset_eq_imp_distinct_iff)
qed

text \<open>
  The workload of the matcher benchmark is what its comments say, whatever the random numbers are: every submitted order has a new id, consecutive and
  above the seeded ones; a cancel names an id that was seeded or added by an earlier limit order, and no id is cancelled
  twice; every limit order is passive, with a bid below and an ask above the middle price.
\<close>

theorem workload_sound:
  assumes "Suc seeds + n < 2 ^ 64" "ops = g_ops (gen_ops seeds n rng)"
  shows "length ops = n \<and> distinct (seed_ids seeds @ submit_ids ops) \<and> distinct (cancel_ids ops) \<and>
    (\<forall>i < n. let x = ops ! i in
       (op_kind x = OP_CANCEL \<longrightarrow> o_id (op_order x) \<in> set (seed_ids seeds @ limit_ids (take i ops))) \<and>
       (op_kind x = OP_SUBMIT \<and> o_type (op_order x) = LIMIT \<longrightarrow> is_passive (op_order x)))"
proof -
  note iv = gen_ops_inv [of seeds n rng]
  have g: "gen_inv seeds n (gen_ops seeds n rng)" using iv assms(1) by simp
  have len: "length ops = n" using g assms(2) by (simp add: gen_inv_def)
  note d = gen_ids_distinct [OF g assms(1), folded assms(2)]
  have "o_id (op_order (ops ! i)) \<in> set (seed_ids seeds @ limit_ids (take i ops))" if i: "i < n" "op_kind (ops ! i) = OP_CANCEL" for i
  proof -
    let ?g = "gen_ops seeds (Suc i) rng"
    have ops: "take i ops = g_ops (gen_ops seeds i rng)" "take (Suc i) ops = g_ops ?g"
      using gen_ops_prefix [of _ n seeds rng] assms i(1) by simp_all
    have sn: "take (Suc i) ops = take i ops @ [ops ! i]" using i(1) len by (simp add: take_Suc_conv_app_nth)
    have "gen_inv seeds (Suc i) ?g" using gen_ops_inv [of seeds "Suc i" rng] assms(1) i(1) by simp
    then have "mset (g_live ?g @ cancel_ids (take (Suc i) ops)) = mset (seed_ids seeds @ limit_ids (take (Suc i) ops))"
      by (simp add: gen_inv_def flip: ops(2))
    then have "set (g_live ?g @ cancel_ids (take (Suc i) ops)) = set (seed_ids seeds @ limit_ids (take (Suc i) ops))" by (rule mset_eq_setD)
    then show ?thesis using i(2) unfolding sn by auto
  qed
  moreover have "is_passive (op_order (ops ! i))" if "i < n" "op_kind (ops ! i) = OP_SUBMIT" "o_type (op_order (ops ! i)) = LIMIT" for i
    using g len that by (simp add: gen_inv_def list_all_length flip: assms(2))
  ultimately show ?thesis using len d by (auto simp: Let_def)
qed

theorem workload_sound_witness:
  "length (g_ops (gen_ops 3 8 (mt_seed SEED_RNG))) = 8 \<and> distinct (cancel_ids (g_ops (gen_ops 3 8 (mt_seed SEED_RNG))))"
  using workload_sound [of 3 8 "g_ops (gen_ops 3 8 (mt_seed SEED_RNG))" "mt_seed SEED_RNG"] by simp

end
