(* ===== verification/Bench_Matcher.thy ===== *)
theory Bench_Matcher
  imports Bench_Workload Book_Properties
begin

text \<open>
  The passes of \<^verbatim>\<open>bench/matcher_bench.cpp\<close>: a book seeded by \<^verbatim>\<open>OrderBook::add\<close> without matching, a stream of operations on it, with or without
  the prefetch hints for the cancels to come, and the figures that the benchmark compares. The clock is left out. A hint is the line that it names,
  read with the bounds checks of the code; hints are collected so that the pass with them and the pass without are different computations.
\<close>

section \<open>Prefetch hints and introspection of the book\<close>

datatype hint = Slab_line nat | Node_line nat

definition prefetch_slab :: "OrderId \<Rightarrow> OrderBook \<Rightarrow> hint list" where
  "prefetch_slab i b = (if unat i < locators_size b then [Slab_line (unat i)] else [])"

definition prefetch_node :: "OrderId \<Rightarrow> OrderBook \<Rightarrow> hint list" where
  "prefetch_node i b =
     (if unat i \<ge> locators_size b then []
      else
        let node = se_node (locators b (unat i)) in
        if node \<noteq> INVALID_INDEX \<and> node < nodes_size b then [Node_line node] else [])"

definition free_node_count :: "OrderBook \<Rightarrow> 32 word" where
  "free_node_count b = of_nat (length (free_nodes b))"

section \<open>Matching into a sink\<close>

text \<open>
  \<^verbatim>\<open>Matcher::submit\<close> with a sink that is never full: the events of the submission are given to its \<^verbatim>\<open>try_publish\<close>, one by one. The list is that of
  all events so far.
\<close>

definition submit_sink :: "(TradeEvent \<Rightarrow> 's \<Rightarrow> 's) \<Rightarrow> Order \<Rightarrow> OrderBook \<times> TradeEvent list \<times> 's \<Rightarrow> MatchResult \<times> OrderBook \<times> TradeEvent list \<times> 's" where
  "submit_sink put inc = (\<lambda>(b, log, s).
     let (r, b, log') = submit inc (b, log) in (r, b, log', fold put (drop (length log) log') s))"

record CountingSink =
  cs_count :: "64 word"

definition counting_try_publish :: "TradeEvent \<Rightarrow> CountingSink \<Rightarrow> CountingSink" where
  "counting_try_publish t s = s\<lparr>cs_count := cs_count s + 1\<rparr>"

section \<open>Passes\<close>

definition PF_DIST_SLAB :: nat where
  "PF_DIST_SLAB = 24"

definition PF_DIST_NODE :: nat where
  "PF_DIST_NODE = 10"

record PassResult =
  pr_checksum :: "64 word"
  pr_fills :: "64 word"
  pr_trades :: "64 word"
  pr_cxl_hits :: "64 word"
  pr_seeded :: nat
  pr_book_live :: nat
  pr_free_nodes :: "32 word"

text \<open>The locals of \<^verbatim>\<open>run_pass\<close>.\<close>

record bench_pass =
  ps_book :: OrderBook
  ps_log :: "TradeEvent list"
  ps_egress :: CountingSink
  ps_sink :: "64 word"
  ps_fills :: "64 word"
  ps_trades :: "64 word"
  ps_cxl_hits :: "64 word"
  ps_hints :: "hint list"

definition seed_order :: "OrderId \<Rightarrow> OrderBook \<times> mt19937_64 \<times> nat \<Rightarrow> OrderBook \<times> mt19937_64 \<times> nat" where
  "seed_order i = (\<lambda>(b, rng, seeded).
     let (x, rng) = mt_next rng;
         (o', rng) = make_limit i (x AND 1 \<noteq> 0) rng;
         (ok, b) = add o' b
     in (b, rng, if ok then Suc seeded else seeded))"

definition seed_book :: "nat \<Rightarrow> mt19937_64 \<Rightarrow> OrderBook \<times> mt19937_64 \<times> nat" where
  "seed_book n rng = fold seed_order (seed_ids n) (book_init MB_MAX_NODES ID_CAPACITY (2 ^ 16), rng, 0)"

definition pass_hints :: "Op list \<Rightarrow> nat \<Rightarrow> OrderBook \<Rightarrow> hint list" where
  "pass_hints ops i b =
     (let s = i + PF_DIST_SLAB; d = i + PF_DIST_NODE in
      (if s < length ops \<and> op_kind (ops ! s) = OP_CANCEL then prefetch_slab (o_id (op_order (ops ! s))) b else []) @
      (if d < length ops \<and> op_kind (ops ! d) = OP_CANCEL then prefetch_node (o_id (op_order (ops ! d))) b else []))"

text \<open>The sum \<^verbatim>\<open>r.filled + r.trades\<close> is one of 32 bits before it is added to the 64-bit checksum.\<close>

definition pass_op :: "Op \<Rightarrow> bench_pass \<Rightarrow> bench_pass" where
  "pass_op x s =
     (if op_kind x = OP_SUBMIT then
        let (r, b, log, e) = submit_sink counting_try_publish (op_order x) (ps_book s, ps_log s, ps_egress s)
        in s\<lparr>ps_book := b, ps_log := log, ps_egress := e, ps_sink := ps_sink s + ucast (filled r + trades r),
             ps_fills := ps_fills s + ucast (filled r), ps_trades := ps_trades s + ucast (trades r)\<rparr>
      else
        let (ok, b) = cancel (o_id (op_order x)) (ps_book s)
        in s\<lparr>ps_book := b, ps_sink := ps_sink s + of_bool ok, ps_cxl_hits := ps_cxl_hits s + of_bool ok\<rparr>)"

definition pass_step :: "bool \<Rightarrow> Op list \<Rightarrow> nat \<Rightarrow> bench_pass \<Rightarrow> bench_pass" where
  "pass_step prefetch ops i s =
     pass_op (ops ! i) (if prefetch then s\<lparr>ps_hints := ps_hints s @ pass_hints ops i (ps_book s)\<rparr> else s)"

definition pass_loop :: "bool \<Rightarrow> Op list \<Rightarrow> OrderBook \<Rightarrow> bench_pass" where
  "pass_loop prefetch ops b = fold (pass_step prefetch ops) [0..<length ops]
     \<lparr>ps_book = b, ps_log = [], ps_egress = \<lparr>cs_count = 0\<rparr>, ps_sink = 0, ps_fills = 0, ps_trades = 0, ps_cxl_hits = 0, ps_hints = []\<rparr>"

definition run_pass :: "bool \<Rightarrow> Op list \<Rightarrow> PassResult" where
  "run_pass prefetch ops =
     (let (b, rng, seeded) = seed_book SEED_ORDERS (mt_seed (SEED_RNG XOR 0xABCDEF));
          s = pass_loop prefetch ops b
      in \<lparr>pr_checksum = ps_sink s, pr_fills = ps_fills s, pr_trades = ps_trades s, pr_cxl_hits = ps_cxl_hits s,
          pr_seeded = seeded, pr_book_live = active_orders (ps_book s), pr_free_nodes = free_node_count (ps_book s)\<rparr>)"

text \<open>One repetition of the comparison in \<^verbatim>\<open>main\<close>, with the checksums of the first one: whether \<^verbatim>\<open>checksum_ok\<close> stays true.\<close>

definition ab_rep :: "64 word \<Rightarrow> 64 word \<Rightarrow> Op list \<Rightarrow> nat \<Rightarrow> bool" where
  "ab_rep chk_plain chk_pf ops rep =
     (let (a, b) = (if odd rep then let b = run_pass True ops; a = run_pass False ops in (a, b)
                    else let a = run_pass False ops; b = run_pass True ops in (a, b))
      in \<not> (pr_checksum a \<noteq> chk_plain \<or> pr_checksum b \<noteq> chk_pf \<or> pr_checksum a \<noteq> pr_checksum b))"

section \<open>The seeded book\<close>

text \<open>Orders that are added without being matched can cross the book. Those of the benchmark cannot.\<close>

definition passive_book :: "OrderBook \<Rightarrow> bool" where
  "passive_book b \<longleftrightarrow> book_inv b \<and> (\<forall>s. \<forall>o' \<in> set (all_orders (book_side b s)). is_passive o')"

lemma passive_engine:
  assumes "passive_book b"
  shows "engine_ok b"
proof -
  have iv: "book_inv b" and pas: "\<And>s o'. o' \<in> set (all_orders (book_side b s)) \<Longrightarrow> is_passive o'"
    using assms by (auto simp: passive_book_def)
  have ps: "is_passive (hd q) \<and> o_price (hd q) = p \<and> (o_side (hd q) = BUY) = s" if "(p, q) \<in> set (book_side b s)" for p q s
  proof -
    have "q \<noteq> []" using book.levels_nonempty [OF iv, of s] that by auto
    then have "hd q \<in> set q" "hd q \<in> set (all_orders (book_side b s))" using that by (force simp: all_orders_def)+
    then show ?thesis using pas book_order_price [OF iv that] by blast
  qed
  have "uncrossed (book_side b)"
  proof (rule uncrossedI)
    fix p q
    assume "p \<in> fst ` set (book_side b True)" "q \<in> fst ` set (book_side b False)"
    then obtain ps qs where "(p, ps) \<in> set (book_side b True)" "(q, qs) \<in> set (book_side b False)" by auto
    from ps [OF this(1)] ps [OF this(2)] show "p < q" by (auto simp: is_passive_def)
  qed
  moreover have "\<forall>s. positive (book_side b s)" using pas by (auto simp: positive_def is_passive_def)
  ultimately show ?thesis using iv by (simp add: engine_ok_def)
qed

lemma seed_order_passive:
  assumes "passive_book b" "seed_order i (b, rng, n) = (b', rng', n')"
  shows "passive_book b'"
proof -
  obtain x rng1 where x: "mt_next rng = (x, rng1)" by force
  obtain o' rng2 where o: "make_limit i (x AND 1 \<noteq> 0) rng1 = (o', rng2)" by force
  obtain ok b1 where a: "add o' b = (ok, b1)" by force
  have b': "b' = b1" using assms(2) x o a by (simp add: seed_order_def Let_def)
  have iv: "book_inv b" using assms(1) by (simp add: passive_book_def)
  have "is_passive z" if "z \<in> set (all_orders (book_side b1 s))" for z s
    using that book_add(3) [OF iv, of o'] assms(1) a make_limit_passive(1) [OF o]
    by (auto simp: passive_book_def enqueue_orders split: if_splits)
  then show ?thesis using book_add(1) [OF iv, of o'] a by (auto simp: passive_book_def b')
qed

lemma seed_book_ok: "engine_ok (fst (seed_book n rng))"
proof -
  have "passive_book b \<Longrightarrow> passive_book (fst (fold seed_order js (b, rng, k)))" for js b rng k
  proof (induction js arbitrary: b rng k)
    case (Cons i js)
    obtain b1 rng1 k1 where s: "seed_order i (b, rng, k) = (b1, rng1, k1)" by (metis prod_cases3)
    from Cons.IH [OF seed_order_passive [OF Cons.prems s]] s show ?case by simp
  qed simp
  moreover have "passive_book (book_init MB_MAX_NODES ID_CAPACITY (2 ^ 16))"
    using book_init_engine [of MB_MAX_NODES ID_CAPACITY "2 ^ 16"] book_init_side [of MB_MAX_NODES ID_CAPACITY "2 ^ 16"]
    by (auto simp: passive_book_def engine_ok_def MB_MAX_NODES_def all_orders_def)
  ultimately show ?thesis unfolding seed_book_def by (intro passive_engine)
qed

section \<open>The passes\<close>

lemma cancel_engine:
  assumes "engine_ok b"
  shows "engine_ok (snd (cancel i b))"
proof -
  note c = book_cancel [of b i]
  have iv: "book_inv b" using assms by (simp add: engine_ok_def)
  have "positive (dequeue i (book_side b s))" for s using assms by (auto simp: engine_ok_def positive_def dequeue_orders)
  moreover have "uncrossed (\<lambda>s. dequeue i (book_side b s))"
    using assms by (intro uncrossed_mono [OF _ dequeue_prices]) (simp add: engine_ok_def)
  ultimately show ?thesis using c(1,3) [OF iv] by (simp add: engine_ok_def)
qed

text \<open>Each fill is of at least one unit, so that there are no more trades than units filled.\<close>

lemma length_fill_total: "\<forall>(mk, x) \<in> set fs. x \<noteq> 0 \<Longrightarrow> length fs \<le> fill_total fs"
proof (induction fs)
  case (Cons f fs)
  then have "unat (snd f) \<noteq> 0" by (auto simp: unat_eq_0)
  with Cons show ?case by (cases f) simp
qed simp

lemma submit_trades_le:
  assumes "engine_ok b" "submit inc (b, sink) = (r, b', sink')"
  shows "unat (trades r) \<le> unat (filled r)" "unat (filled r) \<le> unat (o_remaining inc)"
proof (atomize (full), cases "o_type inc \<noteq> CANCEL \<and> is_admissible inc")
  case True
  with assms obtain q fs where
    m: "match_side (crosses inc (o_side inc = BUY)) (o_remaining inc) (book_side b (o_side inc \<noteq> BUY)) = (q, fs, book_side b' (o_side inc \<noteq> BUY))"
      "filled r = o_remaining inc - q" "trades r = of_nat (length fs)"
    using submit_matching [OF assms, of thesis] by blast
  note mc = match_side_conserves [OF m(1)]
  have f: "unat (filled r) = fill_total fs" using mc m(2) by (simp add: unat_sub word_le_nat_alt)
  have "\<forall>(mk, x) \<in> set fs. x \<noteq> 0"
    using consumes_fill_pos [OF match_side_consumes [OF m(1)]] assms(1) by (auto simp: engine_ok_def positive_def)
  then have "length fs \<le> fill_total fs" by (rule length_fill_total)
  moreover have "unat (trades r) \<le> length fs" unfolding m(3) by (simp add: unat_of_nat)
  ultimately show "unat (trades r) \<le> unat (filled r) \<and> unat (filled r) \<le> unat (o_remaining inc)" using f mc by simp
next
  case False
  have "trades r = 0 \<and> filled r = 0"
  proof (cases "o_type inc = CANCEL")
    case True
    then show ?thesis using assms(2) by (auto simp: submit_def MatchResult_init_def Let_def split: prod.splits)
  next
    case nc: False
    then show ?thesis using assms(2) False submit_inadmissible_result [OF nc, of b sink] by (auto simp: MatchResult_init_def)
  qed
  then show "unat (trades r) \<le> unat (filled r) \<and> unat (filled r) \<le> unat (o_remaining inc)" by simp
qed

definition pass_inv :: "bench_pass \<Rightarrow> bool" where
  "pass_inv s \<longleftrightarrow> engine_ok (ps_book s) \<and> ps_sink s = ps_fills s + ps_trades s + ps_cxl_hits s"

lemma pass_op_inv:
  assumes "pass_inv s" "unat (o_remaining (op_order x)) < 2 ^ 31"
  shows "pass_inv (pass_op x s)"
proof (cases "op_kind x = OP_SUBMIT")
  case True
  obtain r b log where s: "submit (op_order x) (ps_book s, ps_log s) = (r, b, log)" by (metis prod_cases3)
  have ok: "engine_ok (ps_book s)" using assms(1) by (simp add: pass_inv_def)
  note t = submit_trades_le [OF ok s]
  have "unat (filled r + trades r) = unat (filled r) + unat (trades r)" using t assms(2) by (simp add: unat_word_ariths)
  then have "(ucast (filled r + trades r) :: 64 word) = ucast (filled r) + ucast (trades r)"
    using t assms(2) by (simp add: word_unat_eq_iff unat_word_ariths unsigned_ucast_eq take_bit_nat_eq_self)
  moreover have "engine_ok b" using submit_engine [OF ok, of "op_order x" "ps_log s"] s by simp
  ultimately show ?thesis using assms(1) True s by (simp add: pass_inv_def pass_op_def submit_sink_def algebra_simps)
next
  case False
  then show ?thesis using assms(1) cancel_engine [of "ps_book s" "o_id (op_order x)"] by (simp add: pass_inv_def pass_op_def split_beta)
qed

lemma pass_loop_inv:
  assumes "engine_ok b" "\<forall>x \<in> set ops. unat (o_remaining (op_order x)) < 2 ^ 31"
  shows "pass_inv (pass_loop prefetch ops b)"
proof -
  have "pass_inv s \<Longrightarrow> set js \<subseteq> {..<length ops} \<Longrightarrow> pass_inv (fold (pass_step prefetch ops) js s)" for js s
  proof (induction js arbitrary: s)
    case (Cons i js)
    have "pass_inv (if prefetch then s\<lparr>ps_hints := ps_hints s @ pass_hints ops i (ps_book s)\<rparr> else s)"
      using Cons.prems(1) by (simp add: pass_inv_def)
    then have "pass_inv (pass_step prefetch ops i s)" unfolding pass_step_def using Cons.prems(2) assms(2) by (intro pass_op_inv) simp_all
    then show ?case using Cons by simp
  qed simp
  moreover have "set [0..<length ops] \<subseteq> {..<length ops}" by auto
  ultimately show ?thesis unfolding pass_loop_def using assms(1) by (simp add: pass_inv_def)
qed

section \<open>The hints\<close>

text \<open>An order with the id \<open>k\<close> rests in the node \<open>n\<close> of the pool.\<close>

definition rests_in :: "OrderBook \<Rightarrow> nat \<Rightarrow> OrderId \<Rightarrow> bool" where
  "rests_in b n k \<longleftrightarrow> n < nodes_size b \<and> n \<notin> set (free_nodes b) \<and> (\<exists>s \<in> set (fifo (nodes b n)). o_id (slots (nodes b n) s) = k)"

text \<open>The node of a hint is the one that the order rests in, and there is no hint for an id that does not rest.\<close>

lemma prefetch_node_rests:
  assumes "book_inv b"
  shows "Node_line n \<in> set (prefetch_node k b) \<longleftrightarrow> rests_in b n k"
proof -
  obtain L where L: "book_ok b L" using assms by (rule book_invE)
  note sl = book_okD(4) [OF L] and po = book_okD(3) [OF L]
  have ch: "m \<in> chains L \<longleftrightarrow> m < nodes_size b \<and> m \<notin> set (free_nodes b)" for m
    using po unfolding pool_ok_alt [of b L True] by blast
  show ?thesis
  proof
    assume "Node_line n \<in> set (prefetch_node k b)"
    then have h: "unat k < locators_size b" "se_node (locators b (unat k)) = n" "n \<noteq> INVALID_INDEX" "n < nodes_size b"
      by (auto simp: prefetch_node_def Let_def split: if_splits)
    then obtain m s where m: "m \<in> chains L" "s \<in> set (fifo (nodes b m))" "unat (o_id (slots (nodes b m) s)) = unat k" using slab_live [OF sl] by metis
    then have "o_id (slots (nodes b m) s) = k" by (simp add: word_unat_eq_iff)
    moreover from this have "m = n" using slab_entry [OF sl m(1,2)] h(2) by (simp add: entry_of_def)
    ultimately show "rests_in b n k" using m(1,2) ch unfolding rests_in_def by blast
  next
    assume "rests_in b n k"
    then obtain s where s: "n \<in> chains L" "s \<in> set (fifo (nodes b n))" "o_id (slots (nodes b n) s) = k" using ch unfolding rests_in_def by blast
    then show "Node_line n \<in> set (prefetch_node k b)"
      using slab_entry [OF sl s(1,2)] pool_invalid [OF po, of n] by (simp add: prefetch_node_def entry_of_def Let_def)
  qed
qed

text \<open>
  What the hints before the operation \<open>i\<close> are to be: the slab line of the cancel 24 operations ahead, if its id is one of the slab, and the node line of the order that is cancelled 10 operations
  ahead, if it rests; nothing else, and nothing out of bounds.
\<close>

definition hints_right :: "Op list \<Rightarrow> nat \<Rightarrow> OrderBook \<Rightarrow> bool" where
  "hints_right ops i b \<longleftrightarrow>
     (\<forall>m. Slab_line m \<in> set (pass_hints ops i b) \<longleftrightarrow>
        i + 24 < length ops \<and> op_kind (ops ! (i + 24)) = OP_CANCEL \<and> m = unat (o_id (op_order (ops ! (i + 24)))) \<and> m < locators_size b) \<and>
     (\<forall>n. Node_line n \<in> set (pass_hints ops i b) \<longleftrightarrow>
        i + 10 < length ops \<and> op_kind (ops ! (i + 10)) = OP_CANCEL \<and> rests_in b n (o_id (op_order (ops ! (i + 10)))))"

lemma pass_hints_right:
  assumes "book_inv b"
  shows "hints_right ops i b"
proof -
  have "Node_line n \<notin> set (prefetch_slab j b)" "Slab_line n \<notin> set (prefetch_node j b)" for n j
    by (auto simp: prefetch_slab_def prefetch_node_def Let_def)
  moreover have "Slab_line m \<in> set (prefetch_slab j b) \<longleftrightarrow> m = unat j \<and> m < locators_size b" for m j
    by (auto simp: prefetch_slab_def)
  ultimately show ?thesis using prefetch_node_rests [OF assms]
    by (auto simp: hints_right_def pass_hints_def PF_DIST_SLAB_def PF_DIST_NODE_def Let_def split: if_splits)
qed

text \<open>The hints do not show in anything but the list of hints.\<close>

lemma pass_op_hints: "pass_op x (s\<lparr>ps_hints := h\<rparr>) = (pass_op x s)\<lparr>ps_hints := h\<rparr>" "ps_hints (pass_op x s) = ps_hints s"
  by (simp_all add: pass_op_def Let_def split: prod.splits)

lemma pass_loop_snoc:
  assumes "i < length ops"
  shows "pass_loop False (take (Suc i) ops) b = pass_op (ops ! i) (pass_loop False (take i ops) b)"
proof -
  have "fold (pass_step False (take (Suc i) ops)) [0..<i] s = fold (pass_step False (take i ops)) [0..<i] s" for s
    by (rule fold_cong) (auto simp: pass_step_def fun_eq_iff)
  moreover have "length (take (Suc i) ops) = Suc i" "length (take i ops) = i" "take (Suc i) ops ! i = ops ! i" using assms by simp_all
  ultimately show ?thesis unfolding pass_loop_def by (simp add: pass_step_def del: length_take)
qed

lemma pass_loop_hints:
  "pass_loop True ops b = (pass_loop False ops b)\<lparr>ps_hints := concat (map (\<lambda>i. pass_hints ops i (ps_book (pass_loop False (take i ops) b))) [0..<length ops])\<rparr>"
  "ps_hints (pass_loop False ops b) = []"
proof -
  let ?s = "\<lparr>ps_book = b, ps_log = [], ps_egress = \<lparr>cs_count = 0\<rparr>, ps_sink = 0, ps_fills = 0, ps_trades = 0, ps_cxl_hits = 0, ps_hints = []\<rparr>"
    and ?h = "\<lambda>i. pass_hints ops i (ps_book (pass_loop False (take i ops) b))"
  have "k \<le> length ops \<Longrightarrow> fold (pass_step True ops) [0..<k] ?s = (pass_loop False (take k ops) b)\<lparr>ps_hints := concat (map ?h [0..<k])\<rparr>" for k
  proof (induction k)
    case (Suc k)
    then show ?case by (simp add: pass_loop_snoc pass_step_def pass_op_hints)
  qed (simp add: pass_loop_def)
  from this [of "length ops"]
  show "pass_loop True ops b = (pass_loop False ops b)\<lparr>ps_hints := concat (map ?h [0..<length ops])\<rparr>" by (simp add: pass_loop_def)
  have "k \<le> length ops \<Longrightarrow> ps_hints (pass_loop False (take k ops) b) = []" for k
  proof (induction k)
    case (Suc k)
    then show ?case by (simp add: pass_loop_snoc pass_op_hints)
  qed (simp add: pass_loop_def)
  from this [of "length ops"] show "ps_hints (pass_loop False ops b) = []" by simp
qed

text \<open>
  C21. The pass with prefetch hints computes what the pass without them does, and its hints are the right ones. For operations of less than \<open>2 ^ 31\<close> units each, on the seeded book: the two passes end in the same state, up to the list of
  hints, so that all figures and the test of the checksums agree; before each operation the hints are the slab line of the cancel 24 operations ahead and the node line in which the order cancelled 10 operations ahead rests,
  if it rests, and none is out of bounds; the checksum is the sum of the units filled, the trades and the successful cancels; and the book at
  the end satisfies the invariant of the engine, with \<^verbatim>\<open>book_live\<close> the number of its resting orders.
\<close>

theorem prefetch_neutral:
  assumes "\<forall>x \<in> set ops. unat (o_remaining (op_order x)) < 2 ^ 31" "b = fst (seed_book SEED_ORDERS (mt_seed (SEED_RNG XOR 0xABCDEF)))"
    "s = pass_loop True ops b" "bk = (\<lambda>i. ps_book (pass_loop False (take i ops) b))" "r = run_pass True ops"
  shows "s\<lparr>ps_hints := []\<rparr> = pass_loop False ops b \<and> run_pass False ops = r \<and> ab_rep (pr_checksum (run_pass False ops)) (pr_checksum r) ops rep \<and>
    ps_hints s = concat (map (\<lambda>i. pass_hints ops i (bk i)) [0..<length ops]) \<and> (\<forall>i < length ops. hints_right ops i (bk i)) \<and>
    engine_ok (ps_book s) \<and> pr_book_live r = length (all_orders (book_side (ps_book s) True)) + length (all_orders (book_side (ps_book s) False)) \<and>
    pr_checksum r = pr_fills r + pr_trades r + pr_cxl_hits r"
proof -
  obtain b1 rng n where b1: "seed_book SEED_ORDERS (mt_seed (SEED_RNG XOR 0xABCDEF)) = (b1, rng, n)" by (metis prod_cases3)
  have bb: "b1 = b" using assms(2) b1 by simp
  have ok: "engine_ok b" unfolding assms(2) by (rule seed_book_ok)
  note h = pass_loop_hints [of ops b]
  have eq: "run_pass False ops = r" using h(1) by (simp add: assms(5) run_pass_def b1 bb Let_def)
  have iv: "pass_inv s" unfolding assms(3) by (rule pass_loop_inv [OF ok assms(1)])
  have "book_inv (bk i)" for i
    using pass_loop_inv [OF ok, of "take i ops" False] assms(1) by (auto simp: assms(4) pass_inv_def engine_ok_def dest: in_set_takeD)
  then have "\<forall>i < length ops. hints_right ops i (bk i)" using pass_hints_right by blast
  moreover have "book_inv (ps_book s)" using iv by (simp add: pass_inv_def engine_ok_def)
  from active_orders_exact [OF this] have
    "active_orders (ps_book s) = length (all_orders (book_side (ps_book s) True)) + length (all_orders (book_side (ps_book s) False))" by blast
  moreover have "pr_book_live r = active_orders (ps_book s)" "pr_checksum r = pr_fills r + pr_trades r + pr_cxl_hits r"
    using iv by (simp_all add: assms(3,5) run_pass_def b1 bb Let_def pass_inv_def)
  moreover have "s\<lparr>ps_hints := []\<rparr> = pass_loop False ops b" using h by (simp add: assms(3))
  moreover have "ps_hints s = concat (map (\<lambda>i. pass_hints ops i (bk i)) [0..<length ops])" using h(1) by (simp add: assms(3,4))
  moreover have "ab_rep (pr_checksum (run_pass False ops)) (pr_checksum r) ops rep" using eq by (simp add: ab_rep_def assms(5) Let_def)
  ultimately show ?thesis using eq iv by (simp add: pass_inv_def)
qed

theorem prefetch_neutral_witness:
  "let ops = [\<lparr>op_order = sell5, op_kind = OP_SUBMIT\<rparr>, \<lparr>op_order = sell5, op_kind = OP_CANCEL\<rparr>] in run_pass False ops = run_pass True ops"
proof -
  let ?ops = "[\<lparr>op_order = sell5, op_kind = OP_SUBMIT\<rparr>, \<lparr>op_order = sell5, op_kind = OP_CANCEL\<rparr>]"
  have "\<forall>x \<in> set ?ops. unat (o_remaining (op_order x)) < 2 ^ 31" by (simp add: sell5_def)
  from prefetch_neutral [OF this refl refl refl refl] show ?thesis by (simp add: Let_def)
qed

end
