(* ===== verification/Bench_Pipeline.thy ===== *)
theory Bench_Pipeline
  imports Bench_Matcher Sequencer Spsc_Ring
begin

text \<open>
  The runs of \<^verbatim>\<open>bench/pipeline_bench.cpp\<close> over the same orders: the matcher alone, two threads over the ingress ring, three threads over both rings. The threads are interleaved as in
  \<^verbatim>\<open>Pipeline\<close>: a step is one attempt to publish, one wave, or one phase of a batch. They start behind a barrier, which is where the runs here
  start; the clock is left out. The number of orders is the length of the list, which is \<open>PB_N\<close> in the benchmark.
\<close>

section \<open>Sinks and the inline run\<close>

definition RING_IN_BITS :: nat where
  "RING_IN_BITS = 16"

definition RING_OUT_BITS :: nat where
  "RING_OUT_BITS = 18"

definition PB_MAX_NODES :: nat where
  "PB_MAX_NODES = 2 ^ 16"

definition PB_ID_CAP :: nat where
  "PB_ID_CAP = PB_N + 64"

definition bench_hash_trade :: "TradeEvent \<Rightarrow> 64 word" where
  "bench_hash_trade t = te_taker_id t + te_maker_id t + of_int (te_price t) + ucast (te_quantity t)"

record ChecksumSink =
  ck_chk :: "64 word"

definition checksum_try_publish :: "TradeEvent \<Rightarrow> ChecksumSink \<Rightarrow> ChecksumSink" where
  "checksum_try_publish t s = s\<lparr>ck_chk := ck_chk s + bench_hash_trade t\<rparr>"

definition buffer_try_publish :: "TradeEvent \<Rightarrow> TradeEvent list \<Rightarrow> TradeEvent list" where
  "buffer_try_publish t buf = buf @ [t]"

definition bench_book :: OrderBook where
  "bench_book = book_init PB_MAX_NODES PB_ID_CAP (2 ^ 16)"

definition run_inline :: "Order list \<Rightarrow> 64 word" where
  "run_inline orders =
     (let (b, log, sink) = fold (\<lambda>i st. let o' = (orders ! i)\<lparr>o_seq := of_nat i\<rparr> in snd (submit_sink checksum_try_publish o' st))
        [0..<length orders] (bench_book, [], \<lparr>ck_chk = 0\<rparr>)
      in ck_chk sink)"

section \<open>The ingress side, which both runs with threads have\<close>

text \<open>The sequencer's index, the ring, the locals of the matcher's \<^verbatim>\<open>consume_batch\<close>, and its count of consumed orders.\<close>

record ingress_feed =
  fd_i :: nat
  fd_ring :: "Order SpscRing"
  fd_seq :: "64 word"
  fd_avail :: "64 word"
  fd_c :: "64 word"

definition feed_init :: ingress_feed where
  "feed_init = \<lparr>fd_i = 0, fd_ring = spsc_init Order_zero, fd_seq = 0, fd_avail = 0, fd_c = 0\<rparr>"

definition feed_publish :: "Order list \<Rightarrow> ingress_feed \<Rightarrow> ingress_feed" where
  "feed_publish orders f =
     (if fd_i f < length orders then
        let o' = (orders ! fd_i f)\<lparr>o_seq := of_nat (fd_i f)\<rparr>;
            (ok, r) = spsc_try_publish RING_IN_BITS o' (fd_ring f)
        in f\<lparr>fd_ring := r, fd_i := (if ok then Suc (fd_i f) else fd_i f)\<rparr>
      else f)"

definition feed_open :: "ingress_feed \<Rightarrow> ingress_feed" where
  "feed_open f = (let (avail, r) = spsc_batch_open (fd_ring f) in f\<lparr>fd_ring := r, fd_avail := avail\<rparr>)"

definition feed_item :: "ingress_feed \<Rightarrow> Order" where
  "feed_item f = spsc_batch_item RING_IN_BITS (fd_seq f) (fd_ring f)"

definition feed_close :: "ingress_feed \<Rightarrow> ingress_feed" where
  "feed_close f = f\<lparr>fd_ring := spsc_batch_close (fd_seq f) (fd_ring f), fd_c := fd_c f + (fd_seq f - sp_next (fd_ring f))\<rparr>"

section \<open>Two threads\<close>

record bench2 =
  b2_feed :: ingress_feed
  b2_engine :: "OrderBook \<times> TradeEvent list \<times> ChecksumSink"
  b2_out_chk :: "64 word"
  b2_done :: bool

definition bench2_init :: bench2 where
  "bench2_init = \<lparr>b2_feed = feed_init, b2_engine = (bench_book, [], \<lparr>ck_chk = 0\<rparr>), b2_out_chk = 0, b2_done = False\<rparr>"

definition bench2_sequencer :: "Order list \<Rightarrow> bench2 \<Rightarrow> bench2" where
  "bench2_sequencer orders s = s\<lparr>b2_feed := feed_publish orders (b2_feed s)\<rparr>"

definition bench2_matcher :: "nat \<Rightarrow> bench2 \<Rightarrow> bench2" where
  "bench2_matcher n s =
     (let f = b2_feed s in
      if b2_done s then s
      else if fd_seq f \<noteq> fd_avail f then
        s\<lparr>b2_feed := f\<lparr>fd_seq := fd_seq f + 1\<rparr>, b2_engine := snd (submit_sink checksum_try_publish (feed_item f) (b2_engine s))\<rparr>
      else if fd_seq f \<noteq> sp_next (fd_ring f) then s\<lparr>b2_feed := feed_close f\<rparr>
      else if fd_c f < of_nat n then s\<lparr>b2_feed := feed_open f\<rparr>
      else s\<lparr>b2_out_chk := ck_chk (snd (snd (b2_engine s))), b2_done := True\<rparr>)"

inductive bench2_step :: "Order list \<Rightarrow> bench2 \<Rightarrow> bench2 \<Rightarrow> bool" for orders where
  sequencer: "bench2_step orders s (bench2_sequencer orders s)"
| matcher: "bench2_step orders s (bench2_matcher (length orders) s)"

section \<open>Three threads\<close>

text \<open>
  \<open>b3_out\<close> is what is left of the batch that the matcher gave to \<^verbatim>\<open>egress.publish_batch\<close>; \<open>b3_empty\<close> says that the publisher's last \<^verbatim>\<open>consume_batch\<close> returned 0 and the
  test for the end of its loop comes next.
\<close>

record bench3 =
  b3_feed :: ingress_feed
  b3_engine :: "OrderBook \<times> TradeEvent list \<times> TradeEvent list"
  b3_out :: "TradeEvent list"
  b3_matcher_done :: bool
  b3_egress :: "TradeEvent SpscRing"
  b3_seq :: "64 word"
  b3_avail :: "64 word"
  b3_empty :: bool
  b3_chk :: "64 word"
  b3_pub_chk :: "64 word"
  b3_done :: bool

definition bench3_init :: bench3 where
  "bench3_init = \<lparr>b3_feed = feed_init, b3_engine = (bench_book, [], []), b3_out = [], b3_matcher_done = False,
     b3_egress = spsc_init (reject_event Order_zero), b3_seq = 0, b3_avail = 0, b3_empty = False, b3_chk = 0, b3_pub_chk = 0, b3_done = False\<rparr>"

definition bench3_sequencer :: "Order list \<Rightarrow> bench3 \<Rightarrow> bench3" where
  "bench3_sequencer orders s = s\<lparr>b3_feed := feed_publish orders (b3_feed s)\<rparr>"

definition bench3_matcher :: "nat \<Rightarrow> bench3 \<Rightarrow> bench3" where
  "bench3_matcher n s =
     (let f = b3_feed s; (b, log, local_trades) = b3_engine s in
      if b3_matcher_done s then s
      else if b3_out s \<noteq> [] then
        let (t, r) = spsc_publish_wave RING_OUT_BITS (b3_out s) (b3_egress s) in s\<lparr>b3_egress := r, b3_out := drop t (b3_out s)\<rparr>
      else if fd_seq f \<noteq> fd_avail f then
        s\<lparr>b3_feed := f\<lparr>fd_seq := fd_seq f + 1\<rparr>, b3_engine := snd (submit_sink buffer_try_publish (feed_item f) (b, log, local_trades))\<rparr>
      else if fd_seq f \<noteq> sp_next (fd_ring f) then s\<lparr>b3_feed := feed_close f\<rparr>
      else if local_trades \<noteq> [] then s\<lparr>b3_out := local_trades, b3_engine := (b, log, [])\<rparr>
      else if fd_c f < of_nat n then s\<lparr>b3_feed := feed_open f\<rparr>
      else s\<lparr>b3_matcher_done := True\<rparr>)"

definition bench3_publisher :: "bench3 \<Rightarrow> bench3" where
  "bench3_publisher s =
     (if b3_done s then s
      else if b3_seq s \<noteq> b3_avail s then
        s\<lparr>b3_chk := b3_chk s + bench_hash_trade (spsc_batch_item RING_OUT_BITS (b3_seq s) (b3_egress s)), b3_seq := b3_seq s + 1\<rparr>
      else if b3_seq s \<noteq> sp_next (b3_egress s) then s\<lparr>b3_egress := spsc_batch_close (b3_seq s) (b3_egress s)\<rparr>
      else if b3_empty s then
        if b3_matcher_done s \<and> spsc_empty_approx (b3_egress s) then s\<lparr>b3_pub_chk := b3_chk s, b3_done := True\<rparr>
        else s\<lparr>b3_empty := False\<rparr>
      else
        let (avail, r) = spsc_batch_open (b3_egress s)
        in s\<lparr>b3_egress := r, b3_avail := avail, b3_empty := (avail = sp_next (b3_egress s))\<rparr>)"

inductive bench3_step :: "Order list \<Rightarrow> bench3 \<Rightarrow> bench3 \<Rightarrow> bool" for orders where
  sequencer: "bench3_step orders s (bench3_sequencer orders s)"
| matcher: "bench3_step orders s (bench3_matcher (length orders) s)"
| publisher: "bench3_step orders s (bench3_publisher s)"

text \<open>The test of \<^verbatim>\<open>main\<close> for its verdict \<^verbatim>\<open>MATCH\<close>.\<close>

definition checksums_match :: "64 word \<Rightarrow> 64 word \<Rightarrow> 64 word \<Rightarrow> bool" where
  "checksums_match chk_inline chk_2t chk_3t \<longleftrightarrow> chk_inline = chk_2t \<and> chk_2t = chk_3t"

section \<open>The ingress side\<close>

lemma ring_bits_ok: "0 < RING_IN_BITS" "RING_IN_BITS < 64" "0 < RING_OUT_BITS" "RING_OUT_BITS < 64"
  by (simp_all add: RING_IN_BITS_def RING_OUT_BITS_def)

text \<open>What was handled and what can still be read is what was published, with its sequence numbers; the count lags by the open batch.\<close>

definition feed_inv :: "Order list \<Rightarrow> Order list \<Rightarrow> ingress_feed \<Rightarrow> bool" where
  "feed_inv orders handled f \<longleftrightarrow> spsc_reading RING_IN_BITS (fd_seq f) (fd_avail f) (fd_ring f) \<and> fd_i f \<le> length orders \<and>
     handled @ spsc_unread RING_IN_BITS (fd_seq f) (fd_ring f) = stamp 0 (take (fd_i f) orders) \<and>
     unat (fd_c f) + unat (fd_seq f - sp_next (fd_ring f)) = length handled"

definition feed_weight :: "Order list \<Rightarrow> ingress_feed \<Rightarrow> nat" where
  "feed_weight orders f = 3 * (length orders - fd_i f) + ring_weight RING_IN_BITS (fd_seq f) (fd_avail f) (fd_ring f)"

definition feed_open_batch :: "ingress_feed \<Rightarrow> nat" where
  "feed_open_batch f = open_batch (fd_seq f) (fd_ring f)"

lemma feed_inv_init: "feed_inv orders [] feed_init"
  using spsc_init_reading [of RING_IN_BITS Order_zero] ring_bits_ok by (simp add: feed_inv_def feed_init_def spsc_init_def)

lemma feed_inv_length:
  assumes "feed_inv orders handled f"
  shows "length handled + length (spsc_unread RING_IN_BITS (fd_seq f) (fd_ring f)) = fd_i f" "fd_i f \<le> length orders" "length handled \<le> length orders"
proof -
  have "handled @ spsc_unread RING_IN_BITS (fd_seq f) (fd_ring f) = stamp 0 (take (fd_i f) orders)" "fd_i f \<le> length orders"
    using assms by (simp_all add: feed_inv_def)
  from this(2) arg_cong [OF this(1), of length]
  show "length handled + length (spsc_unread RING_IN_BITS (fd_seq f) (fd_ring f)) = fd_i f" "fd_i f \<le> length orders" "length handled \<le> length orders"
    by simp_all
qed

lemma feed_publish_inv:
  assumes "feed_inv orders handled f"
  shows "feed_inv orders handled (feed_publish orders f)"
proof (cases "fd_i f < length orders")
  case True
  let ?o = "(orders ! fd_i f)\<lparr>o_seq := of_nat (fd_i f)\<rparr>"
  obtain ok r where t: "spsc_try_publish RING_IN_BITS ?o (fd_ring f) = (ok, r)" by force
  have f: "spsc_reading RING_IN_BITS (fd_seq f) (fd_avail f) (fd_ring f)" using assms by (simp add: feed_inv_def)
  have "take (Suc (fd_i f)) orders = take (fd_i f) orders @ [orders ! fd_i f]" using True by (simp add: take_Suc_conv_app_nth)
  then have "stamp 0 (take (Suc (fd_i f)) orders) = stamp 0 (take (fd_i f) orders) @ [?o]" using True by (simp add: stamp_append)
  moreover have "feed_publish orders f = f\<lparr>fd_ring := r, fd_i := (if ok then Suc (fd_i f) else fd_i f)\<rparr>"
    using True t by (simp add: feed_publish_def Let_def)
  ultimately show ?thesis using assms spsc_reading_push [OF f t] True by (auto simp: feed_inv_def simp flip: append_assoc)
qed (use assms in \<open>simp add: feed_publish_def\<close>)

lemma feed_item_inv:
  assumes "feed_inv orders handled f" "fd_seq f \<noteq> fd_avail f"
  shows "feed_inv orders (handled @ [feed_item f]) (f\<lparr>fd_seq := fd_seq f + 1\<rparr>)"
proof -
  have f: "spsc_reading RING_IN_BITS (fd_seq f) (fd_avail f) (fd_ring f)" using assms(1) by (simp add: feed_inv_def)
  note it = spsc_batch_item [OF f assms(2)]
  show ?thesis using assms(1) it by (simp add: feed_inv_def feed_item_def)
qed

lemma feed_close_inv:
  assumes "feed_inv orders handled f" "fd_seq f = fd_avail f" "length orders < 2 ^ 64"
  shows "feed_inv orders handled (feed_close f)" "unat (fd_c (feed_close f)) = length handled"
proof -
  have f: "spsc_reading RING_IN_BITS (fd_seq f) (fd_seq f) (fd_ring f)" using assms(1,2) by (simp add: feed_inv_def)
  have "unat (fd_c f) + unat (fd_seq f - sp_next (fd_ring f)) < 2 ^ 64"
    using feed_inv_length [OF assms(1)] assms(1,3) by (simp add: feed_inv_def)
  then show "unat (fd_c (feed_close f)) = length handled"
    using assms(1) by (simp add: feed_close_def feed_inv_def unat_word_ariths)
  then show "feed_inv orders handled (feed_close f)"
    using assms(1,2) spsc_batch_closed [OF f] spsc_batch_close(3) [OF f] by (simp add: feed_inv_def feed_close_def)
qed

lemma feed_open_inv:
  assumes "feed_inv orders handled f" "fd_seq f = sp_next (fd_ring f)"
  shows "feed_inv orders handled (feed_open f)"
proof -
  obtain a r where o: "spsc_batch_open (fd_ring f) = (a, r)" by force
  have "spsc_ok RING_IN_BITS (fd_ring f)" using assms(1) spsc_reading_ok by (auto simp: feed_inv_def)
  note op = spsc_batch_open [OF this o]
  have "spsc_unread RING_IN_BITS (fd_seq f) r = spsc_unread RING_IN_BITS (fd_seq f) (fd_ring f)" using op(2,3) by (simp add: spsc_unread_def)
  then show ?thesis using assms op o by (simp add: feed_inv_def feed_open_def)
qed

text \<open>When the count has reached the number of orders, all of them have been handled.\<close>

lemma feed_finished:
  assumes "feed_inv orders handled f" "fd_seq f = sp_next (fd_ring f)" "\<not> fd_c f < of_nat (length orders)" "length orders < 2 ^ 64"
  shows "handled = stamp 0 orders" "spsc_unread RING_IN_BITS (fd_seq f) (fd_ring f) = []"
proof -
  let ?u = "spsc_unread RING_IN_BITS (fd_seq f) (fd_ring f)"
  have "unat (of_nat (length orders) :: 64 word) = length orders" using assms(4) by (simp add: unat_of_nat take_bit_nat_eq_self)
  then have "length orders \<le> length handled" using assms(1-3) by (simp add: feed_inv_def not_less word_le_nat_alt)
  then have len: "length ?u = 0" "fd_i f = length orders" using feed_inv_length [OF assms(1)] by linarith+
  then show u: "?u = []" by simp
  have "handled @ ?u = stamp 0 (take (fd_i f) orders)" using assms(1) by (simp add: feed_inv_def)
  then show "handled = stamp 0 orders" using len(2) u by simp
qed

section \<open>The matcher in the runs\<close>

definition bench_run :: "Order list \<Rightarrow> OrderBook \<times> TradeEvent list" where
  "bench_run os = run_submits os (bench_book, [])"

definition trade_checksum :: "TradeEvent list \<Rightarrow> 64 word" where
  "trade_checksum ts = sum_list (map bench_hash_trade ts)"

lemma trade_checksum_simps [simp]:
  "trade_checksum [] = 0" "trade_checksum (ts @ us) = trade_checksum ts + trade_checksum us" "trade_checksum [t] = bench_hash_trade t"
  by (simp_all add: trade_checksum_def)

lemma bench_book_ok: "engine_ok bench_book"
  unfolding bench_book_def by (rule book_init_engine) (simp add: PB_MAX_NODES_def)

lemma bench_run_simps [simp]: "bench_run [] = (bench_book, [])" "bench_run (os @ [o']) = snd (submit o' (bench_run os))"
  by (simp_all add: bench_run_def)

lemma bench_run_ok: "engine_ok (fst (bench_run os))"
proof (induction os rule: rev_induct)
  case (snoc o' os)
  then show ?case using submit_engine [of "fst (bench_run os)" o' "snd (bench_run os)"] by simp
qed (simp add: bench_book_ok)

text \<open>A submission adds its events to the log and gives exactly these to the sink.\<close>

lemma submit_sink_run:
  assumes "bench_run os = (b, log)" "submit_sink put o' (b, log, s) = (r, b', log', s')"
  obtains evs where "bench_run (os @ [o']) = (b', log')" "log' = log @ evs" "s' = fold put evs s"
proof -
  obtain log2 where sb: "submit o' (b, log) = (r, b', log2)" "log' = log2" "s' = fold put (drop (length log) log2) s"
    using assms(2) by (auto simp: submit_sink_def split: prod.splits)
  have "engine_ok b" using bench_run_ok [of os] assms(1) by simp
  from this sb(1) obtain evs where "log2 = log @ evs" by (rule submit_book)
  then show thesis using that [of evs] sb assms(1) by simp
qed

lemma fold_checksum: "ck_chk (fold checksum_try_publish ts s) = ck_chk s + trade_checksum ts"
  by (induction ts arbitrary: s) (simp_all add: checksum_try_publish_def trade_checksum_def)

lemma fold_buffer: "fold buffer_try_publish ts buf = buf @ ts"
  by (induction ts arbitrary: buf) (simp_all add: buffer_try_publish_def)

definition checksum_engine :: "Order list \<Rightarrow> OrderBook \<times> TradeEvent list \<times> ChecksumSink \<Rightarrow> bool" where
  "checksum_engine handled = (\<lambda>(b, log, s). bench_run handled = (b, log) \<and> ck_chk s = trade_checksum log)"

lemma checksum_engine_init: "checksum_engine [] (bench_book, [], \<lparr>ck_chk = 0\<rparr>)"
  by (simp add: checksum_engine_def)

lemma checksum_engine_submit:
  assumes "checksum_engine handled e"
  shows "checksum_engine (handled @ [o']) (snd (submit_sink checksum_try_publish o' e))"
proof -
  obtain b log s where e: "e = (b, log, s)" by (metis prod_cases3)
  obtain r b' log' s' where ss: "submit_sink checksum_try_publish o' (b, log, s) = (r, b', log', s')" by (metis prod_cases4)
  have "bench_run handled = (b, log)" using assms e by (simp add: checksum_engine_def)
  from this ss obtain evs where "bench_run (handled @ [o']) = (b', log')" "log' = log @ evs" "s' = fold checksum_try_publish evs s"
    by (rule submit_sink_run)
  then show ?thesis using assms e ss by (simp add: checksum_engine_def fold_checksum)
qed

lemma checksum_engine_final: "checksum_engine os e \<Longrightarrow> ck_chk (snd (snd e)) = trade_checksum (snd (bench_run os))"
  by (auto simp: checksum_engine_def)

lemma stamped_list: "map (\<lambda>i. (orders ! i)\<lparr>o_seq := of_nat i\<rparr>) [0..<length orders] = stamp 0 orders"
  by (rule nth_equalityI) (simp_all add: stamp_nth)

lemma run_inline_checksum: "run_inline orders = trade_checksum (snd (bench_run (stamp 0 orders)))"
proof -
  let ?step = "\<lambda>o' st. snd (submit_sink checksum_try_publish o' st)"
  have "checksum_engine hs e \<Longrightarrow> checksum_engine (hs @ os) (fold ?step os e)" for hs os e
  proof (induction os arbitrary: hs e)
    case (Cons o' os)
    from Cons.IH [OF checksum_engine_submit [OF Cons.prems]] show ?case by simp
  qed simp
  from this [OF checksum_engine_init] have "checksum_engine (stamp 0 orders) (fold ?step (stamp 0 orders) (bench_book, [], \<lparr>ck_chk = 0\<rparr>))" by simp
  then have "ck_chk (snd (snd (fold ?step (stamp 0 orders) (bench_book, [], \<lparr>ck_chk = 0\<rparr>)))) = trade_checksum (snd (bench_run (stamp 0 orders)))"
    by (rule checksum_engine_final)
  then show ?thesis by (simp add: run_inline_def Let_def split_beta fold_map comp_def flip: stamped_list)
qed

section \<open>Two threads compute the same\<close>

definition bench2_inv :: "Order list \<Rightarrow> bench2 \<Rightarrow> bool" where
  "bench2_inv orders s \<longleftrightarrow> (\<exists>handled. feed_inv orders handled (b2_feed s) \<and> checksum_engine handled (b2_engine s)) \<and>
     (b2_done s \<longrightarrow> b2_out_chk s = trade_checksum (snd (bench_run (stamp 0 orders))))"

lemma bench2_inv_step:
  assumes "bench2_step orders s s'" "bench2_inv orders s" "length orders < 2 ^ 64"
  shows "bench2_inv orders s'"
  using assms(1)
proof cases
  case sequencer
  then show ?thesis using assms(2) feed_publish_inv by (auto simp: bench2_inv_def bench2_sequencer_def)
next
  case matcher
  let ?f = "b2_feed s"
  obtain handled where h: "feed_inv orders handled ?f" "checksum_engine handled (b2_engine s)" using assms(2) by (auto simp: bench2_inv_def)
  consider (stop) "b2_done s" | (item) "\<not> b2_done s" "fd_seq ?f \<noteq> fd_avail ?f"
    | (close) "\<not> b2_done s" "fd_seq ?f = fd_avail ?f" "fd_seq ?f \<noteq> sp_next (fd_ring ?f)"
    | (take) "\<not> b2_done s" "fd_seq ?f = fd_avail ?f" "fd_seq ?f = sp_next (fd_ring ?f)" "fd_c ?f < of_nat (length orders)"
    | (finish) "\<not> b2_done s" "fd_seq ?f = fd_avail ?f" "fd_seq ?f = sp_next (fd_ring ?f)" "\<not> fd_c ?f < of_nat (length orders)" by blast
  then show ?thesis
  proof cases
    case stop
    then show ?thesis using matcher assms(2) by (simp add: bench2_matcher_def Let_def)
  next
    case item
    then show ?thesis using matcher feed_item_inv [OF h(1) item(2)] checksum_engine_submit [OF h(2), of "feed_item ?f"]
      by (auto simp: bench2_inv_def bench2_matcher_def Let_def)
  next
    case close
    then show ?thesis using matcher feed_close_inv(1) [OF h(1) close(2) assms(3)] h(2) by (auto simp: bench2_inv_def bench2_matcher_def Let_def)
  next
    case take
    then show ?thesis using matcher feed_open_inv [OF h(1) take(3)] h(2) by (auto simp: bench2_inv_def bench2_matcher_def Let_def)
  next
    case finish
    have "handled = stamp 0 orders" by (rule feed_finished [OF h(1) finish(3,4) assms(3)])
    then have "ck_chk (snd (snd (b2_engine s))) = trade_checksum (snd (bench_run (stamp 0 orders)))" using checksum_engine_final [OF h(2)] by simp
    then show ?thesis using matcher finish h by (auto simp: bench2_inv_def bench2_matcher_def Let_def)
  qed
qed

lemma bench2_steps_inv: "(bench2_step orders)\<^sup>*\<^sup>* s s' \<Longrightarrow> bench2_inv orders s \<Longrightarrow> length orders < 2 ^ 64 \<Longrightarrow> bench2_inv orders s'"
  by (induction rule: rtranclp_induct) (auto intro: bench2_inv_step)

lemma bench2_inv_init: "bench2_inv orders bench2_init"
  using feed_inv_init [of orders] checksum_engine_init by (auto simp: bench2_inv_def bench2_init_def)

section \<open>Three threads compute the same\<close>

text \<open>What the matcher has emitted was folded into the checksum, or is in the egress ring, in the batch being published, or in the local buffer.\<close>

definition bench3_rel :: "Order list \<Rightarrow> Order list \<Rightarrow> TradeEvent list \<Rightarrow> bench3 \<Rightarrow> bool" where
  "bench3_rel orders handled seen s \<longleftrightarrow> (let (b, log, local_trades) = b3_engine s in
     feed_inv orders handled (b3_feed s) \<and> bench_run handled = (b, log) \<and>
     spsc_reading RING_OUT_BITS (b3_seq s) (b3_avail s) (b3_egress s) \<and>
     log = seen @ spsc_unread RING_OUT_BITS (b3_seq s) (b3_egress s) @ b3_out s @ local_trades \<and> b3_chk s = trade_checksum seen \<and>
     (b3_matcher_done s \<longrightarrow> handled = stamp 0 orders \<and> b3_out s = [] \<and> local_trades = []) \<and>
     (b3_done s \<longrightarrow> b3_pub_chk s = trade_checksum (snd (bench_run (stamp 0 orders)))))"

definition bench3_inv :: "Order list \<Rightarrow> bench3 \<Rightarrow> bool" where
  "bench3_inv orders s \<longleftrightarrow> (\<exists>handled seen. bench3_rel orders handled seen s)"

lemma bench3_inv_init: "bench3_inv orders bench3_init"
proof -
  have "bench3_rel orders [] [] bench3_init"
    using feed_inv_init [of orders] spsc_init_reading [of RING_OUT_BITS "reject_event Order_zero"] ring_bits_ok by (simp add: bench3_rel_def bench3_init_def)
  then show ?thesis by (auto simp: bench3_inv_def)
qed

lemma bench3_matcher_inv:
  assumes rel: "bench3_rel orders handled seen s" and n: "length orders < 2 ^ 64"
  shows "bench3_inv orders (bench3_matcher (length orders) s)"
proof -
  let ?f = "b3_feed s" and ?s' = "bench3_matcher (length orders) s"
  obtain b log lt where e: "b3_engine s = (b, log, lt)" by (metis prod_cases3)
  have f: "feed_inv orders handled ?f" and run: "bench_run handled = (b, log)"
    and rd: "spsc_reading RING_OUT_BITS (b3_seq s) (b3_avail s) (b3_egress s)"
    and lg: "log = seen @ spsc_unread RING_OUT_BITS (b3_seq s) (b3_egress s) @ b3_out s @ lt"
    using rel e by (auto simp: bench3_rel_def)
  consider (stop) "b3_matcher_done s" | (wave) "\<not> b3_matcher_done s" "b3_out s \<noteq> []"
    | (item) "\<not> b3_matcher_done s" "b3_out s = []" "fd_seq ?f \<noteq> fd_avail ?f"
    | (close) "\<not> b3_matcher_done s" "b3_out s = []" "fd_seq ?f = fd_avail ?f" "fd_seq ?f \<noteq> sp_next (fd_ring ?f)"
    | (flush) "\<not> b3_matcher_done s" "b3_out s = []" "fd_seq ?f = fd_avail ?f" "fd_seq ?f = sp_next (fd_ring ?f)" "lt \<noteq> []"
    | (take) "\<not> b3_matcher_done s" "b3_out s = []" "fd_seq ?f = fd_avail ?f" "fd_seq ?f = sp_next (fd_ring ?f)" "lt = []" "fd_c ?f < of_nat (length orders)"
    | (finish) "\<not> b3_matcher_done s" "b3_out s = []" "fd_seq ?f = fd_avail ?f" "fd_seq ?f = sp_next (fd_ring ?f)" "lt = []" "\<not> fd_c ?f < of_nat (length orders)"
    by blast
  then have "\<exists>handled'. bench3_rel orders handled' seen ?s'"
  proof cases
    case stop
    then show ?thesis using rel e by (auto simp: bench3_matcher_def)
  next
    case wave
    obtain t r where w: "spsc_publish_wave RING_OUT_BITS (b3_out s) (b3_egress s) = (t, r)" by force
    note sw = spsc_reading_wave [OF rd w]
    have "log = seen @ spsc_unread RING_OUT_BITS (b3_seq s) r @ drop t (b3_out s) @ lt"
      using lg sw(2) append_take_drop_id [of t "b3_out s"] by (metis append.assoc)
    then show ?thesis using wave w sw(1) rel e by (auto simp: bench3_matcher_def bench3_rel_def)
  next
    case item
    obtain r b' log' lt' where ss: "submit_sink buffer_try_publish (feed_item ?f) (b, log, lt) = (r, b', log', lt')" by (metis prod_cases4)
    from run ss obtain evs where evs: "bench_run (handled @ [feed_item ?f]) = (b', log')" "log' = log @ evs" "lt' = fold buffer_try_publish evs lt"
      by (rule submit_sink_run)
    have "bench3_rel orders (handled @ [feed_item ?f]) seen ?s'"
      using item rel e ss evs feed_item_inv [OF f item(3)] by (simp add: bench3_matcher_def bench3_rel_def fold_buffer Let_def)
    then show ?thesis by blast
  next
    case close
    then show ?thesis using rel e feed_close_inv(1) [OF f close(3) n] by (auto simp: bench3_matcher_def bench3_rel_def)
  next
    case flush
    then show ?thesis using rel e by (auto simp: bench3_matcher_def bench3_rel_def)
  next
    case take
    then show ?thesis using rel e feed_open_inv [OF f take(4)] by (auto simp: bench3_matcher_def bench3_rel_def)
  next
    case finish
    then show ?thesis using rel e feed_finished(1) [OF f finish(4,6) n] by (auto simp: bench3_matcher_def bench3_rel_def)
  qed
  then show ?thesis by (auto simp: bench3_inv_def)
qed

lemma bench3_publisher_inv:
  assumes rel: "bench3_rel orders handled seen s"
  shows "bench3_inv orders (bench3_publisher s)"
proof -
  let ?e = "b3_egress s"
  obtain b log lt where e: "b3_engine s = (b, log, lt)" by (metis prod_cases3)
  have run: "bench_run handled = (b, log)" and rd: "spsc_reading RING_OUT_BITS (b3_seq s) (b3_avail s) ?e"
    and lg: "log = seen @ spsc_unread RING_OUT_BITS (b3_seq s) ?e @ b3_out s @ lt"
    and md: "b3_matcher_done s \<longrightarrow> handled = stamp 0 orders \<and> b3_out s = [] \<and> lt = []"
    using rel e by (auto simp: bench3_rel_def)
  consider (stop) "b3_done s" | (item) "\<not> b3_done s" "b3_seq s \<noteq> b3_avail s"
    | (close) "\<not> b3_done s" "b3_seq s = b3_avail s" "b3_seq s \<noteq> sp_next ?e"
    | (finish) "\<not> b3_done s" "b3_seq s = b3_avail s" "b3_seq s = sp_next ?e" "b3_empty s" "b3_matcher_done s" "spsc_empty_approx ?e"
    | (again) "\<not> b3_done s" "b3_seq s = b3_avail s" "b3_seq s = sp_next ?e" "b3_empty s" "\<not> (b3_matcher_done s \<and> spsc_empty_approx ?e)"
    | (take) "\<not> b3_done s" "b3_seq s = b3_avail s" "b3_seq s = sp_next ?e" "\<not> b3_empty s" by blast
  then have "\<exists>seen'. bench3_rel orders handled seen' (bench3_publisher s)"
  proof cases
    case stop
    then show ?thesis using rel by (auto simp: bench3_publisher_def)
  next
    case item
    have "bench3_rel orders handled (seen @ [spsc_batch_item RING_OUT_BITS (b3_seq s) ?e]) (bench3_publisher s)"
      using item rel e spsc_batch_item [OF rd item(2)] by (simp add: bench3_publisher_def bench3_rel_def)
    then show ?thesis by blast
  next
    case close
    then show ?thesis using rel e spsc_batch_closed [of RING_OUT_BITS "b3_seq s" ?e] rd by (auto simp: bench3_publisher_def bench3_rel_def)
  next
    case finish
    have "spsc_contents RING_OUT_BITS ?e = []" using finish(6) spsc_empty_contents by blast
    then have "spsc_unread RING_OUT_BITS (b3_seq s) ?e = []" by (simp add: spsc_unread_def)
    then have "seen = snd (bench_run (stamp 0 orders))" using lg md run finish(5) by simp
    then show ?thesis using finish rel e by (auto simp: bench3_publisher_def bench3_rel_def)
  next
    case again
    then show ?thesis using rel e by (auto simp: bench3_publisher_def bench3_rel_def)
  next
    case take
    obtain a r where o: "spsc_batch_open ?e = (a, r)" by force
    note op = spsc_batch_open [OF spsc_reading_ok [OF rd] o]
    have "spsc_unread RING_OUT_BITS (b3_seq s) r = spsc_unread RING_OUT_BITS (b3_seq s) ?e" using op(2,3) by (simp add: spsc_unread_def)
    then show ?thesis using take rel e o op(1) by (auto simp: bench3_publisher_def bench3_rel_def)
  qed
  then show ?thesis by (auto simp: bench3_inv_def)
qed

lemma bench3_inv_step:
  assumes "bench3_step orders s s'" "bench3_inv orders s" "length orders < 2 ^ 64"
  shows "bench3_inv orders s'"
  using assms(1)
proof cases
  case sequencer
  then show ?thesis using assms(2) feed_publish_inv [of orders _ "b3_feed s"] by (fastforce simp: bench3_inv_def bench3_rel_def bench3_sequencer_def)
next
  case matcher
  then show ?thesis using assms(2,3) bench3_matcher_inv by (auto simp: bench3_inv_def)
next
  case publisher
  then show ?thesis using assms(2) bench3_publisher_inv by (auto simp: bench3_inv_def)
qed

lemma bench3_steps_inv: "(bench3_step orders)\<^sup>*\<^sup>* s s' \<Longrightarrow> bench3_inv orders s \<Longrightarrow> length orders < 2 ^ 64 \<Longrightarrow> bench3_inv orders s'"
  by (induction rule: rtranclp_induct) (auto intro: bench3_inv_step)

section \<open>Both runs end\<close>

lemma feed_publish_progress:
  assumes "feed_inv orders handled f" "spsc_contents RING_IN_BITS (fd_ring f) = []" "fd_i f < length orders"
  shows "feed_weight orders (feed_publish orders f) < feed_weight orders f"
proof -
  let ?o = "(orders ! fd_i f)\<lparr>o_seq := of_nat (fd_i f)\<rparr>"
  obtain ok r where t: "spsc_try_publish RING_IN_BITS ?o (fd_ring f) = (ok, r)" by force
  have f: "spsc_reading RING_IN_BITS (fd_seq f) (fd_avail f) (fd_ring f)" using assms(1) by (simp add: feed_inv_def)
  note p = spsc_publish [OF spsc_reading_ok [OF f], of ?o, unfolded t] and sp = spsc_reading_push [OF f t]
  have ok: ok using sp(4) assms(2) by simp
  have "ring_weight RING_IN_BITS (fd_seq f) (fd_avail f) r = ring_weight RING_IN_BITS (fd_seq f) (fd_avail f) (fd_ring f) + 2 * length [?o]"
    by (rule ring_weight_extend(1) [OF f _ sp(3)]) (use p ok in simp_all)
  then show ?thesis using t ok assms(3) by (simp add: feed_publish_def feed_weight_def Let_def)
qed

lemma feed_item_progress: "feed_inv orders handled f \<Longrightarrow> fd_seq f \<noteq> fd_avail f \<Longrightarrow> feed_weight orders (f\<lparr>fd_seq := fd_seq f + 1\<rparr>) < feed_weight orders f"
  using ring_weight_item [of RING_IN_BITS "fd_seq f" "fd_avail f" "fd_ring f"] by (simp add: feed_inv_def feed_weight_def)

lemma feed_close_progress:
  assumes "feed_inv orders handled f" "fd_seq f = fd_avail f" "fd_seq f \<noteq> sp_next (fd_ring f)"
  shows "feed_weight orders (feed_close f) = feed_weight orders f" "feed_open_batch (feed_close f) < feed_open_batch f"
  using ring_weight_close [of RING_IN_BITS "fd_seq f" "fd_ring f"] assms by (simp_all add: feed_inv_def feed_weight_def feed_open_batch_def feed_close_def)

lemma feed_open_progress:
  assumes "feed_inv orders handled f" "fd_seq f = fd_avail f" "fd_seq f = sp_next (fd_ring f)" "spsc_contents RING_IN_BITS (fd_ring f) \<noteq> []"
  shows "feed_weight orders (feed_open f) < feed_weight orders f" "length orders < 2 ^ 64 \<Longrightarrow> fd_c f < of_nat (length orders)"
proof -
  obtain a r where o: "spsc_batch_open (fd_ring f) = (a, r)" by force
  have ok: "spsc_ok RING_IN_BITS (fd_ring f)" using assms(1) spsc_reading_ok by (auto simp: feed_inv_def)
  show "feed_weight orders (feed_open f) < feed_weight orders f"
    using ring_weight_open [OF ok assms(4) o] o assms(2,3) by (simp add: feed_weight_def feed_open_def)
  show "fd_c f < of_nat (length orders)" if "length orders < 2 ^ 64"
    using feed_finished(2) [OF assms(1,3) _ that] assms(3,4) spsc_unread_start [of RING_IN_BITS "fd_ring f"] by force
qed

text \<open>An idle consumer of an empty ring to which everything was published has reached the end.\<close>

lemma feed_idle:
  assumes "feed_inv orders handled f" "spsc_contents RING_IN_BITS (fd_ring f) = []" "\<not> fd_i f < length orders" "length orders < 2 ^ 64"
  shows "fd_seq f = fd_avail f" "fd_seq f = sp_next (fd_ring f)" "\<not> fd_c f < of_nat (length orders)"
proof -
  have "spsc_reading RING_IN_BITS (fd_seq f) (fd_avail f) (fd_ring f)" using assms(1) by (simp add: feed_inv_def)
  from spsc_reading_empty [OF this assms(2)] show e: "fd_seq f = fd_avail f" "fd_seq f = sp_next (fd_ring f)" by auto
  have "unat (fd_c f) = length handled" using assms(1) e(2) by (simp add: feed_inv_def)
  moreover have "length handled = length orders" using feed_inv_length [OF assms(1)] assms(2,3) by (simp add: spsc_unread_def)
  ultimately show "\<not> fd_c f < of_nat (length orders)" using assms(4) by (simp add: word_less_nat_alt unat_of_nat take_bit_nat_eq_self)
qed

definition bench2_progress :: "Order list \<Rightarrow> (bench2 \<times> bench2) set" where
  "bench2_progress orders = inv_image (less_than <*lex*> less_than)
     (\<lambda>s. (feed_weight orders (b2_feed s), feed_open_batch (b2_feed s) + of_bool (\<not> b2_done s)))"

lemma bench2_progress_iff:
  "(s', s) \<in> bench2_progress orders \<longleftrightarrow> feed_weight orders (b2_feed s') < feed_weight orders (b2_feed s) \<or>
     feed_weight orders (b2_feed s') = feed_weight orders (b2_feed s) \<and>
     feed_open_batch (b2_feed s') + of_bool (\<not> b2_done s') < feed_open_batch (b2_feed s) + of_bool (\<not> b2_done s)"
  by (auto simp: bench2_progress_def)

lemma bench2_progresses:
  assumes "bench2_inv orders s" "\<not> b2_done s" "length orders < 2 ^ 64"
  shows "\<exists>s'. bench2_step orders s s' \<and> (s', s) \<in> bench2_progress orders"
proof -
  let ?f = "b2_feed s" and ?m = "bench2_matcher (length orders) s"
  obtain handled where f: "feed_inv orders handled ?f" using assms(1) by (auto simp: bench2_inv_def)
  consider (item) "fd_seq ?f \<noteq> fd_avail ?f" | (close) "fd_seq ?f = fd_avail ?f" "fd_seq ?f \<noteq> sp_next (fd_ring ?f)"
    | (take) "fd_seq ?f = fd_avail ?f" "fd_seq ?f = sp_next (fd_ring ?f)" "spsc_contents RING_IN_BITS (fd_ring ?f) \<noteq> []"
    | (publish) "spsc_contents RING_IN_BITS (fd_ring ?f) = []" "fd_i ?f < length orders"
    | (finish) "spsc_contents RING_IN_BITS (fd_ring ?f) = []" "\<not> fd_i ?f < length orders" by blast
  then show ?thesis
  proof cases
    case item
    then have "(?m, s) \<in> bench2_progress orders" using assms(2) feed_item_progress [OF f] by (simp add: bench2_matcher_def bench2_progress_iff Let_def)
    then show ?thesis using bench2_step.matcher by blast
  next
    case close
    then have "(?m, s) \<in> bench2_progress orders" using assms(2) feed_close_progress [OF f] by (simp add: bench2_matcher_def bench2_progress_iff Let_def)
    then show ?thesis using bench2_step.matcher by blast
  next
    case take
    then have "(?m, s) \<in> bench2_progress orders" using assms(2,3) feed_open_progress [OF f] by (simp add: bench2_matcher_def bench2_progress_iff Let_def)
    then show ?thesis using bench2_step.matcher by blast
  next
    case publish
    then have "(bench2_sequencer orders s, s) \<in> bench2_progress orders"
      using feed_publish_progress [OF f] by (simp add: bench2_sequencer_def bench2_progress_iff)
    then show ?thesis using bench2_step.sequencer by blast
  next
    case finish
    then have "(?m, s) \<in> bench2_progress orders" using assms(2) feed_idle [OF f finish assms(3)] by (simp add: bench2_matcher_def bench2_progress_iff Let_def)
    then show ?thesis using bench2_step.matcher by blast
  qed
qed

lemma bench2_ends:
  assumes "bench2_inv orders s" "length orders < 2 ^ 64"
  shows "\<exists>s'. (bench2_step orders)\<^sup>*\<^sup>* s s' \<and> bench2_inv orders s' \<and> b2_done s'"
proof (rule schedule_ends [where R = "bench2_progress orders"])
  show "wf (bench2_progress orders)" by (simp add: bench2_progress_def wf_lex_prod)
  show "\<exists>s'. bench2_step orders s s' \<and> bench2_inv orders s' \<and> (s', s) \<in> bench2_progress orders" if "bench2_inv orders s" "\<not> b2_done s" for s
    using bench2_progresses [OF that assms(2)] bench2_inv_step [OF _ that(1) assms(2)] by blast
qed (rule assms(1))

text \<open>The state of the publisher's loop: the test for the end is reached and succeeds, a new attempt to read, or a test that fails because there is something to read.\<close>

definition publisher_phase :: "bench3 \<Rightarrow> nat" where
  "publisher_phase s = (if b3_done s then 0 else if \<not> b3_empty s then 2 else if spsc_contents RING_OUT_BITS (b3_egress s) = [] then 1 else 3)"

definition trade_weight :: "bench3 \<Rightarrow> nat" where
  "trade_weight s = 4 * length (snd (snd (b3_engine s))) + 3 * length (b3_out s) + ring_weight RING_OUT_BITS (b3_seq s) (b3_avail s) (b3_egress s)"

definition open_batches :: "bench3 \<Rightarrow> nat" where
  "open_batches s = feed_open_batch (b3_feed s) + open_batch (b3_seq s) (b3_egress s) + of_bool (\<not> b3_matcher_done s)"

definition bench3_progress :: "Order list \<Rightarrow> (bench3 \<times> bench3) set" where
  "bench3_progress orders = inv_image (less_than <*lex*> less_than <*lex*> less_than <*lex*> less_than)
     (\<lambda>s. (feed_weight orders (b3_feed s), trade_weight s, open_batches s, publisher_phase s))"

lemma bench3_progress_iff:
  "(s', s) \<in> bench3_progress orders \<longleftrightarrow> feed_weight orders (b3_feed s') < feed_weight orders (b3_feed s) \<or>
     feed_weight orders (b3_feed s') = feed_weight orders (b3_feed s) \<and> (trade_weight s' < trade_weight s \<or>
     trade_weight s' = trade_weight s \<and> (open_batches s' < open_batches s \<or>
     open_batches s' = open_batches s \<and> publisher_phase s' < publisher_phase s))"
  by (auto simp: bench3_progress_def)

lemmas bench3_weights = bench3_progress_iff trade_weight_def open_batches_def publisher_phase_def

lemma bench3_publisher_progress:
  assumes rd: "spsc_reading RING_OUT_BITS (b3_seq s) (b3_avail s) (b3_egress s)" and nd: "\<not> b3_done s"
    and work: "spsc_contents RING_OUT_BITS (b3_egress s) \<noteq> [] \<or> b3_matcher_done s"
  shows "(bench3_publisher s, s) \<in> bench3_progress orders"
proof -
  let ?e = "b3_egress s"
  obtain a r where o: "spsc_batch_open ?e = (a, r)" by force
  note op = spsc_batch_open [OF spsc_reading_ok [OF rd] o]
  consider (item) "b3_seq s \<noteq> b3_avail s" | (close) "b3_seq s = b3_avail s" "b3_seq s \<noteq> sp_next ?e"
    | (test) "b3_seq s = b3_avail s" "b3_seq s = sp_next ?e" "b3_empty s"
    | (take) "b3_seq s = b3_avail s" "b3_seq s = sp_next ?e" "\<not> b3_empty s" "spsc_contents RING_OUT_BITS ?e \<noteq> []"
    | (none) "b3_seq s = b3_avail s" "b3_seq s = sp_next ?e" "\<not> b3_empty s" "spsc_contents RING_OUT_BITS ?e = []" by blast
  then show ?thesis
  proof cases
    case item
    then show ?thesis using nd ring_weight_item [OF rd] by (simp add: bench3_publisher_def bench3_weights)
  next
    case close
    then show ?thesis using nd rd ring_weight_close [of RING_OUT_BITS "b3_seq s" ?e] by (simp add: bench3_publisher_def bench3_weights)
  next
    case test
    then show ?thesis using nd work spsc_empty_contents [of ?e RING_OUT_BITS] by (auto simp: bench3_publisher_def bench3_weights)
  next
    case take
    then show ?thesis using nd o ring_weight_open [OF spsc_reading_ok [OF rd] take(4) o] by (simp add: bench3_publisher_def bench3_weights)
  next
    case none
    have "sp_cursor ?e = sp_next ?e" using none(4) spsc_contents_length [of RING_OUT_BITS ?e] by (simp add: unat_eq_0)
    then have "a = sp_next ?e" "r = ?e" using o by (auto simp: spsc_batch_open_def)
    then show ?thesis using nd none o by (simp add: bench3_publisher_def bench3_weights)
  qed
qed

lemma bench3_matcher_progress:
  assumes rel: "bench3_rel orders handled seen s" and n: "length orders < 2 ^ 64" and nd: "\<not> b3_matcher_done s"
    and e0: "spsc_contents RING_OUT_BITS (b3_egress s) = []"
    and work: "spsc_contents RING_IN_BITS (fd_ring (b3_feed s)) \<noteq> [] \<or> b3_out s \<noteq> [] \<or> snd (snd (b3_engine s)) \<noteq> [] \<or> \<not> fd_i (b3_feed s) < length orders"
  shows "(bench3_matcher (length orders) s, s) \<in> bench3_progress orders"
proof -
  let ?f = "b3_feed s"
  obtain b log lt where e: "b3_engine s = (b, log, lt)" by (metis prod_cases3)
  have f: "feed_inv orders handled ?f" and rd: "spsc_reading RING_OUT_BITS (b3_seq s) (b3_avail s) (b3_egress s)"
    using rel e by (auto simp: bench3_rel_def)
  have w: "spsc_contents RING_IN_BITS (fd_ring ?f) \<noteq> [] \<or> b3_out s \<noteq> [] \<or> lt \<noteq> [] \<or> \<not> fd_i ?f < length orders" using work e by simp
  consider (wave) "b3_out s \<noteq> []" | (item) "b3_out s = []" "fd_seq ?f \<noteq> fd_avail ?f"
    | (close) "b3_out s = []" "fd_seq ?f = fd_avail ?f" "fd_seq ?f \<noteq> sp_next (fd_ring ?f)"
    | (flush) "b3_out s = []" "fd_seq ?f = fd_avail ?f" "fd_seq ?f = sp_next (fd_ring ?f)" "lt \<noteq> []"
    | (take) "b3_out s = []" "fd_seq ?f = fd_avail ?f" "fd_seq ?f = sp_next (fd_ring ?f)" "lt = []" "spsc_contents RING_IN_BITS (fd_ring ?f) \<noteq> []"
    | (finish) "b3_out s = []" "lt = []" "spsc_contents RING_IN_BITS (fd_ring ?f) = []" "\<not> fd_i ?f < length orders"
    using w by blast
  then show ?thesis
  proof cases
    case wave
    obtain t r where w: "spsc_publish_wave RING_OUT_BITS (b3_out s) (b3_egress s) = (t, r)" by force
    note sw = spsc_wave [OF spsc_reading_ok [OF rd] w]
    have t: "0 < t" "t \<le> length (b3_out s)" using sw(3,4) e0 wave by auto
    have "ring_weight RING_OUT_BITS (b3_seq s) (b3_avail s) r = ring_weight RING_OUT_BITS (b3_seq s) (b3_avail s) (b3_egress s) + 2 * length (take t (b3_out s))"
      by (rule ring_weight_extend(1) [OF rd sw(1) spsc_reading_wave(3) [OF rd w] sw(2)])
    moreover have "3 * (length (b3_out s) - t) + 2 * t < 3 * length (b3_out s)" using t by simp
    ultimately show ?thesis using nd wave w t e by (simp add: bench3_matcher_def bench3_progress_iff trade_weight_def Let_def)
  next
    case item
    then show ?thesis using nd e feed_item_progress [OF f] by (simp add: bench3_matcher_def bench3_weights Let_def)
  next
    case close
    then show ?thesis using nd e feed_close_progress [OF f] by (simp add: bench3_matcher_def bench3_weights Let_def)
  next
    case flush
    then show ?thesis using nd e by (simp add: bench3_matcher_def bench3_weights Let_def)
  next
    case take
    then show ?thesis using nd e n feed_open_progress [OF f] by (simp add: bench3_matcher_def bench3_weights Let_def)
  next
    case finish
    then show ?thesis using nd e feed_idle [OF f finish(3,4) n] by (simp add: bench3_matcher_def bench3_weights Let_def)
  qed
qed

lemma bench3_progresses:
  assumes "bench3_inv orders s" "\<not> b3_done s" "length orders < 2 ^ 64"
  shows "\<exists>s'. bench3_step orders s s' \<and> (s', s) \<in> bench3_progress orders"
proof -
  obtain handled seen where rel: "bench3_rel orders handled seen s" using assms(1) by (auto simp: bench3_inv_def)
  have f: "feed_inv orders handled (b3_feed s)" and rd: "spsc_reading RING_OUT_BITS (b3_seq s) (b3_avail s) (b3_egress s)"
    using rel by (auto simp: bench3_rel_def)
  let ?work = "spsc_contents RING_IN_BITS (fd_ring (b3_feed s)) \<noteq> [] \<or> b3_out s \<noteq> [] \<or> snd (snd (b3_engine s)) \<noteq> [] \<or> \<not> fd_i (b3_feed s) < length orders"
  consider (publisher) "spsc_contents RING_OUT_BITS (b3_egress s) \<noteq> [] \<or> b3_matcher_done s"
    | (matcher) "\<not> b3_matcher_done s" "spsc_contents RING_OUT_BITS (b3_egress s) = []" ?work
    | (sequencer) "spsc_contents RING_IN_BITS (fd_ring (b3_feed s)) = []" "fd_i (b3_feed s) < length orders" by blast
  then show ?thesis
  proof cases
    case publisher
    then show ?thesis using bench3_publisher_progress [OF rd assms(2)] bench3_step.publisher by blast
  next
    case matcher
    then show ?thesis using bench3_matcher_progress [OF rel assms(3)] bench3_step.matcher by blast
  next
    case sequencer
    then have "(bench3_sequencer orders s, s) \<in> bench3_progress orders"
      using feed_publish_progress [OF f] by (simp add: bench3_sequencer_def bench3_progress_iff)
    then show ?thesis using bench3_step.sequencer by blast
  qed
qed

lemma bench3_ends:
  assumes "bench3_inv orders s" "length orders < 2 ^ 64"
  shows "\<exists>s'. (bench3_step orders)\<^sup>*\<^sup>* s s' \<and> bench3_inv orders s' \<and> b3_done s'"
proof (rule schedule_ends [where R = "bench3_progress orders"])
  show "wf (bench3_progress orders)" by (simp add: bench3_progress_def wf_lex_prod)
  show "\<exists>s'. bench3_step orders s s' \<and> bench3_inv orders s' \<and> (s', s) \<in> bench3_progress orders" if "bench3_inv orders s" "\<not> b3_done s" for s
    using bench3_progresses [OF that assms(2)] bench3_inv_step [OF _ that(1) assms(2)] by blast
qed (rule assms(1))

section \<open>The verdict of the benchmark\<close>

text \<open>
  C20. The three runs are equivalent: in every interleaving of the two and of the three threads, once the runs have ended, the checksums of the trades of the matcher alone, of the
  run with two threads and of the run with three threads are equal, so that the benchmark reports \<^verbatim>\<open>MATCH\<close>; this holds for any list of orders.
\<close>

theorem bench_runs_equivalent:
  assumes "length orders < 2 ^ 64" "(bench2_step orders)\<^sup>*\<^sup>* bench2_init s2" "b2_done s2" "(bench3_step orders)\<^sup>*\<^sup>* bench3_init s3" "b3_done s3"
  shows "checksums_match (run_inline orders) (b2_out_chk s2) (b3_pub_chk s3)"
proof -
  have "bench2_inv orders s2" by (rule bench2_steps_inv [OF assms(2) bench2_inv_init assms(1)])
  moreover have "bench3_inv orders s3" by (rule bench3_steps_inv [OF assms(4) bench3_inv_init assms(1)])
  ultimately show ?thesis using assms(3,5) by (auto simp: checksums_match_def run_inline_checksum bench2_inv_def bench3_inv_def bench3_rel_def)
qed

theorem bench_runs_equivalent_witness:
  "\<exists>s2 s3. (bench2_step [sell5, buy3])\<^sup>*\<^sup>* bench2_init s2 \<and> (bench3_step [sell5, buy3])\<^sup>*\<^sup>* bench3_init s3 \<and>
     checksums_match (run_inline [sell5, buy3]) (b2_out_chk s2) (b3_pub_chk s3)"
proof -
  have n: "length [sell5, buy3] < 2 ^ 64" by simp
  obtain s2 where s2: "(bench2_step [sell5, buy3])\<^sup>*\<^sup>* bench2_init s2" "b2_done s2" using bench2_ends [OF bench2_inv_init n] by blast
  obtain s3 where s3: "(bench3_step [sell5, buy3])\<^sup>*\<^sup>* bench3_init s3" "b3_done s3" using bench3_ends [OF bench3_inv_init n] by blast
  show ?thesis using bench_runs_equivalent [OF n s2 s3] s2(1) s3(1) by blast
qed

text \<open>
  The busy-waiting threads of the benchmark do not block each other: from every state that the three threads can reach, however small a part of the work is done, they have steps that
  bring the run to its end.
\<close>

theorem bench_finishes:
  assumes "length orders < 2 ^ 64" "(bench3_step orders)\<^sup>*\<^sup>* bench3_init s"
  shows "\<exists>s'. (bench3_step orders)\<^sup>*\<^sup>* s s' \<and> b3_done s'"
  using bench3_ends [OF bench3_steps_inv [OF assms(2) bench3_inv_init assms(1)] assms(1)] by blast

theorem bench_finishes_witness:
  "\<exists>s'. (bench3_step [sell5, buy3])\<^sup>*\<^sup>* (bench3_sequencer [sell5, buy3] bench3_init) s' \<and> b3_done s'"
  by (rule bench_finishes) (simp_all add: bench3_step.sequencer r_into_rtranclp)

section \<open>The journaling tax\<close>

text \<open>The sequencer of \<^verbatim>\<open>run_seq_tax\<close>: without a log, or with a new one of room for all orders; \<open>Inl\<close> is the abort of a full log.\<close>

datatype Jmode = J_NONE | J_APPEND | J_APPEND_SYNC

definition tax_flush_interval :: "Jmode \<Rightarrow> 32 word" where
  "tax_flush_interval mode = (if mode = J_APPEND_SYNC then 1024 else of_nat (PB_N + 1))"

definition tax_sync_every :: "Jmode \<Rightarrow> 32 word" where
  "tax_sync_every mode = (if mode = J_APPEND_SYNC then 64 else 0)"

definition tax_journal :: "Jmode \<Rightarrow> 64 word \<Rightarrow> Order list \<Rightarrow> journal_error + (Sequencer \<times> Journaler) option" where
  "tax_journal mode pg orders =
     (if mode = J_NONE then Inr None
      else case publish_all pg orders (sequencer_init (tax_flush_interval mode) (tax_sync_every mode), fresh_wal (of_nat (PB_N + 64))) of
        Inl e \<Rightarrow> Inl e | Inr sj \<Rightarrow> Inr (Some sj))"

text \<open>A sequencer whose flush interval is longer than what it publishes makes no call of \<^verbatim>\<open>msync\<close>.\<close>

lemma publish_all_no_flush:
  assumes "journal_ok j" "unat (sq_since_flush s) + length os < unat (sq_flush_interval s)" "publish_all pg os (s, j) = Inr (s', j')"
  shows "jr_msync j' = jr_msync j"
  using assms
proof (induction os arbitrary: s j)
  case (Cons o' os)
  obtain o2 s1 j1 where b: "publish_begin o' (s, j) = Inr (o2, s1, j1)" "publish_all pg os (publish_cadence pg (s1, j1)) = Inr (s', j')"
    using Cons.prems(3) by (auto split: sum.splits)
  note c = publish_begin_cases [OF Cons.prems(1), of s o', unfolded b]
  have s1: "sq_since_flush s1 = sq_since_flush s" "sq_flush_interval s1 = sq_flush_interval s" "jr_msync j1 = jr_msync j" "journal_ok j1" using c by auto
  have "unat (sq_flush_interval s) < 2 ^ 32" using unsigned_less [of "sq_flush_interval s", where ?'a = nat] by simp
  then have inc: "unat (sq_since_flush s + 1) = unat (sq_since_flush s) + 1" using Cons.prems(2) by (simp add: unat_word_ariths)
  then have "\<not> sq_flush_interval s \<le> sq_since_flush s + 1" using Cons.prems(2) by (simp add: word_le_nat_alt)
  then have "publish_cadence pg (s1, j1) = (s1\<lparr>sq_since_flush := sq_since_flush s + 1\<rparr>, j1)" using s1 by (simp add: publish_cadence_def Let_def)
  with b(2) show ?case
    using Cons.IH [of j1 "s1\<lparr>sq_since_flush := sq_since_flush s + 1\<rparr>"] s1 inc Cons.prems(2) by simp
qed simp

text \<open>The mode that measures the append alone writes every order, stamped, and flushes nothing; no mode runs out of log.\<close>

lemma tax_journal_result:
  assumes "length orders \<le> PB_N" "mode \<noteq> J_NONE"
  obtains s j where "tax_journal mode pg orders = Inr (Some (s, j))" "wal_records j = stamp 0 orders" "mode = J_APPEND \<Longrightarrow> jr_msync j = []"
proof -
  let ?cap = "of_nat (PB_N + 64) :: 64 word" and ?s = "sequencer_init (tax_flush_interval mode) (tax_sync_every mode)"
  have cap: "unat ?cap = PB_N + 64" by (simp add: PB_N_def)
  then have ok: "64 + unat ?cap * 40 < 2 ^ 64" by (simp add: PB_N_def)
  obtain s j where r: "publish_all pg orders (?s, fresh_wal ?cap) = Inr (s, j)" "wal_records j = stamp 0 orders"
    using publish_fresh [OF ok, where pg = pg and os = orders and flush_interval = "tax_flush_interval mode" and sync_every = "tax_sync_every mode"]
      assms(1) cap by (auto split: sum.splits)
  have "jr_msync j = []" if "mode = J_APPEND"
  proof -
    have "unat (sq_since_flush ?s) + length orders < unat (sq_flush_interval ?s)"
      using assms(1) that by (simp add: sequencer_init_def tax_flush_interval_def PB_N_def)
    then show ?thesis using publish_all_no_flush [OF fresh_wal_ok [OF ok] _ r(1)] by simp
  qed
  then show thesis using that r assms(2) by (simp add: tax_journal_def)
qed

end
